(* ===== verification/Prelude.thy ===== *)
theory Prelude
  imports Main "HOL-Library.Word"
begin

text \<open>
  Shared material of the NovaOS development: the names of the machine integers, the reading of
  C strings as lists of characters, the named collections that carry the component proofs, and
  the generic lemmas on words and lists that more than one component uses.
\<close>

unbundle bit_operations_syntax

section \<open>Machine integers\<close>

type_synonym u8 = "8 word"
type_synonym u16 = "16 word"
type_synonym u32 = "32 word"
type_synonym u64 = "64 word"

section \<open>Collections of facts\<close>

named_theorems const_defs \<open>the compile-time constants of the kernel\<close>
named_theorems inv_defs \<open>the state invariants of the components\<close>
named_theorems frame_simps \<open>fields and locations an operation leaves alone\<close>

section \<open>C strings\<close>

text \<open>
  A \<open>const char*\<close> is the list of characters from where it points.  Reading at the end of the
  list gives the terminating NUL, so a string literal is its characters without the terminator
  and a character array is its cells.
\<close>

abbreviation NUL :: char where
  "NUL \<equiv> CHR 0x00"

definition deref :: "string \<Rightarrow> char" where
  "deref s = (case s of [] \<Rightarrow> NUL | c # _ \<Rightarrow> c)"

definition cstr :: "string \<Rightarrow> string" where
  "cstr s = takeWhile (\<lambda>c. c \<noteq> NUL) s"

lemma deref_simps [simp]:
  "deref [] = NUL" "deref (c # s) = c"
  by (simp_all add: deref_def)

lemma cstr_simps [simp]:
  "cstr [] = []"
  "cstr (c # s) = (if c = NUL then [] else c # cstr s)"
  by (simp_all add: cstr_def)

lemma cstr_idem [simp]: "cstr (cstr s) = cstr s"
  by (simp add: cstr_def)

lemma NUL_notin_cstr [simp]: "NUL \<notin> set (cstr s)"
  by (induction s) auto

lemma cstr_id: "NUL \<notin> set s \<Longrightarrow> cstr s = s"
  by (simp add: cstr_def takeWhile_eq_all_conv) metis

lemma cstr_append_NUL: "NUL \<notin> set s \<Longrightarrow> cstr (s @ NUL # t) = s"
  by (induction s) auto

lemma length_cstr_le: "length (cstr s) \<le> length s"
  by (simp add: cstr_def length_takeWhile_le)

section \<open>Words\<close>

lemma unat_lt_exp64: "unat (a :: u64) < 2 ^ 64"
  using unsigned_less [of a] by simp

lemma unat_of_nat_lt:
  "n < 2 ^ LENGTH('a) \<Longrightarrow> unat (of_nat n :: 'a::len word) = n"
  by (simp add: unat_of_nat take_bit_nat_eq_self)

lemma unat_add_lt:
  fixes a b :: "'a::len word"
  shows "unat a + unat b < 2 ^ LENGTH('a) \<Longrightarrow> unat (a + b) = unat a + unat b"
  by (simp add: unat_word_ariths)

lemma unat_plus_nat:
  fixes a :: "'a::len word"
  assumes "unat a + i < 2 ^ LENGTH('a)"
  shows "unat (a + of_nat i) = unat a + i"
proof -
  have "unat (of_nat i :: 'a word) = i" using assms by (intro unat_of_nat_lt) simp
  with assms show ?thesis by (metis unat_add_lt)
qed

lemma unat_sub_le:
  fixes a b :: "'a::len word"
  shows "b \<le> a \<Longrightarrow> unat (a - b) = unat a - unat b"
  by (rule unat_sub)

lemma word_add_of_nat_eq_iff:
  fixes a :: "'a::len word"
  assumes "i < 2 ^ LENGTH('a)" "j < 2 ^ LENGTH('a)"
  shows "a + of_nat i = a + of_nat j \<longleftrightarrow> i = j"
  using assms by (metis add_left_cancel unat_of_nat_lt)


lemma of_nat_unat_id: "of_nat (unat w) = (w :: 'a::len word)"
  by simp

lemma of_nat_word_less_iff:
  assumes "m < 2 ^ LENGTH('a)" "n < 2 ^ LENGTH('a)"
  shows "(of_nat m :: 'a::len word) < of_nat n \<longleftrightarrow> m < n"
  using assms by (simp only: word_less_nat_alt unat_of_nat_lt)

lemma and_not_mask_eq: "(w :: 'a::len word) AND NOT (mask n) = push_bit n (drop_bit n w)"
  by (rule bit_word_eqI) (auto simp: bit_simps)

lemma unat_and_not_mask:
  fixes w :: "'a::len word"
  shows "unat (w AND NOT (mask n)) = unat w div 2 ^ n * 2 ^ n"
proof -
  have "unat w div 2 ^ n * 2 ^ n < 2 ^ LENGTH('a)"
    using unsigned_less [of w] by (metis div_times_less_eq_dividend order_le_less_trans)
  then show ?thesis
    by (simp add: and_not_mask_eq unsigned_push_bit_eq unsigned_drop_bit_eq
        push_bit_eq_mult [where 'a = nat] drop_bit_eq_div [where 'a = nat] take_bit_nat_eq_self)
qed

text \<open>The masks the kernel writes out: \<open>~0xFFF\<close>, \<open>~7\<close> and \<open>~3\<close>.\<close>

lemma unat_align_4096: "unat ((w :: u64) AND NOT 0xFFF) = unat w div 4096 * 4096"
  using unat_and_not_mask [of w 12] by (simp add: mask_eq_exp_minus_1)

lemma unat_align_8: "unat ((w :: u64) AND NOT 7) = unat w div 8 * 8"
  using unat_and_not_mask [of w 3] by (simp add: mask_eq_exp_minus_1)

lemma unat_align_4: "unat ((w :: u32) AND NOT 3) = unat w div 4 * 4"
  using unat_and_not_mask [of w 2] by (simp add: mask_eq_exp_minus_1)

end
