(* ===== verification/Gdt.thy ===== *)
theory Gdt
  imports Prelude
begin

section \<open>Segments\<close>

text \<open>
  \<open>kernel/arch/x86_64/gdt.cpp\<close>: the descriptor table that \<open>gdt_init\<close> builds, the task state segment, and
  the registers it loads.  The addresses of the static objects are link-time constants, the fields of
  \<open>gdt_addrs\<close>.  \<open>gdt_bytes\<close> is the table as the processor reads it; \<open>seg_desc\<close> and \<open>sys_desc\<close> decode a
  descriptor from these bytes by the layout of the architecture manual.
\<close>

subsection \<open>Data\<close>

definition ACCESS_PRESENT :: u8 where [const_defs]: "ACCESS_PRESENT = 0x80"
definition ACCESS_RING0 :: u8 where [const_defs]: "ACCESS_RING0 = 0x00"
definition ACCESS_RING3 :: u8 where [const_defs]: "ACCESS_RING3 = 0x60"
definition ACCESS_SEGMENT :: u8 where [const_defs]: "ACCESS_SEGMENT = 0x10"
definition ACCESS_EXEC :: u8 where [const_defs]: "ACCESS_EXEC = 0x08"
definition ACCESS_RW :: u8 where [const_defs]: "ACCESS_RW = 0x02"
definition ACCESS_TSS_TYPE :: u8 where [const_defs]: "ACCESS_TSS_TYPE = 0x09"
definition GRAN_LONG_MODE :: u8 where [const_defs]: "GRAN_LONG_MODE = 0x20"
definition GRAN_PAGE :: u8 where [const_defs]: "GRAN_PAGE = 0x80"
definition GRAN_DB :: u8 where [const_defs]: "GRAN_DB = 0x40"
definition GDT_KERNEL_CODE :: u16 where [const_defs]: "GDT_KERNEL_CODE = 0x08"
definition GDT_TSS_SEL :: u16 where [const_defs]: "GDT_TSS_SEL = 0x28"

record GDTEntry =
  g_limit_low :: u16
  g_base_low :: u16
  g_base_mid :: u8
  g_access :: u8
  g_granularity :: u8
  g_base_high :: u8

record GDTSystemEntry =
  t_limit_low :: u16
  t_base_low :: u16
  t_base_mid :: u8
  t_access :: u8
  t_granularity :: u8
  t_base_high :: u8
  t_base_upper :: u32
  t_reserved :: u32

record GDTR =
  gdtr_limit :: u16
  gdtr_base :: u64

record TSS =
  tss_reserved0 :: u32
  tss_rsp :: "u64 list"
  tss_reserved1 :: u64
  tss_ist :: "u64 list"
  tss_reserved2 :: u64
  tss_reserved3 :: u16
  tss_iomap_base :: u16

definition SIZEOF_TSS :: nat where [const_defs]: "SIZEOF_TSS = 104"
definition SIZEOF_FULL_GDT :: nat where [const_defs]: "SIZEOF_FULL_GDT = 56"

record gdt_addrs =
  addr_kernel_tss :: u64
  addr_kernel_stack :: u64
  addr_full_gdt :: u64

record gdt_state =
  gdt_entries :: "GDTEntry list"
  gdt_tss :: GDTSystemEntry
  kernel_tss :: TSS
  gdtr :: GDTR
  sel_ds :: u16
  sel_es :: u16
  sel_fs :: u16
  sel_gs :: u16
  sel_ss :: u16
  sel_cs :: u16
  sel_tr :: u16

subsection \<open>Operations\<close>

definition set_gdt_entry :: "u32 \<Rightarrow> u32 \<Rightarrow> u8 \<Rightarrow> u8 \<Rightarrow> GDTEntry" where
  "set_gdt_entry base limit access granularity =
     \<lparr>g_limit_low = ucast (limit AND 0xFFFF),
      g_base_low = ucast (base AND 0xFFFF),
      g_base_mid = ucast (drop_bit 16 base AND 0xFF),
      g_access = access,
      g_granularity = (granularity AND 0xF0) OR ucast (drop_bit 16 limit AND 0x0F),
      g_base_high = ucast (drop_bit 24 base AND 0xFF)\<rparr>"

definition set_tss_descriptor :: "u64 \<Rightarrow> u32 \<Rightarrow> GDTSystemEntry" where
  "set_tss_descriptor base limit =
     \<lparr>t_limit_low = ucast (limit AND 0xFFFF),
      t_base_low = ucast (base AND 0xFFFF),
      t_base_mid = ucast (drop_bit 16 base AND 0xFF),
      t_access = ACCESS_PRESENT OR ACCESS_TSS_TYPE,
      t_granularity = ucast (drop_bit 16 limit AND 0x0F),
      t_base_high = ucast (drop_bit 24 base AND 0xFF),
      t_base_upper = ucast (drop_bit 32 base),
      t_reserved = 0\<rparr>"

definition gdt_init :: "gdt_addrs \<Rightarrow> gdt_state" where
  "gdt_init a =
     (let e0 = set_gdt_entry 0 0 0 0;
          e1 = set_gdt_entry 0 0xFFFFF
                 (ACCESS_PRESENT OR ACCESS_RING0 OR ACCESS_SEGMENT OR ACCESS_EXEC OR ACCESS_RW)
                 (GRAN_LONG_MODE OR GRAN_PAGE);
          e2 = set_gdt_entry 0 0xFFFFF
                 (ACCESS_PRESENT OR ACCESS_RING0 OR ACCESS_SEGMENT OR ACCESS_RW)
                 (GRAN_PAGE OR GRAN_DB);
          e3 = set_gdt_entry 0 0xFFFFF
                 (ACCESS_PRESENT OR ACCESS_RING3 OR ACCESS_SEGMENT OR ACCESS_EXEC OR ACCESS_RW)
                 (GRAN_LONG_MODE OR GRAN_PAGE);
          e4 = set_gdt_entry 0 0xFFFFF
                 (ACCESS_PRESENT OR ACCESS_RING3 OR ACCESS_SEGMENT OR ACCESS_RW)
                 (GRAN_PAGE OR GRAN_DB);
          tss = \<lparr>tss_reserved0 = 0, tss_rsp = replicate 3 0, tss_reserved1 = 0, tss_ist = replicate 7 0,
                 tss_reserved2 = 0, tss_reserved3 = 0, tss_iomap_base = 0\<rparr>;
          tss = tss\<lparr>tss_rsp := (tss_rsp tss)[0 := addr_kernel_stack a + 8192]\<rparr>;
          tss = tss\<lparr>tss_iomap_base := of_nat SIZEOF_TSS\<rparr>
      in \<lparr>gdt_entries = [e0, e1, e2, e3, e4],
          gdt_tss = set_tss_descriptor (addr_kernel_tss a) (of_nat SIZEOF_TSS - 1),
          kernel_tss = tss,
          gdtr = \<lparr>gdtr_limit = of_nat SIZEOF_FULL_GDT - 1, gdtr_base = addr_full_gdt a\<rparr>,
          sel_ds = 0x10, sel_es = 0x10, sel_fs = 0x10, sel_gs = 0x10, sel_ss = 0x10,
          sel_cs = 0x08, sel_tr = GDT_TSS_SEL\<rparr>)"

subsection \<open>The table as the processor reads it\<close>

definition le2 :: "u16 \<Rightarrow> u8 list" where
  "le2 w = [ucast w, ucast (drop_bit 8 w)]"

definition le4 :: "u32 \<Rightarrow> u8 list" where
  "le4 w = [ucast w, ucast (drop_bit 8 w), ucast (drop_bit 16 w), ucast (drop_bit 24 w)]"

definition gdt_entry_bytes :: "GDTEntry \<Rightarrow> u8 list" where
  "gdt_entry_bytes e = le2 (g_limit_low e) @ le2 (g_base_low e) @
     [g_base_mid e, g_access e, g_granularity e, g_base_high e]"

definition gdt_sys_bytes :: "GDTSystemEntry \<Rightarrow> u8 list" where
  "gdt_sys_bytes e = le2 (t_limit_low e) @ le2 (t_base_low e) @
     [t_base_mid e, t_access e, t_granularity e, t_base_high e] @ le4 (t_base_upper e) @ le4 (t_reserved e)"

definition gdt_bytes :: "gdt_state \<Rightarrow> u8 list" where
  "gdt_bytes g = concat (map gdt_entry_bytes (gdt_entries g)) @ gdt_sys_bytes (gdt_tss g)"

record desc =
  d_base :: nat
  d_limit :: nat
  d_access :: u8
  d_flags :: nat

definition seg_desc :: "u8 list \<Rightarrow> nat \<Rightarrow> desc" where
  "seg_desc bs sel = (let b = (\<lambda>i. unat (bs ! (sel + i))) in
     \<lparr>d_base = b 2 + 256 * b 3 + 65536 * b 4 + 16777216 * b 7,
      d_limit = b 0 + 256 * b 1 + 65536 * (b 6 mod 16),
      d_access = bs ! (sel + 5), d_flags = b 6 div 16\<rparr>)"

definition sys_desc :: "u8 list \<Rightarrow> nat \<Rightarrow> desc" where
  "sys_desc bs sel = (let b = (\<lambda>i. unat (bs ! (sel + i))); d = seg_desc bs sel in
     d\<lparr>d_base := d_base d + 4294967296 * (b 8 + 256 * b 9 + 65536 * b 10 + 16777216 * b 11)\<rparr>)"

subsection \<open>Bytes\<close>

lemma unat_ucast8: "unat (ucast (w :: 'a::len word) :: u8) = unat w mod 256"
  by (simp add: unsigned_ucast_eq take_bit_eq_mod)

lemma unat_ucast16: "unat (ucast (w :: 'a::len word) :: u16) = unat w mod 65536"
  by (simp add: unsigned_ucast_eq take_bit_eq_mod)

lemma unat_drop: "unat (drop_bit k (w :: 'a::len word)) = unat w div 2 ^ k"
  by (simp add: unsigned_drop_bit_eq drop_bit_eq_div [where 'a = nat] take_bit_nat_eq_self unsigned_less)

lemma unat_and_mask: "unat (w AND mask n :: 'a::len word) = unat w mod 2 ^ n"
  by (simp add: take_bit_eq_mask [symmetric] unsigned_take_bit_eq take_bit_eq_mod [where 'a = nat] del: take_bit_eq_mask)

lemma unat_low_bits:
  "unat (w AND 0xF :: 'a::len word) = unat w mod 16" "unat (w AND 0xFF) = unat w mod 256"
  "unat (w AND 0xFFFF) = unat w mod 65536"
  using unat_and_mask [of w 4] unat_and_mask [of w 8] unat_and_mask [of w 16] by (simp_all add: mask_eq_exp_minus_1)

lemma nibbles:
  fixes g l :: u8
  defines "x \<equiv> (g AND 0xF0) OR (l AND 0x0F)"
  shows "unat x mod 16 = unat l mod 16" "unat x div 16 = unat g div 16"
proof -
  have f0: "(0xF0 :: u8) = push_bit 4 (mask 4)" "(0x0F :: u8) = mask 4" by (simp_all add: mask_eq_exp_minus_1)
  have "take_bit 4 x = take_bit 4 l"
    unfolding x_def f0 by (rule bit_word_eqI) (auto simp: bit_simps)
  then have "unat (take_bit 4 x) = unat (take_bit 4 l)" by simp
  then show "unat x mod 16 = unat l mod 16" by (simp add: unsigned_take_bit_eq take_bit_eq_mod unat_mod)
  have "drop_bit 4 x = drop_bit 4 g"
    unfolding x_def f0 by (rule bit_word_eqI) (auto simp: bit_simps dest: bit_imp_le_length)
  then have "unat (drop_bit 4 x) = unat (drop_bit 4 g)" by simp
  then show "unat x div 16 = unat g div 16" by (simp add: unat_drop del: drop_bit_eq_div)
qed

lemma ucast_nibble: "(ucast (w AND 0x0F :: u32) :: u8) = ucast w AND 0x0F"
proof -
  have m: "(0x0F :: u32) = mask 4" "(0x0F :: u8) = mask 4" by (simp_all add: mask_eq_exp_minus_1)
  show ?thesis unfolding m by (rule bit_word_eqI) (auto simp: bit_simps)
qed

lemma bytes_16: "(x :: nat) mod 65536 mod 256 + 256 * (x mod 65536 div 256 mod 256) = x mod 65536"
proof -
  have "x mod 65536 div 256 < 256" by (simp add: less_mult_imp_div_less)
  then show ?thesis by simp
qed

lemma split_32:
  assumes "(x :: nat) < 4294967296"
  shows "x mod 65536 + 65536 * (x div 65536 mod 256) + 16777216 * (x div 16777216) = x"
proof -
  have "x mod (65536 * 256) = 65536 * (x div 65536 mod 256) + x mod 65536" by (rule mod_mult2_eq)
  moreover have "x = 16777216 * (x div 16777216) + x mod 16777216" by simp
  ultimately show ?thesis by simp
qed

lemma gdt_entry_decodes:
  "seg_desc (gdt_entry_bytes (set_gdt_entry base limit access gran)) 0 =
     \<lparr>d_base = unat base, d_limit = unat limit mod 2 ^ 20, d_access = access, d_flags = unat gran div 16\<rparr>"
proof -
  have b: "unat base < 4294967296" using unsigned_less [of base, where ?'a = nat] by simp
  then have bd: "unat base div 16777216 mod 256 = unat base div 16777216" by (simp add: less_mult_imp_div_less)
  have l: "unat limit mod 1048576 = unat limit mod 65536 + 65536 * (unat limit div 65536 mod 16)"
    using mod_mult2_eq [of "unat limit" 65536 16] by simp
  show ?thesis
    using bytes_16 [of "unat base"] bytes_16 [of "unat limit"] split_32 [OF b] bd l
    by (simp add: seg_desc_def gdt_entry_bytes_def set_gdt_entry_def le2_def Let_def unat_ucast8 unat_ucast16
        unat_drop unat_low_bits ucast_nibble nibbles mod_mod_cancel)
qed

lemma length_gdt_entry_bytes [simp]: "length (gdt_entry_bytes e) = 8"
  by (simp add: gdt_entry_bytes_def le2_def)

lemma length_gdt_sys_bytes [simp]: "length (gdt_sys_bytes e) = 16"
  by (simp add: gdt_sys_bytes_def le2_def le4_def)

lemma seg_desc_shift:
  "8 \<le> length bs \<Longrightarrow> seg_desc (xs @ bs @ ys) (length xs) = seg_desc bs 0"
  by (auto simp: seg_desc_def Let_def nth_append)

lemma sys_desc_shift:
  "16 \<le> length bs \<Longrightarrow> sys_desc (xs @ bs @ ys) (length xs) = sys_desc bs 0"
  by (auto simp: sys_desc_def seg_desc_def Let_def nth_append)

lemma bytes_32:
  assumes "(y :: nat) < 4294967296"
  shows "y mod 256 + 256 * (y div 256 mod 256) + 65536 * (y div 65536 mod 256) + 16777216 * (y div 16777216 mod 256) = y"
proof -
  have "y mod (256 * 256) = 256 * (y div 256 mod 256) + y mod 256" by (rule mod_mult2_eq)
  moreover have "y div 16777216 mod 256 = y div 16777216" using assms by (simp add: less_mult_imp_div_less)
  ultimately show ?thesis using split_32 [OF assms] by simp
qed

lemma unat_ucast32: "unat (ucast (w :: 'a::len word) :: u32) = unat w mod 4294967296"
  by (simp add: unsigned_ucast_eq take_bit_eq_mod)

lemma split_64: "(x :: nat) mod 65536 + 65536 * (x div 65536 mod 256) + 16777216 * (x div 16777216 mod 256) + 4294967296 * (x div 4294967296) = x"
proof -
  have lo: "x mod 4294967296 mod 65536 + 65536 * (x mod 4294967296 div 65536 mod 256)
      + 16777216 * (x mod 4294967296 div 16777216) = x mod 4294967296"
    by (rule split_32) simp
  have d: "x mod (65536 * 65536) div 65536 = x div 65536 mod 65536"
    unfolding mod_mult2_eq [of x 65536 65536] by simp
  have e: "x mod (16777216 * 256) div 16777216 = x div 16777216 mod 256"
    unfolding mod_mult2_eq [of x 16777216 256] by simp
  have "x = 4294967296 * (x div 4294967296) + x mod 4294967296" by simp
  with lo d e show ?thesis by (simp add: mod_mod_cancel)
qed

lemma word32_bytes:
  "unat (w :: u32) mod 256 + 256 * (unat w div 256 mod 256) + 65536 * (unat w div 65536 mod 256)
     + 16777216 * (unat w div 16777216 mod 256) = unat w"
  using unsigned_less [of w, where ?'a = nat] by (intro bytes_32) simp

lemma tss_base_upper:
  "unat (t_base_upper (set_tss_descriptor base limit)) = unat base div 4294967296"
  using unsigned_less [of base, where ?'a = nat]
  by (simp add: set_tss_descriptor_def unat_ucast32 unat_drop less_mult_imp_div_less)

lemma tss_base_lower:
  "d_base (seg_desc (gdt_sys_bytes (set_tss_descriptor base limit)) 0) =
     unat base mod 65536 + 65536 * (unat base div 65536 mod 256) + 16777216 * (unat base div 16777216 mod 256)"
  using bytes_16 [of "unat base"]
  by (simp add: seg_desc_def gdt_sys_bytes_def set_tss_descriptor_def le2_def Let_def
      unat_ucast8 unat_ucast16 unat_drop unat_low_bits mod_mod_cancel)

lemma tss_other_fields:
  "d_limit (seg_desc (gdt_sys_bytes (set_tss_descriptor base limit)) 0) = unat limit mod 1048576"
  "d_access (seg_desc (gdt_sys_bytes (set_tss_descriptor base limit)) 0) = 0x89"
  "d_flags (seg_desc (gdt_sys_bytes (set_tss_descriptor base limit)) 0) = 0"
proof -
  have l: "unat limit mod 1048576 = unat limit mod 65536 + 65536 * (unat limit div 65536 mod 16)"
    using mod_mult2_eq [of "unat limit" 65536 16] by simp
  have n: "unat (ucast (drop_bit 16 limit) AND 0xF :: u8) = unat limit div 65536 mod 16"
    by (simp add: unat_low_bits unat_ucast8 unat_drop mod_mod_cancel)
  show "d_limit (seg_desc (gdt_sys_bytes (set_tss_descriptor base limit)) 0) = unat limit mod 1048576"
    unfolding l using bytes_16 [of "unat limit"]
    by (simp add: seg_desc_def gdt_sys_bytes_def set_tss_descriptor_def le2_def Let_def
        unat_ucast8 unat_ucast16 unat_drop unat_low_bits ucast_nibble n mod_mod_cancel)
  show "d_access (seg_desc (gdt_sys_bytes (set_tss_descriptor base limit)) 0) = 0x89"
    by (simp add: seg_desc_def gdt_sys_bytes_def set_tss_descriptor_def le2_def Let_def const_defs)
  show "d_flags (seg_desc (gdt_sys_bytes (set_tss_descriptor base limit)) 0) = 0"
    by (simp add: seg_desc_def gdt_sys_bytes_def set_tss_descriptor_def le2_def Let_def ucast_nibble n)
qed

lemma tss_decodes:
  "sys_desc (gdt_sys_bytes (set_tss_descriptor base limit)) 0 =
     \<lparr>d_base = unat base, d_limit = unat limit mod 2 ^ 20, d_access = 0x89, d_flags = 0\<rparr>"
proof -
  let ?e = "set_tss_descriptor base limit"
  have up: "unat (gdt_sys_bytes ?e ! 8) + 256 * unat (gdt_sys_bytes ?e ! 9) + 65536 * unat (gdt_sys_bytes ?e ! 10)
      + 16777216 * unat (gdt_sys_bytes ?e ! 11) = unat base div 4294967296"
    using word32_bytes [of "t_base_upper ?e"] unfolding tss_base_upper
    by (simp add: gdt_sys_bytes_def le2_def le4_def unat_ucast8 unat_drop tss_base_upper)
  show ?thesis
    using up tss_base_lower [of base limit] tss_other_fields [of base limit] split_64 [of "unat base"]
    by (simp only: sys_desc_def Let_def) simp
qed

text \<open>
  Both encoders are inverted by the processor's reading of a descriptor: for every base, limit,
  access byte and granularity, the eight bytes that \<open>set_gdt_entry\<close> writes decode to exactly that base, to the
  limit's low 20 bits, to the access byte and to the granularity's high nibble, and the sixteen bytes of
  \<open>set_tss_descriptor\<close> decode to the full 64-bit base with the access byte of an available TSS.
\<close>
lemma gdt_descriptor_roundtrip:
  "seg_desc (gdt_entry_bytes (set_gdt_entry base limit access gran)) 0 =
     \<lparr>d_base = unat base, d_limit = unat limit mod 2 ^ 20, d_access = access, d_flags = unat gran div 16\<rparr> \<and>
   sys_desc (gdt_sys_bytes (set_tss_descriptor base64 limit)) 0 =
     \<lparr>d_base = unat base64, d_limit = unat limit mod 2 ^ 20, d_access = 0x89, d_flags = 0\<rparr>"
  by (simp only: gdt_entry_decodes tss_decodes simp_thms)

lemma null_entry: "gdt_entry_bytes (set_gdt_entry 0 0 0 0) = replicate 8 0"
  by code_simp

lemma gdt_table_entry:
  assumes "i < length (gdt_entries g)"
  shows "seg_desc (gdt_bytes g) (8 * i) = seg_desc (gdt_entry_bytes (gdt_entries g ! i)) 0"
proof -
  let ?es = "gdt_entries g"
  let ?pre = "concat (map gdt_entry_bytes (take i ?es))"
  have "length ?pre = 8 * i"
    using assms by (simp add: length_concat o_def sum_list_triv)
  moreover have "gdt_bytes g = ?pre @ gdt_entry_bytes (?es ! i) @
      concat (map gdt_entry_bytes (drop (Suc i) ?es)) @ gdt_sys_bytes (gdt_tss g)"
    unfolding gdt_bytes_def by (subst id_take_nth_drop [OF assms]) simp
  ultimately show ?thesis using seg_desc_shift [of "gdt_entry_bytes (?es ! i)" ?pre] by simp
qed

lemma gdt_table_tss:
  "sys_desc (gdt_bytes g) (8 * length (gdt_entries g)) = sys_desc (gdt_sys_bytes (gdt_tss g)) 0"
  using sys_desc_shift [of "gdt_sys_bytes (gdt_tss g)" "concat (map gdt_entry_bytes (gdt_entries g))" "[]"]
  by (simp add: gdt_bytes_def length_concat o_def sum_list_triv mult.commute)

definition flat :: "u8 \<Rightarrow> nat \<Rightarrow> desc" where
  "flat access flags = \<lparr>d_base = 0, d_limit = 0xFFFFF, d_access = access, d_flags = flags\<rparr>"

lemma gdt_init_segments:
  "seg_desc (gdt_bytes (gdt_init a)) 0x08 = flat 0x9A 0xA"
  "seg_desc (gdt_bytes (gdt_init a)) 0x10 = flat 0x92 0xC"
  "seg_desc (gdt_bytes (gdt_init a)) 0x18 = flat 0xFA 0xA"
  "seg_desc (gdt_bytes (gdt_init a)) 0x20 = flat 0xF2 0xC"
  using gdt_table_entry [of 1 "gdt_init a"] gdt_table_entry [of 2 "gdt_init a"]
    gdt_table_entry [of 3 "gdt_init a"] gdt_table_entry [of 4 "gdt_init a"]
  by (simp_all add: gdt_init_def gdt_entry_decodes flat_def const_defs)

text \<open>
  Claim C29.  What \<open>gdt_init\<close> loads is a valid long-mode table: the limit of \<open>gdtr\<close> covers exactly its bytes, the
  first descriptor is null, CS and the data selectors index a flat ring 0 code segment with the long mode bit
  and a flat ring 0 data segment, 0x18 and 0x20 are the ring 3 pair, and TR indexes a 64-bit TSS descriptor whose
  base and limit are those of \<open>kernel_tss\<close>, with RSP0 at the top of \<open>kernel_stack\<close> and no I/O bitmap.
\<close>
theorem gdt_init_table:
  "let g = gdt_init a; bs = gdt_bytes g in
     length bs = unat (gdtr_limit (gdtr g)) + 1 \<and> gdtr_base (gdtr g) = addr_full_gdt a \<and>
     take 8 bs = replicate 8 0 \<and>
     seg_desc bs (unat (sel_cs g)) = flat 0x9A 0xA \<and>
     list_all (\<lambda>s. seg_desc bs (unat s) = flat 0x92 0xC) [sel_ds g, sel_es g, sel_fs g, sel_gs g, sel_ss g] \<and>
     seg_desc bs 0x18 = flat 0xFA 0xA \<and> seg_desc bs 0x20 = flat 0xF2 0xC \<and>
     sys_desc bs (unat (sel_tr g)) =
       \<lparr>d_base = unat (addr_kernel_tss a), d_limit = SIZEOF_TSS - 1, d_access = 0x89, d_flags = 0\<rparr> \<and>
     tss_rsp (kernel_tss g) ! 0 = addr_kernel_stack a + 8192 \<and>
     unat (tss_iomap_base (kernel_tss g)) = SIZEOF_TSS"
proof -
  let ?g = "gdt_init a"
  have sel: "unat (sel_cs ?g) = 0x08" "list_all (\<lambda>s. unat s = 0x10) [sel_ds ?g, sel_es ?g, sel_fs ?g, sel_gs ?g, sel_ss ?g]" "unat (sel_tr ?g) = 0x28"
    by (simp_all add: gdt_init_def Let_def const_defs)
  have lim: "length (gdt_bytes ?g) = unat (gdtr_limit (gdtr ?g)) + 1"
    by (simp add: gdt_bytes_def gdt_init_def Let_def const_defs)
  have null: "take 8 (gdt_bytes ?g) = replicate 8 0"
    by (simp add: gdt_bytes_def gdt_init_def Let_def null_entry)
  have tss: "sys_desc (gdt_bytes ?g) 0x28 =
      \<lparr>d_base = unat (addr_kernel_tss a), d_limit = SIZEOF_TSS - 1, d_access = 0x89, d_flags = 0\<rparr>"
    using gdt_table_tss [of ?g] by (simp add: gdt_init_def Let_def tss_decodes const_defs)
  have rest: "gdtr_base (gdtr ?g) = addr_full_gdt a" "tss_rsp (kernel_tss ?g) ! 0 = addr_kernel_stack a + 8192"
      "unat (tss_iomap_base (kernel_tss ?g)) = SIZEOF_TSS"
    by (simp_all add: gdt_init_def Let_def const_defs)
  from sel(2) have "list_all (\<lambda>s. seg_desc (gdt_bytes ?g) (unat s) = flat 0x92 0xC)
      [sel_ds ?g, sel_es ?g, sel_fs ?g, sel_gs ?g, sel_ss ?g]"
    by (simp add: gdt_init_segments)
  then show ?thesis by (simp only: Let_def sel lim null tss rest gdt_init_segments simp_thms)
qed

end
