(* ===== verification/Idt.thy ===== *)
theory Idt
  imports Gdt
begin

section \<open>Interrupt gates\<close>

text \<open>
  \<open>kernel/arch/x86_64/idt.cpp\<close>, the table: \<open>idt_set_gate\<close>, \<open>idt_init\<close> and the register it loads.  The
  addresses of the assembly stubs and of the table are link-time constants, the fields of \<open>idt_addrs\<close>.
  \<open>idt_bytes\<close> is the table as it lies in memory and \<open>gate_desc\<close> how the processor decodes the gate of a
  vector from it.
\<close>

subsection \<open>Data\<close>

definition IDT_PRESENT :: u8 where [const_defs]: "IDT_PRESENT = 0x80"
definition IDT_DPL_RING0 :: u8 where [const_defs]: "IDT_DPL_RING0 = 0x00"
definition IDT_INTERRUPT_GATE :: u8 where [const_defs]: "IDT_INTERRUPT_GATE = 0x0E"

record IDTEntry =
  e_offset_low :: u16
  e_selector :: u16
  e_ist :: u8
  e_type_attr :: u8
  e_offset_mid :: u16
  e_offset_high :: u32
  e_reserved :: u32

record IDTR =
  idtr_limit :: u16
  idtr_base :: u64

record idt_addrs =
  isr_stub_table :: "u64 list"
  addr_irq_stub_0 :: u64
  addr_irq_stub_1 :: u64
  addr_idt :: u64

record idt_state =
  idt :: "IDTEntry list"
  idtr :: IDTR

definition SIZEOF_IDT :: nat where [const_defs]: "SIZEOF_IDT = 256 * 16"

subsection \<open>Operations\<close>

definition idt_set_gate :: "u8 \<Rightarrow> u64 \<Rightarrow> u8 \<Rightarrow> IDTEntry list \<Rightarrow> IDTEntry list" where
  "idt_set_gate vector handler_addr flags tbl =
     tbl[unat vector :=
       \<lparr>e_offset_low = ucast (handler_addr AND 0xFFFF),
        e_selector = GDT_KERNEL_CODE,
        e_ist = 0,
        e_type_attr = flags,
        e_offset_mid = ucast (drop_bit 16 handler_addr AND 0xFFFF),
        e_offset_high = ucast (drop_bit 32 handler_addr),
        e_reserved = 0\<rparr>]"

definition zero_gate :: IDTEntry where
  "zero_gate = \<lparr>e_offset_low = 0, e_selector = 0, e_ist = 0, e_type_attr = 0, e_offset_mid = 0,
     e_offset_high = 0, e_reserved = 0\<rparr>"

definition EXCEPTION_FLAGS :: u8 where
  [const_defs]: "EXCEPTION_FLAGS = IDT_PRESENT OR IDT_DPL_RING0 OR IDT_INTERRUPT_GATE"

definition idt_init :: "idt_addrs \<Rightarrow> idt_state" where
  "idt_init a =
     (let tbl = replicate 256 zero_gate;
          tbl = fold (\<lambda>i. idt_set_gate (of_nat i) (isr_stub_table a ! i) EXCEPTION_FLAGS) [0..<32] tbl;
          tbl = idt_set_gate 32 (addr_irq_stub_0 a) EXCEPTION_FLAGS tbl;
          tbl = idt_set_gate 33 (addr_irq_stub_1 a) EXCEPTION_FLAGS tbl
      in \<lparr>idt = tbl, idtr = \<lparr>idtr_limit = of_nat (SIZEOF_IDT - 1), idtr_base = addr_idt a\<rparr>\<rparr>)"

subsection \<open>The gate the processor takes\<close>

definition gate_bytes :: "IDTEntry \<Rightarrow> u8 list" where
  "gate_bytes e = le2 (e_offset_low e) @ le2 (e_selector e) @ [e_ist e, e_type_attr e] @
     le2 (e_offset_mid e) @ le4 (e_offset_high e) @ le4 (e_reserved e)"

definition idt_bytes :: "IDTEntry list \<Rightarrow> u8 list" where
  "idt_bytes tbl = concat (map gate_bytes tbl)"

record gate =
  gt_present :: bool
  gt_dpl :: nat
  gt_type :: nat
  gt_selector :: nat
  gt_ist :: nat
  gt_offset :: nat

definition gate_desc :: "u8 list \<Rightarrow> nat \<Rightarrow> gate" where
  "gate_desc bs v = (let b = (\<lambda>i. unat (take 16 (drop (16 * v) bs) ! i)) in
     \<lparr>gt_present = (128 \<le> b 5), gt_dpl = b 5 div 32 mod 4, gt_type = b 5 mod 16,
      gt_selector = b 2 + 256 * b 3, gt_ist = b 4 mod 8,
      gt_offset = b 0 + 256 * b 1 + 65536 * (b 6 + 256 * b 7) +
        4294967296 * (b 8 + 256 * b 9 + 65536 * b 10 + 16777216 * b 11)\<rparr>)"

definition int_gate :: "u64 \<Rightarrow> gate" where
  "int_gate h = \<lparr>gt_present = True, gt_dpl = 0, gt_type = 0xE, gt_selector = 8, gt_ist = 0, gt_offset = unat h\<rparr>"

definition no_gate :: gate where
  "no_gate = \<lparr>gt_present = False, gt_dpl = 0, gt_type = 0, gt_selector = 0, gt_ist = 0, gt_offset = 0\<rparr>"

subsection \<open>Decoding\<close>

definition mk_gate :: "u64 \<Rightarrow> u8 \<Rightarrow> IDTEntry" where
  "mk_gate h flags = \<lparr>e_offset_low = ucast (h AND 0xFFFF), e_selector = GDT_KERNEL_CODE, e_ist = 0,
     e_type_attr = flags, e_offset_mid = ucast (drop_bit 16 h AND 0xFFFF),
     e_offset_high = ucast (drop_bit 32 h), e_reserved = 0\<rparr>"

lemma idt_set_gate_eq: "idt_set_gate v h flags tbl = tbl[unat v := mk_gate h flags]"
  by (simp add: idt_set_gate_def mk_gate_def)

lemma length_gate_bytes [simp]: "length (gate_bytes e) = 16"
  by (simp add: gate_bytes_def le2_def le4_def)

lemma gate_desc_table:
  assumes "v < length tbl"
  shows "gate_desc (idt_bytes tbl) v = gate_desc (gate_bytes (tbl ! v)) 0"
proof -
  let ?pre = "concat (map gate_bytes (take v tbl))"
  have l: "length ?pre = 16 * v" using assms by (simp add: length_concat o_def sum_list_triv)
  have "idt_bytes tbl = ?pre @ gate_bytes (tbl ! v) @ concat (map gate_bytes (drop (Suc v) tbl))"
    unfolding idt_bytes_def by (subst id_take_nth_drop [OF assms]) simp
  then have "take 16 (drop (16 * v) (idt_bytes tbl)) = gate_bytes (tbl ! v)" by (simp flip: l)
  then show ?thesis by (simp add: gate_desc_def)
qed

lemma le2_value: "unat (le2 w ! 0) + 256 * unat (le2 w ! Suc 0) = unat w"
  using bytes_16 [of "unat w"] unsigned_less [of w, where ?'a = nat]
  by (simp add: le2_def unat_ucast8 unat_drop)

lemma le4_value:
  "unat (le4 w ! 0) + 256 * unat (le4 w ! Suc 0) + 65536 * unat (le4 w ! 2) + 16777216 * unat (le4 w ! 3) = unat w"
proof -
  have "unat w div 16777216 mod 256 = unat w div 16777216"
    using unsigned_less [of w, where ?'a = nat] by (simp add: less_mult_imp_div_less)
  with word32_bytes [of w] show ?thesis by (simp add: le4_def unat_ucast8 unat_drop)
qed

lemma gate_bytes_nth:
  "gate_bytes e ! 0 = le2 (e_offset_low e) ! 0" "gate_bytes e ! Suc 0 = le2 (e_offset_low e) ! Suc 0"
  "gate_bytes e ! 2 = le2 (e_selector e) ! 0" "gate_bytes e ! 3 = le2 (e_selector e) ! Suc 0"
  "gate_bytes e ! 4 = e_ist e" "gate_bytes e ! 5 = e_type_attr e"
  "gate_bytes e ! 6 = le2 (e_offset_mid e) ! 0" "gate_bytes e ! 7 = le2 (e_offset_mid e) ! Suc 0"
  "gate_bytes e ! 8 = le4 (e_offset_high e) ! 0" "gate_bytes e ! 9 = le4 (e_offset_high e) ! Suc 0"
  "gate_bytes e ! 10 = le4 (e_offset_high e) ! 2" "gate_bytes e ! 11 = le4 (e_offset_high e) ! 3"
  by (simp_all add: gate_bytes_def le2_def le4_def)

lemma gate_desc_fields:
  "gate_desc (gate_bytes e) 0 =
     \<lparr>gt_present = (128 \<le> unat (e_type_attr e)), gt_dpl = unat (e_type_attr e) div 32 mod 4,
      gt_type = unat (e_type_attr e) mod 16, gt_selector = unat (e_selector e), gt_ist = unat (e_ist e) mod 8,
      gt_offset = unat (e_offset_low e) + 65536 * unat (e_offset_mid e) + 4294967296 * unat (e_offset_high e)\<rparr>"
  using le2_value [of "e_offset_low e"] le2_value [of "e_selector e"] le2_value [of "e_offset_mid e"]
    le4_value [of "e_offset_high e"]
  by (simp add: gate_desc_def Let_def gate_bytes_nth)

lemma offset_parts:
  "unat (ucast (h AND 0xFFFF) :: u16) + 65536 * unat (ucast (drop_bit 16 h AND 0xFFFF) :: u16) +
     4294967296 * unat (ucast (drop_bit 32 h) :: u32) = unat (h :: u64)"
proof -
  have "unat h div 4294967296 mod 4294967296 = unat h div 4294967296"
    using unsigned_less [of h, where ?'a = nat] by (simp add: less_mult_imp_div_less)
  moreover have "unat h mod 65536 + 65536 * (unat h div 65536 mod 65536) = unat h mod 4294967296"
    using mod_mult2_eq [of "unat h" 65536 65536] by simp
  moreover have "unat h = 4294967296 * (unat h div 4294967296) + unat h mod 4294967296" by simp
  ultimately show ?thesis
    by (simp add: unat_ucast16 unat_ucast32 unat_drop unat_low_bits)
qed

lemma gate_decodes: "gate_desc (gate_bytes (mk_gate h EXCEPTION_FLAGS)) 0 = int_gate h"
  unfolding gate_desc_fields using offset_parts [of h] by (simp add: mk_gate_def int_gate_def const_defs)

lemma zero_gate_decodes: "gate_desc (gate_bytes zero_gate) 0 = no_gate"
  unfolding gate_desc_fields by (simp add: zero_gate_def no_gate_def)

subsection \<open>The table\<close>

lemma set_gates_nth:
  assumes "n \<le> length tbl" "n \<le> 256"
  shows "fold (\<lambda>i. idt_set_gate (of_nat i) (h i) f) [0..<n] tbl =
    map (\<lambda>i. mk_gate (h i) f) [0..<n] @ drop n tbl"
  using assms
proof (induction n)
  case (Suc n)
  have "unat (of_nat n :: u8) = n" using Suc.prems by (simp add: unat_of_nat)
  with Suc show ?case
    by (simp add: idt_set_gate_eq list_update_append Cons_nth_drop_Suc [symmetric])
qed simp

definition handler_of :: "idt_addrs \<Rightarrow> nat \<Rightarrow> u64" where
  "handler_of a v = (if v < 32 then isr_stub_table a ! v else if v = 32 then addr_irq_stub_0 a else addr_irq_stub_1 a)"

lemma idt_init_gates:
  "length (idt (idt_init a)) = 256"
  "v < 256 \<Longrightarrow> idt (idt_init a) ! v = (if v < 34 then mk_gate (handler_of a v) EXCEPTION_FLAGS else zero_gate)"
  by (auto simp: idt_init_def Let_def set_gates_nth idt_set_gate_eq nth_list_update nth_append handler_of_def)

text \<open>
  Claim C28. The table that \<open>idt_init\<close> loads dispatches every vector as intended: its limit covers exactly the
  256 gates; vectors 0 to 31 are present ring 0 interrupt gates through the kernel code selector, on the
  current stack, to the stub of their number, 32 and 33 go to the timer and keyboard stubs, and every other
  vector is marked not present, although \<^verbatim>\<open>docs/architecture.md\<close> speaks of 256 interrupt gates of type \<open>0x8E\<close>:
  an interrupt on one of the vectors 34 to 255 is a fault.
\<close>

theorem idt_init_dispatch:
  "let s = idt_init a; bs = idt_bytes (idt s) in
     length bs = unat (idtr_limit (idtr s)) + 1 \<and> idtr_base (idtr s) = addr_idt a \<and>
     length (idt s) = 256 \<and>
     list_all (\<lambda>v. gate_desc bs v = (if v < 32 then int_gate (isr_stub_table a ! v)
       else if v = 32 then int_gate (addr_irq_stub_0 a) else if v = 33 then int_gate (addr_irq_stub_1 a)
       else no_gate)) [0..<256]"
proof -
  let ?s = "idt_init a"
  have "length (idt_bytes (idt ?s)) = 4096"
    using idt_init_gates(1) [of a] by (simp add: idt_bytes_def length_concat o_def sum_list_triv)
  moreover have "unat (idtr_limit (idtr ?s)) = 4095" by (simp add: idt_init_def Let_def const_defs)
  moreover have "gate_desc (idt_bytes (idt ?s)) v = (if v < 32 then int_gate (isr_stub_table a ! v)
       else if v = 32 then int_gate (addr_irq_stub_0 a) else if v = 33 then int_gate (addr_irq_stub_1 a)
       else no_gate)" if "v < 256" for v
    using that idt_init_gates(1) [of a] idt_init_gates(2) [of v a] gate_desc_table [of v "idt ?s"]
    by (simp add: gate_decodes zero_gate_decodes handler_of_def)
  ultimately show ?thesis
    using idt_init_gates(1) [of a] by (simp add: Let_def list_all_iff) (simp add: idt_init_def Let_def)
qed

end
