(* ===== verification/Ports.thy ===== *)
theory Ports
  imports Prelude "HOL-Library.Monad_Syntax"
begin

section \<open>Port I/O and the serial line\<close>

text \<open>
  The drivers talk to devices by \<open>outb\<close> and \<open>inb\<close>.  The world of the port instructions is the
  history of accesses; what a read returns is up to the device, a parameter \<open>dev\<close> that maps the
  history and the port to a byte.  The serial functions of \<open>kernel/kernel_main.cpp\<close> poll the line
  status register until the transmitter is empty; the loop need not end on a broken device, so it is
  a partial function, and it returns on every device that becomes ready after finitely many polls
  (\<open>uart_live\<close>).
\<close>

datatype access = Out u16 u8 | In u16 u8

type_synonym io = "access list"
type_synonym device = "io \<Rightarrow> u16 \<Rightarrow> u8"

definition outb :: "u16 \<Rightarrow> u8 \<Rightarrow> io \<Rightarrow> io" where
  "outb port val w = w @ [Out port val]"

definition inb :: "device \<Rightarrow> u16 \<Rightarrow> io \<Rightarrow> u8 \<times> io" where
  "inb dev port w = (dev w port, w @ [In port (dev w port)])"

subsection \<open>The serial line\<close>

definition init_serial :: "io \<Rightarrow> io" where
  "init_serial w =
     (let w = outb (0x3F8 + 1) 0x00 w;
          w = outb (0x3F8 + 3) 0x80 w;
          w = outb (0x3F8 + 0) 0x03 w;
          w = outb (0x3F8 + 1) 0x00 w;
          w = outb (0x3F8 + 3) 0x03 w;
          w = outb (0x3F8 + 2) 0xC7 w
      in outb (0x3F8 + 4) 0x0B w)"

definition is_transmit_empty :: "device \<Rightarrow> io \<Rightarrow> u8 \<times> io" where
  "is_transmit_empty dev w = (let (v, w) = inb dev (0x3F8 + 5) w in (v AND 0x20, w))"

partial_function (option) wait_transmit :: "device \<Rightarrow> io \<Rightarrow> io option" where
  "wait_transmit dev w =
     (let (v, w) = is_transmit_empty dev w in if v = 0 then wait_transmit dev w else Some w)"

definition write_serial_char :: "device \<Rightarrow> char \<Rightarrow> io \<Rightarrow> io option" where
  "write_serial_char dev c w =
     do {
       w \<leftarrow> wait_transmit dev w;
       Some (outb 0x3F8 (of_char c) w)
     }"

fun print_serial :: "device \<Rightarrow> string \<Rightarrow> io \<Rightarrow> io option" where
  "print_serial dev [] w = Some w"
| "print_serial dev (c # s) w =
     (if c = NUL then Some w
      else do {
        w \<leftarrow> (if c = CHR 0x0A then write_serial_char dev (CHR 0x0D) w else Some w);
        w \<leftarrow> write_serial_char dev c w;
        print_serial dev s w
      })"

subsection \<open>What the line carries\<close>

fun outs :: "u16 \<Rightarrow> io \<Rightarrow> u8 list" where
  "outs p [] = []"
| "outs p (Out q v # w) = (if q = p then v # outs p w else outs p w)"
| "outs p (In q v # w) = outs p w"

lemma outs_append [simp]: "outs p (v @ w) = outs p v @ outs p w"
  by (induction p v rule: outs.induct) auto

text \<open>The bytes of a string on the line: each newline is preceded by a carriage return.\<close>

fun crlf :: "string \<Rightarrow> string" where
  "crlf [] = []"
| "crlf (c # s) = (if c = CHR 0x0A then [CHR 0x0D, c] else [c]) @ crlf s"

definition poll :: "device \<Rightarrow> io \<Rightarrow> io" where
  "poll dev w = snd (inb dev 0x3FD w)"

definition uart_live :: "device \<Rightarrow> bool" where
  "uart_live dev \<longleftrightarrow> (\<forall>w. \<exists>n. dev ((poll dev ^^ n) w) 0x3FD AND 0x20 \<noteq> 0)"

text \<open>
  \<open>sent s w w'\<close>: between \<open>w\<close> and \<open>w'\<close> the bytes of \<open>s\<close> went out, and the serial line was the only device
  touched, by writes of its data register and reads of its status.
\<close>

fun on_serial :: "access \<Rightarrow> bool" where
  "on_serial (Out p v) \<longleftrightarrow> p = 0x3F8"
| "on_serial (In p v) \<longleftrightarrow> p = 0x3FD"

definition sent :: "string \<Rightarrow> io \<Rightarrow> io \<Rightarrow> bool" where
  "sent s w w' \<longleftrightarrow> (\<exists>v. w' = w @ v \<and> list_all on_serial v \<and> outs 0x3F8 v = map of_char (crlf s))"

lemma crlf_append [simp]: "crlf (s @ t) = crlf s @ crlf t"
  by (induction s) auto

lemma outs_on_serial: "list_all on_serial v \<Longrightarrow> p \<noteq> 0x3F8 \<Longrightarrow> outs p v = []"
  by (induction p v rule: outs.induct) auto

lemma sentI: "list_all on_serial v \<Longrightarrow> outs 0x3F8 v = map of_char (crlf s) \<Longrightarrow> sent s w (w @ v)"
  by (auto simp: sent_def)

lemma sent_Nil [simp]: "sent [] w w"
  using sentI [of "[]" "[]" w] by simp

lemma sent_trans [trans]:
  assumes "sent s w w'" "sent t w' w''"
  shows "sent (s @ t) w w''"
proof -
  obtain v where v: "w' = w @ v" "list_all on_serial v" "outs 0x3F8 v = map of_char (crlf s)"
    using assms(1) unfolding sent_def by blast
  obtain u where u: "w'' = w' @ u" "list_all on_serial u" "outs 0x3F8 u = map of_char (crlf t)"
    using assms(2) unfolding sent_def by blast
  show ?thesis unfolding sent_def by (rule exI [of _ "v @ u"]) (use u v in auto)
qed

lemma sent_outs:
  assumes "sent s w w'"
  shows "outs p w' = outs p w @ (if p = 0x3F8 then map of_char (crlf s) else [])"
  using assms outs_on_serial by (auto simp: sent_def)

lemma wait_transmit_returns:
  assumes "dev ((poll dev ^^ n) w) 0x3FD AND 0x20 \<noteq> 0"
  shows "\<exists>w'. wait_transmit dev w = Some w' \<and> sent [] w w'"
  using assms
proof (induction n arbitrary: w)
  case 0
  have "sent [] w (w @ [In 0x3FD (dev w 0x3FD)])" by (rule sentI) auto
  with 0 show ?case by (subst wait_transmit.simps) (simp add: is_transmit_empty_def inb_def)
next
  case (Suc n)
  have s: "sent [] w (poll dev w)" unfolding poll_def inb_def snd_conv by (rule sentI) auto
  show ?case
  proof (cases "dev w 0x3FD AND 0x20 = 0")
    case True
    have "dev ((poll dev ^^ n) (poll dev w)) 0x3FD AND 0x20 \<noteq> 0"
      using Suc.prems by (simp add: funpow_swap1)
    then obtain w' where "wait_transmit dev (poll dev w) = Some w'" "sent [] (poll dev w) w'"
      using Suc.IH by blast
    with True show ?thesis using sent_trans [OF s]
      by (subst wait_transmit.simps) (auto simp: is_transmit_empty_def inb_def poll_def)
  next
    case False
    with s show ?thesis by (subst wait_transmit.simps) (simp add: is_transmit_empty_def inb_def poll_def)
  qed
qed

text \<open>One character as it is sent by \<open>write_serial_char\<close>, without the translation of newlines.\<close>

lemma write_serial_char_returns:
  assumes "uart_live dev"
  shows "\<exists>v. write_serial_char dev c w = Some (w @ v) \<and> list_all on_serial v \<and> outs 0x3F8 v = [of_char c]"
proof -
  obtain n where "dev ((poll dev ^^ n) w) 0x3FD AND 0x20 \<noteq> 0" using assms by (auto simp: uart_live_def)
  then obtain v where "wait_transmit dev w = Some (w @ v)" "list_all on_serial v" "outs 0x3F8 v = []"
    using wait_transmit_returns [of dev n w] by (auto simp: sent_def)
  then show ?thesis
    by (intro exI [of _ "v @ [Out 0x3F8 (of_char c)]"]) (simp add: write_serial_char_def outb_def)
qed

lemma print_serial_sent:
  assumes "uart_live dev"
  shows "\<exists>w'. print_serial dev s w = Some w' \<and> sent (cstr s) w w'"
proof (induction s arbitrary: w)
  case (Cons c s)
  show ?case
  proof (cases "c = NUL")
    case False
    obtain v1 where v1: "(if c = CHR 0x0A then write_serial_char dev (CHR 0x0D) w else Some w) = Some (w @ v1)"
      "list_all on_serial v1" "outs 0x3F8 v1 = (if c = CHR 0x0A then [of_char (CHR 0x0D)] else [])"
      using write_serial_char_returns [OF assms, of "CHR 0x0D" w] by (cases "c = CHR 0x0A") auto
    obtain v2 where v2: "write_serial_char dev c (w @ v1) = Some ((w @ v1) @ v2)"
      "list_all on_serial v2" "outs 0x3F8 v2 = [of_char c]"
      using write_serial_char_returns [OF assms, of c "w @ v1"] by blast
    obtain w3 where w3: "print_serial dev s ((w @ v1) @ v2) = Some w3" "sent (cstr s) ((w @ v1) @ v2) w3"
      using Cons.IH by blast
    have "sent [c] w (w @ v1 @ v2)" by (rule sentI) (use v1 v2 in auto)
    then have "sent (cstr (c # s)) w w3" using sent_trans [of "[c]" w "w @ v1 @ v2" "cstr s" w3] w3(2) False by simp
    moreover have "print_serial dev (c # s) w = Some w3"
      unfolding print_serial.simps using False v1(1) v2(1) w3(1) by simp
    ultimately show ?thesis by blast
  qed simp
qed simp

lemma print_serial_returns:
  assumes "uart_live dev"
  shows "\<exists>w'. print_serial dev s w = Some w' \<and>
    (\<forall>p. outs p w' = outs p w @ (if p = 0x3F8 then map of_char (crlf (cstr s)) else []))"
  using print_serial_sent [OF assms, of s w] sent_outs by blast

subsection \<open>Properties\<close>

definition ready_dev :: device where
  "ready_dev w p = (if p = 0x3FD then 0x20 else 0xFF)"

lemma uart_live_ready: "uart_live ready_dev"
  unfolding uart_live_def by (intro allI exI [of _ 0]) (simp add: ready_dev_def)

text \<open>
  On a line whose transmitter becomes ready again after finitely many polls, printing
  returns, and it sends exactly the characters of the string up to its terminator, each newline
  preceded by a carriage return; no other port is written.
\<close>

lemma print_serial_sends:
  assumes "uart_live dev"
  shows "\<exists>w'. print_serial dev s w = Some w' \<and>
    outs 0x3F8 w' = outs 0x3F8 w @ map of_char (crlf (cstr s)) \<and> (\<forall>p. p \<noteq> 0x3F8 \<longrightarrow> outs p w' = outs p w)"
  using print_serial_returns [OF assms, of s w] by auto

end
