(* ===== verification/Memory.thy ===== *)
theory Memory
  imports Prelude
begin

text \<open>
  The byte-addressed memory the kernel's pointers reach: a total function from 64-bit addresses
  to bytes.  Words are stored little-endian, as x86-64 does, and address arithmetic wraps.
  \<open>span a n\<close> is the set of the \<open>n\<close> addresses from \<open>a\<close> on; a store changes exactly the
  span it writes, and a load depends only on the span it reads.
\<close>

type_synonym memory = "u64 \<Rightarrow> u8"

section \<open>Loads and stores\<close>

definition store_bytes :: "memory \<Rightarrow> u64 \<Rightarrow> u8 list \<Rightarrow> memory" where
  "store_bytes m a bs = (\<lambda>x. if unat (x - a) < length bs then bs ! unat (x - a) else m x)"

definition load_bytes :: "memory \<Rightarrow> u64 \<Rightarrow> nat \<Rightarrow> u8 list" where
  "load_bytes m a n = map (\<lambda>i. m (a + of_nat i)) [0..<n]"

primrec word_of_bytes :: "u8 list \<Rightarrow> 'a::len word" where
  "word_of_bytes [] = 0"
| "word_of_bytes (b # bs) = ucast b OR push_bit 8 (word_of_bytes bs)"

definition bytes_of_word :: "nat \<Rightarrow> 'a::len word \<Rightarrow> u8 list" where
  "bytes_of_word n w = map (\<lambda>i. ucast (drop_bit (8 * i) w)) [0..<n]"

definition load32 :: "memory \<Rightarrow> u64 \<Rightarrow> u32" where
  "load32 m a = word_of_bytes (load_bytes m a 4)"

definition store32 :: "memory \<Rightarrow> u64 \<Rightarrow> u32 \<Rightarrow> memory" where
  "store32 m a v = store_bytes m a (bytes_of_word 4 v)"

definition load64 :: "memory \<Rightarrow> u64 \<Rightarrow> u64" where
  "load64 m a = word_of_bytes (load_bytes m a 8)"

definition store64 :: "memory \<Rightarrow> u64 \<Rightarrow> u64 \<Rightarrow> memory" where
  "store64 m a v = store_bytes m a (bytes_of_word 8 v)"

definition load_bool :: "memory \<Rightarrow> u64 \<Rightarrow> bool" where
  "load_bool m a \<longleftrightarrow> m a \<noteq> 0"

definition store_bool :: "memory \<Rightarrow> u64 \<Rightarrow> bool \<Rightarrow> memory" where
  "store_bool m a v = store_bytes m a [if v then 1 else 0]"

text \<open>The byte loop that clears a buffer (\<open>kzalloc\<close> and \<open>zero_mem\<close> have it).\<close>

definition zero_bytes :: "u64 \<Rightarrow> nat \<Rightarrow> memory \<Rightarrow> memory" where
  "zero_bytes p n = fold (\<lambda>i m. m(p + of_nat i := 0)) [0..<n]"

section \<open>Encoding\<close>

lemma bit_word_of_bytes:
  "bit (word_of_bytes bs :: 'a::len word) n \<longleftrightarrow>
     n < LENGTH('a) \<and> n < 8 * length bs \<and> bit (bs ! (n div 8)) (n mod 8)"
proof (induction bs arbitrary: n)
  case (Cons b bs)
  have hi: "bit b n \<Longrightarrow> n < 8" using bit_imp_le_length [of b n] by simp
  show ?case
  proof (cases "n < 8")
    case True
    then show ?thesis by (auto simp: bit_simps Cons.IH dest: hi)
  next
    case False
    then have "n div 8 = Suc ((n - 8) div 8)" "n mod 8 = (n - 8) mod 8"
      by (auto simp: le_div_geq le_mod_geq)
    then show ?thesis using False
      by (auto simp: bit_simps Cons.IH dest: hi)
  qed
qed simp

lemma word_of_bytes_of_word:
  assumes "LENGTH('a) = 8 * n"
  shows "word_of_bytes (bytes_of_word n (w :: 'a::len word)) = w"
proof (rule bit_word_eqI)
  fix k assume k: "k < LENGTH('a)"
  then have "k div 8 < n" using assms by linarith
  then show "bit (word_of_bytes (bytes_of_word n w) :: 'a word) k = bit w k"
    using k assms by (simp add: bit_word_of_bytes bytes_of_word_def bit_simps)
qed

lemma length_bytes_of_word [simp]: "length (bytes_of_word n w) = n"
  by (simp add: bytes_of_word_def)

section \<open>Spans\<close>

definition span :: "u64 \<Rightarrow> nat \<Rightarrow> u64 set" where
  "span a n = {x. unat (x - a) < n}"

lemma in_span_iff:
  assumes "unat a + n \<le> 2 ^ 64"
  shows "x \<in> span a n \<longleftrightarrow> unat a \<le> unat x \<and> unat x < unat a + n"
proof (cases "a \<le> x")
  case True
  then show ?thesis by (auto simp: span_def unat_sub word_le_nat_alt)
next
  case False
  have "unat (x - a) = unat x + 2 ^ 64 - unat a"
    using False unat_lt_exp64 [of a] unat_lt_exp64 [of x]
    by (simp add: unat_word_ariths word_le_nat_alt unat_sub_if')
  with False assms show ?thesis by (auto simp: span_def word_le_nat_alt)
qed

lemma span_disjoint_le:
  assumes "unat a + n \<le> unat b" "unat b + k \<le> 2 ^ 64"
  shows "span a n \<inter> span b k = {}" "span b k \<inter> span a n = {}"
  using assms by (auto simp: in_span_iff)

lemma span_offset:
  assumes "i + k \<le> n" "n \<le> 2 ^ 64"
  shows "span (a + of_nat i) k \<subseteq> span a n"
proof
  fix x assume x: "x \<in> span (a + of_nat i) k"
  have e: "x - a = (x - (a + of_nat i)) + of_nat i" by simp
  have "unat (x - a) = unat (x - (a + of_nat i)) + i"
    unfolding e by (rule unat_plus_nat) (use x assms in \<open>simp add: span_def\<close>)
  with x assms show "x \<in> span a n" by (simp add: span_def)
qed

lemma span_mono: "k \<le> n \<Longrightarrow> span a k \<subseteq> span a n"
  by (auto simp: span_def)

lemma span_offsets_disjoint:
  assumes "i + n \<le> j" "j + k \<le> 2 ^ 64"
  shows "span (a + of_nat i) n \<inter> span (a + of_nat j) k = {}"
proof -
  have *: "unat (x - a) = unat (x - (a + of_nat l)) + l"
    if "x \<in> span (a + of_nat l) r" "l + r \<le> 2 ^ 64" for x l r
  proof -
    have e: "x - a = (x - (a + of_nat l)) + of_nat l" by simp
    show ?thesis unfolding e by (rule unat_plus_nat) (use that in \<open>simp add: span_def\<close>)
  qed
  show ?thesis
  proof (intro equals0I)
    fix x assume "x \<in> span (a + of_nat i) n \<inter> span (a + of_nat j) k"
    then have "unat (x - a) = unat (x - (a + of_nat i)) + i" "unat (x - (a + of_nat i)) < n"
      "unat (x - a) = unat (x - (a + of_nat j)) + j"
      using *[of x i n] *[of x j k] assms by (auto simp: span_def)
    with assms show False by linarith
  qed
qed

lemma self_in_span [simp]: "0 < n \<Longrightarrow> a \<in> span a n"
  by (simp add: span_def)

section \<open>Loads after stores\<close>

lemma store_bytes_other: "x \<notin> span a (length bs) \<Longrightarrow> store_bytes m a bs x = m x"
  by (simp add: store_bytes_def span_def)

lemma load_bytes_store_same:
  "length bs \<le> 2 ^ 64 \<Longrightarrow> load_bytes (store_bytes m a bs) a (length bs) = bs"
  by (rule nth_equalityI) (auto simp: load_bytes_def store_bytes_def unat_of_nat_lt)

lemma load_bytes_cong:
  assumes "n \<le> 2 ^ 64" "\<And>x. x \<in> span a n \<Longrightarrow> m' x = m x"
  shows "load_bytes m' a n = load_bytes m a n"
  using assms by (auto simp: load_bytes_def span_def unat_of_nat_lt)

lemma load_same [simp]:
  "load32 (store32 m a v) a = v" "load64 (store64 m a w) a = w" "load_bool (store_bool m a b) a = b"
proof -
  show "load32 (store32 m a v) a = v"
    using load_bytes_store_same [of "bytes_of_word 4 v" m a]
    by (simp add: load32_def store32_def word_of_bytes_of_word)
  show "load64 (store64 m a w) a = w"
    using load_bytes_store_same [of "bytes_of_word 8 w" m a]
    by (simp add: load64_def store64_def word_of_bytes_of_word)
  show "load_bool (store_bool m a b) a = b"
    by (simp add: load_bool_def store_bool_def store_bytes_def)
qed

lemma store_other:
  "x \<notin> span a 4 \<Longrightarrow> store32 m a v x = m x"
  "x \<notin> span a 8 \<Longrightarrow> store64 m a w x = m x"
  "x \<notin> span a 1 \<Longrightarrow> store_bool m a b x = m x"
  by (simp_all add: store32_def store64_def store_bool_def store_bytes_other)

lemma load_cong:
  "(\<And>x. x \<in> span a 4 \<Longrightarrow> m' x = m x) \<Longrightarrow> load32 m' a = load32 m a"
  "(\<And>x. x \<in> span a 8 \<Longrightarrow> m' x = m x) \<Longrightarrow> load64 m' a = load64 m a"
  "(\<And>x. x \<in> span a 1 \<Longrightarrow> m' x = m x) \<Longrightarrow> load_bool m' a = load_bool m a"
proof -
  show "load32 m' a = load32 m a" if "\<And>x. x \<in> span a 4 \<Longrightarrow> m' x = m x"
    using load_bytes_cong [OF _ that, of 4] by (simp add: load32_def)
  show "load64 m' a = load64 m a" if "\<And>x. x \<in> span a 8 \<Longrightarrow> m' x = m x"
    using load_bytes_cong [OF _ that, of 8] by (simp add: load64_def)
  show "load_bool m' a = load_bool m a" if "\<And>x. x \<in> span a 1 \<Longrightarrow> m' x = m x"
    using that [of a] by (simp add: load_bool_def)
qed

lemma load_store_disjoint:
  "span q 4 \<inter> span p 4 = {} \<Longrightarrow> load32 (store32 m p v) q = load32 m q"
  "span q 4 \<inter> span p 8 = {} \<Longrightarrow> load32 (store64 m p w) q = load32 m q"
  "span q 4 \<inter> span p 1 = {} \<Longrightarrow> load32 (store_bool m p b) q = load32 m q"
  "span q 8 \<inter> span p 4 = {} \<Longrightarrow> load64 (store32 m p v) q = load64 m q"
  "span q 8 \<inter> span p 8 = {} \<Longrightarrow> load64 (store64 m p w) q = load64 m q"
  "span q 8 \<inter> span p 1 = {} \<Longrightarrow> load64 (store_bool m p b) q = load64 m q"
  "span q 1 \<inter> span p 4 = {} \<Longrightarrow> load_bool (store32 m p v) q = load_bool m q"
  "span q 1 \<inter> span p 8 = {} \<Longrightarrow> load_bool (store64 m p w) q = load_bool m q"
  by (auto intro!: load_cong store_other)

text \<open>Two fields of one object, by their offsets.\<close>

lemma span_fields_disjoint:
  "numeral i + n \<le> (numeral j :: nat) \<or> numeral j + k \<le> (numeral i :: nat) \<Longrightarrow>
     numeral i + n \<le> 2 ^ 64 \<Longrightarrow> numeral j + k \<le> 2 ^ 64 \<Longrightarrow>
     span (a + numeral i) n \<inter> span (a + numeral j) k = {}"
  "n \<le> (numeral j :: nat) \<Longrightarrow> numeral j + k \<le> 2 ^ 64 \<Longrightarrow> span a n \<inter> span (a + numeral j) k = {}"
  "k \<le> (numeral i :: nat) \<Longrightarrow> numeral i + n \<le> 2 ^ 64 \<Longrightarrow> span (a + numeral i) n \<inter> span a k = {}"
  using span_offsets_disjoint [of "numeral i" n "numeral j" k a]
    span_offsets_disjoint [of "numeral j" k "numeral i" n a]
    span_offsets_disjoint [of 0 n "numeral j" k a] span_offsets_disjoint [of 0 k "numeral i" n a]
  by (auto simp: Int_commute)

lemma zero_bytes_eq:
  assumes "n \<le> 2 ^ 64"
  shows "zero_bytes p n m = (\<lambda>x. if x \<in> span p n then 0 else m x)"
  using assms
proof (induction n)
  case (Suc n)
  have "x \<in> span p (Suc n) \<longleftrightarrow> x \<in> span p n \<or> x = p + of_nat n" for x
  proof -
    have "unat (x - p) = n \<longleftrightarrow> x = p + of_nat n"
    proof
      assume "unat (x - p) = n"
      then have "x - p = of_nat n" using of_nat_unat_id [of "x - p"] by simp
      then show "x = p + of_nat n" by (simp add: algebra_simps)
    next
      assume "x = p + of_nat n"
      then show "unat (x - p) = n" using Suc.prems unat_of_nat_lt [of n, where 'a = 64] by simp
    qed
    then show ?thesis by (auto simp: span_def less_Suc_eq)
  qed
  with Suc show ?case by (auto simp: zero_bytes_def fun_upd_def)
qed (simp add: zero_bytes_def span_def)

end
