(* ===== verification/Cpu.thy ===== *)
theory Cpu
  imports Memory
begin

section \<open>The processor, the context switch and the interrupt stubs\<close>

text \<open>
  The part of the x86-64 machine that the assembly files use: the general registers, \<open>rsp\<close>, \<open>rip\<close>,
  \<open>rflags\<close> and the code and stack selectors, with \<open>push\<close>, \<open>pop\<close> and \<open>ret\<close> on the byte memory.
  \<open>context_switch\<close> is \<open>sched/context_switch.asm\<close>; \<open>irq_entry\<close>, \<open>save_regs\<close>, \<open>restore_regs\<close> and
  \<open>iretq\<close> are the frame of the interrupt stubs of \<open>arch/x86_64/isr_stubs.asm\<close> around a call into the
  kernel.  The lemmas show what a context switch saves and resumes, and that a stub whose body
  leaves the frame alone resumes the interrupted code with every register as it was.
\<close>

datatype reg = RAX | RBX | RCX | RDX | RSI | RDI | RBP | R8 | R9 | R10 | R11 | R12 | R13 | R14 | R15

record cpu =
  regs :: "reg \<Rightarrow> u64"
  rsp :: u64
  rip :: u64
  rflags :: u64
  cs :: u64
  ss :: u64

type_synonym mstate = "cpu \<times> memory"

definition push :: "u64 \<Rightarrow> mstate \<Rightarrow> mstate" where
  "push v st = (let (c, m) = st in (c\<lparr>rsp := rsp c - 8\<rparr>, store64 m (rsp c - 8) v))"

definition pop :: "mstate \<Rightarrow> u64 \<times> mstate" where
  "pop st = (let (c, m) = st in (load64 m (rsp c), c\<lparr>rsp := rsp c + 8\<rparr>, m))"

definition push_reg :: "reg \<Rightarrow> mstate \<Rightarrow> mstate" where
  "push_reg r st = push (regs (fst st) r) st"

definition pop_reg :: "reg \<Rightarrow> mstate \<Rightarrow> mstate" where
  "pop_reg r st = (let (v, c, m) = pop st in (c\<lparr>regs := (regs c)(r := v)\<rparr>, m))"

definition ret :: "mstate \<Rightarrow> mstate" where
  "ret st = (let (v, c, m) = pop st in (c\<lparr>rip := v\<rparr>, m))"

text \<open>
  A call of a function that returns: the call pushes the address \<open>back\<close> behind it, the function returns to it.
  What the function does to the stack below is its own affair and has no part here.
\<close>

definition call_return :: "u64 \<Rightarrow> mstate \<Rightarrow> mstate" where
  "call_return back st = ret (push back st)"

text \<open>
  The switch returns the stack pointer that the code stores through \<open>rdi\<close>; the caller puts it into
  the task table, which is static storage outside the stacks.
\<close>

definition callee_saved :: "reg list" where
  "callee_saved = [RBX, RBP, R12, R13, R14, R15]"

definition context_switch :: "u64 \<Rightarrow> mstate \<Rightarrow> u64 \<times> mstate" where
  "context_switch new_rsp st =
     (let (c, m) = fold push_reg callee_saved st;
          old_rsp = rsp c;
          c = c\<lparr>rsp := new_rsp\<rparr>;
          st = fold pop_reg [R15, R14, R13, R12, RBP, RBX] (c, m)
      in (old_rsp, ret st))"

text \<open>
  An interrupt in 64-bit mode through an interrupt gate: the stack pointer is aligned to 16, the
  processor pushes \<open>ss\<close>, \<open>rsp\<close>, \<open>rflags\<close>, \<open>cs\<close> and \<open>rip\<close>, and clears the interrupt flag (bit 9).
\<close>

definition interrupts_enabled :: "cpu \<Rightarrow> bool" where
  "interrupts_enabled c \<longleftrightarrow> bit (rflags c) 9"

definition irq_entry :: "u64 \<Rightarrow> mstate \<Rightarrow> mstate" where
  "irq_entry handler st =
     (let (c, m) = st;
          st = push (ss c) (c\<lparr>rsp := rsp c AND NOT 15\<rparr>, m);
          st = push (rsp c) st;
          st = push (rflags c) st;
          st = push (cs c) st;
          (c', m) = push (rip c) st
      in (c'\<lparr>rip := handler, rflags := unset_bit 9 (rflags c)\<rparr>, m))"

definition iretq :: "mstate \<Rightarrow> mstate" where
  "iretq st =
     (let (v_rip, st) = pop st; (v_cs, st) = pop st; (v_fl, st) = pop st;
          (v_rsp, st) = pop st; (v_ss, c, m) = pop st
      in (c\<lparr>rip := v_rip, cs := v_cs, rflags := v_fl, rsp := v_rsp, ss := v_ss\<rparr>, m))"

definition stub_order :: "reg list" where
  "stub_order = [RAX, RBX, RCX, RDX, RSI, RDI, RBP, R8, R9, R10, R11, R12, R13, R14, R15]"

definition save_regs :: "mstate \<Rightarrow> mstate" where
  "save_regs = fold push_reg stub_order"

definition restore_regs :: "mstate \<Rightarrow> mstate" where
  "restore_regs =
     fold pop_reg [R15, R14, R13, R12, R11, R10, R9, R8, RBP, RDI, RSI, RDX, RCX, RBX, RAX]"

text \<open>\<open>body\<close> is what the stub calls between saving and restoring the registers.\<close>

definition irq_stub :: "(mstate \<Rightarrow> mstate) \<Rightarrow> mstate \<Rightarrow> mstate" where
  "irq_stub body st = iretq (restore_regs (body (save_regs st)))"

subsection \<open>Pushes and pops\<close>

lemma slots_disjoint:
  assumes "i < n" "8 * Suc n \<le> 2 ^ 64"
  shows "span (a - of_nat (8 * Suc i)) 8 \<inter> span (a - of_nat (8 * Suc n)) 8 = {}"
proof -
  let ?b = "a - of_nat (8 * Suc n)"
  have e: "?b + of_nat (8 * (n - i)) = a - of_nat (8 * Suc i)"
    using assms(1) by (simp add: of_nat_diff algebra_simps)
  have e0: "?b + of_nat 0 = ?b" by simp
  have "span (?b + of_nat 0) 8 \<inter> span (?b + of_nat (8 * (n - i))) 8 = {}"
    by (rule span_offsets_disjoint) (use assms in auto)
  then show ?thesis unfolding e e0 by blast
qed

lemma slot_in_span:
  assumes "i < n" "8 * n \<le> 2 ^ 64"
  shows "span (a - of_nat (8 * Suc i)) 8 \<subseteq> span (a - of_nat (8 * n)) (8 * n)"
proof -
  have e: "a - of_nat (8 * n) + of_nat (8 * (n - Suc i)) = a - of_nat (8 * Suc i)"
    using assms(1) by (simp add: of_nat_diff algebra_simps)
  have "span (a - of_nat (8 * n) + of_nat (8 * (n - Suc i))) 8 \<subseteq> span (a - of_nat (8 * n)) (8 * n)"
    by (rule span_offset) (use assms in auto)
  then show ?thesis unfolding e .
qed

lemma push_list_spec:
  assumes "8 * length vs \<le> 2 ^ 64"
  shows "\<exists>m'. fold push vs (c, m) = (c\<lparr>rsp := rsp c - of_nat (8 * length vs)\<rparr>, m') \<and>
    (\<forall>i < length vs. load64 m' (rsp c - of_nat (8 * Suc i)) = vs ! i) \<and>
    (\<forall>x. x \<notin> span (rsp c - of_nat (8 * length vs)) (8 * length vs) \<longrightarrow> m' x = m x)"
  using assms
proof (induction vs rule: rev_induct)
  case (snoc v vs)
  let ?n = "length vs" and ?a = "rsp c - of_nat (8 * Suc (length vs))"
  obtain m' where m': "fold push vs (c, m) = (c\<lparr>rsp := rsp c - of_nat (8 * ?n)\<rparr>, m')"
    "\<And>i. i < ?n \<Longrightarrow> load64 m' (rsp c - of_nat (8 * Suc i)) = vs ! i"
    "\<And>x. x \<notin> span (rsp c - of_nat (8 * ?n)) (8 * ?n) \<Longrightarrow> m' x = m x"
    using snoc by fastforce
  have a: "rsp c - of_nat (8 * ?n) - 8 = ?a" by (simp add: algebra_simps)
  have "fold push (vs @ [v]) (c, m) = (c\<lparr>rsp := ?a\<rparr>, store64 m' ?a v)"
    using m'(1) by (simp add: push_def algebra_simps)
  moreover have "load64 (store64 m' ?a v) (rsp c - of_nat (8 * Suc i)) = (vs @ [v]) ! i"
    if "i < Suc ?n" for i
  proof (cases "i = ?n")
    case True
    then show ?thesis by (simp del: of_nat_Suc of_nat_mult)
  next
    case False
    with that have i: "i < ?n" by simp
    have "load64 (store64 m' ?a v) (rsp c - of_nat (8 * Suc i)) = load64 m' (rsp c - of_nat (8 * Suc i))"
      by (rule load_store_disjoint(5), rule slots_disjoint [OF i]) (use snoc.prems in simp)
    also have "\<dots> = vs ! i" by (rule m'(2) [OF i])
    finally show ?thesis using i by (simp only: nth_append if_True)
  qed
  moreover have "store64 m' ?a v x = m x" if x: "x \<notin> span ?a (8 * Suc ?n)" for x
  proof -
    have "span ?a 8 \<subseteq> span ?a (8 * Suc ?n)" by (rule span_mono) simp
    moreover have "span (rsp c - of_nat (8 * ?n)) (8 * ?n) \<subseteq> span ?a (8 * Suc ?n)"
      using span_offset [of 8 "8 * ?n" "8 * Suc ?n" ?a] snoc.prems by (simp add: algebra_simps)
    ultimately have n: "x \<notin> span ?a 8" "x \<notin> span (rsp c - of_nat (8 * ?n)) (8 * ?n)" using x by blast+
    then show ?thesis using store_other(2) [OF n(1), of m' v] m'(3) [OF n(2)] by (simp only:)
  qed
  ultimately show ?case by simp
qed simp

definition load_words :: "memory \<Rightarrow> u64 \<Rightarrow> nat \<Rightarrow> u64 list" where
  "load_words m a n = map (\<lambda>i. load64 m (a + of_nat (8 * i))) [0..<n]"

lemma push_list_words:
  fixes c c' :: cpu
  assumes "fold push vs (c, m) = (c', m')" "8 * length vs \<le> 2 ^ 64"
  shows "rsp c' = rsp c - of_nat (8 * length vs)" "regs c' = regs c"
    "k \<le> length vs \<Longrightarrow> load_words m' (rsp c') k = take k (rev vs)"
proof -
  obtain m1 where m1: "fold push vs (c, m) = (c\<lparr>rsp := rsp c - of_nat (8 * length vs)\<rparr>, m1)"
    "\<forall>i < length vs. load64 m1 (rsp c - of_nat (8 * Suc i)) = vs ! i"
    using push_list_spec [OF assms(2)] by blast
  have c': "c' = c\<lparr>rsp := rsp c - of_nat (8 * length vs)\<rparr>" "m' = m1" using assms(1) m1(1) by simp_all
  then show "rsp c' = rsp c - of_nat (8 * length vs)" "regs c' = regs c" by simp_all
  have "load64 m' (rsp c' + of_nat (8 * i)) = rev vs ! i" if i: "i < length vs" for i
  proof -
    obtain j where l: "length vs = Suc (i + j)" using less_imp_Suc_add [OF i] by blast
    then have "rsp c' + of_nat (8 * i) = rsp c - of_nat (8 * Suc j)" by (simp add: c' algebra_simps)
    moreover have "load64 m1 (rsp c - of_nat (8 * Suc j)) = vs ! j" using m1(2) l by simp
    moreover have "rev vs ! i = vs ! j" using that l by (simp add: rev_nth)
    ultimately show ?thesis using c'(2) by (simp only:)
  qed
  then show "k \<le> length vs \<Longrightarrow> load_words m' (rsp c') k = take k (rev vs)"
    by (simp add: load_words_def list_eq_iff_nth_eq)
qed

lemma push_regs_values: "fold push_reg rs (c, m) = fold push (map (regs c) rs) (c, m)"
proof (induction rs arbitrary: c m)
  case (Cons r rs)
  show ?case
    using Cons.IH [of "c\<lparr>rsp := rsp c - 8\<rparr>" "store64 m (rsp c - 8) (regs c r)"] by (simp add: push_reg_def push_def)
qed simp

lemma push_regs_spec:
  assumes "8 * length rs \<le> 2 ^ 64"
  shows "\<exists>m'. fold push_reg rs (c, m) = (c\<lparr>rsp := rsp c - of_nat (8 * length rs)\<rparr>, m') \<and>
    (\<forall>i < length rs. load64 m' (rsp c - of_nat (8 * Suc i)) = regs c (rs ! i)) \<and>
    (\<forall>x. x \<notin> span (rsp c - of_nat (8 * length rs)) (8 * length rs) \<longrightarrow> m' x = m x)"
  using push_list_spec [of "map (regs c) rs" c m] assms by (simp add: push_regs_values)

lemma pop_regs_spec:
  assumes "distinct rs"
  shows "\<exists>f. fold pop_reg rs (c, m) = (c\<lparr>regs := f, rsp := rsp c + of_nat (8 * length rs)\<rparr>, m) \<and>
    (\<forall>i < length rs. f (rs ! i) = load64 m (rsp c + of_nat (8 * i))) \<and>
    (\<forall>r. r \<notin> set rs \<longrightarrow> f r = regs c r)"
  using assms
proof (induction rs rule: rev_induct)
  case (snoc r rs)
  then obtain f where f: "fold pop_reg rs (c, m) = (c\<lparr>regs := f, rsp := rsp c + of_nat (8 * length rs)\<rparr>, m)"
    "\<And>i. i < length rs \<Longrightarrow> f (rs ! i) = load64 m (rsp c + of_nat (8 * i))"
    "\<And>r. r \<notin> set rs \<Longrightarrow> f r = regs c r" by fastforce
  let ?f = "f(r := load64 m (rsp c + of_nat (8 * length rs)))"
  have "fold pop_reg (rs @ [r]) (c, m) = (c\<lparr>regs := ?f, rsp := rsp c + of_nat (8 * Suc (length rs))\<rparr>, m)"
    using f(1) by (simp add: pop_reg_def pop_def algebra_simps)
  moreover have "?f ((rs @ [r]) ! i) = load64 m (rsp c + of_nat (8 * i))" if "i < Suc (length rs)" for i
    using that f(2) [of i] snoc.prems by (cases "i = length rs") (auto simp: nth_append)
  moreover have "?f q = regs c q" if "q \<notin> set (rs @ [r])" for q using that f(3) by simp
  ultimately show ?case unfolding length_append_singleton by blast
qed (auto intro!: exI [of _ "regs c"])

subsection \<open>Contexts\<close>

text \<open>
  What a switch is meant to carry over: the callee-saved registers in the order they are popped,
  the address where execution goes on and the stack pointer it goes on with.  A suspended context
  lies in a seven-word frame on its stack; a running one is in the processor.
\<close>

record ctx =
  ctx_regs :: "u64 list"
  ctx_rip :: u64
  ctx_rsp :: u64

definition pop_order :: "reg list" where
  "pop_order = [R15, R14, R13, R12, RBP, RBX]"

lemma length_pop_order [simp]: "length pop_order = 6"
  by (simp add: pop_order_def)

definition frame_ctx :: "memory \<Rightarrow> u64 \<Rightarrow> ctx" where
  "frame_ctx m sp = \<lparr>ctx_regs = map (\<lambda>i. load64 m (sp + of_nat (8 * i))) [0..<6],
     ctx_rip = load64 m (sp + 48), ctx_rsp = sp + 56\<rparr>"

definition caller_ctx :: "mstate \<Rightarrow> ctx" where
  "caller_ctx st = \<lparr>ctx_regs = map (regs (fst st)) pop_order,
     ctx_rip = load64 (snd st) (rsp (fst st)), ctx_rsp = rsp (fst st) + 8\<rparr>"

definition running_ctx :: "cpu \<Rightarrow> ctx" where
  "running_ctx c = \<lparr>ctx_regs = map (regs c) pop_order, ctx_rip = rip c, ctx_rsp = rsp c\<rparr>"

lemma frame_ctx_cong:
  assumes "\<And>x. x \<in> span sp 56 \<Longrightarrow> m' x = m x"
  shows "frame_ctx m' sp = frame_ctx m sp"
proof -
  have "load64 m' (sp + of_nat k) = load64 m (sp + of_nat k)" if "k + 8 \<le> 56" for k
  proof (rule load_cong(2), rule assms)
    fix x assume "x \<in> span (sp + of_nat k) 8"
    then show "x \<in> span sp 56" using span_offset [of k 8 56 sp] that by auto
  qed
  note w = this
  have "load64 m' (sp + of_nat (8 * i)) = load64 m (sp + of_nat (8 * i))" if "i < 6" for i
    by (rule w) (use that in simp)
  with w [of 48] show ?thesis unfolding frame_ctx_def by (auto simp del: of_nat_mult)
qed

lemma context_switch_spec:
  fixes c :: cpu
  obtains c' m' where "context_switch new (c, m) = (rsp c - 48, c', m')"
    "frame_ctx m' (rsp c - 48) = caller_ctx (c, m)" "running_ctx c' = frame_ctx m' new"
    "rflags c' = rflags c" "\<And>x. x \<notin> span (rsp c - 48) 48 \<Longrightarrow> m' x = m x"
proof -
  obtain m' where m': "fold push_reg callee_saved (c, m) = (c\<lparr>rsp := rsp c - 48\<rparr>, m')"
    "\<And>i. i < 6 \<Longrightarrow> load64 m' (rsp c - of_nat (8 * Suc i)) = regs c (callee_saved ! i)"
    "\<And>x. x \<notin> span (rsp c - 48) 48 \<Longrightarrow> m' x = m x"
    using push_regs_spec [of callee_saved c m] by (force simp: callee_saved_def)
  let ?c = "c\<lparr>rsp := new\<rparr>"
  obtain f where f: "fold pop_reg pop_order (?c, m') = (?c\<lparr>regs := f, rsp := new + 48\<rparr>, m')"
    "\<And>i. i < 6 \<Longrightarrow> f (pop_order ! i) = load64 m' (new + of_nat (8 * i))"
    using pop_regs_spec [of pop_order ?c m'] by (force simp: pop_order_def)
  let ?c' = "c\<lparr>regs := f, rsp := new + 56, rip := load64 m' (new + 48)\<rparr>"
  have "context_switch new (c, m) = (rsp c - 48, ?c', m')"
    using m'(1) f(1) by (simp add: context_switch_def Let_def ret_def pop_def pop_order_def)
  moreover have "frame_ctx m' (rsp c - 48) = caller_ctx (c, m)"
  proof -
    have "load64 m' (rsp c) = load64 m (rsp c)"
    proof (rule load_cong(2), rule m'(3))
      fix x assume "x \<in> span (rsp c) 8"
      then have "x \<in> span (rsp c - 48 + of_nat 48) 8" by simp
      then show "x \<notin> span (rsp c - 48) 48"
        using span_offsets_disjoint [of 0 48 48 8 "rsp c - 48"] by auto
    qed
    moreover have "load64 m' (rsp c - 48 + of_nat (8 * i)) = regs c (pop_order ! i)" if "i < 6" for i
    proof -
      have "i \<in> set [0..<6]" using that by simp
      then have "i = 0 \<or> i = 1 \<or> i = 2 \<or> i = 3 \<or> i = 4 \<or> i = 5" by (simp add: upt_rec) arith
      then show ?thesis
        using m'(2) [of 0] m'(2) [of 1] m'(2) [of 2] m'(2) [of 3] m'(2) [of 4] m'(2) [of 5]
        by (auto simp: callee_saved_def pop_order_def)
    qed
    ultimately show ?thesis
      by (simp add: frame_ctx_def caller_ctx_def list_eq_iff_nth_eq)
  qed
  moreover have "running_ctx ?c' = frame_ctx m' new"
    using f(2) by (simp add: running_ctx_def frame_ctx_def list_eq_iff_nth_eq)
  ultimately show thesis using that m'(3) by simp
qed

subsection \<open>Interrupt stubs\<close>

text \<open>
  Between \<open>irq_entry\<close> and \<open>iretq\<close> the whole state of the interrupted code lies in a frame of twenty
  words: five pushed by the processor and the fifteen registers.  \<open>irq_saved m b c\<close> says that the
  frame at \<open>b\<close> holds the state \<open>c\<close>; the end of a stub turns such a frame back into \<open>c\<close>.
\<close>

definition irq_frame_base :: "cpu \<Rightarrow> u64" where
  "irq_frame_base c = (rsp c AND NOT 15) - 160"

definition irq_words :: "cpu \<Rightarrow> u64 list" where
  "irq_words c = [ss c, rsp c, rflags c, cs c, rip c] @ map (regs c) stub_order"

definition irq_saved :: "memory \<Rightarrow> u64 \<Rightarrow> cpu \<Rightarrow> bool" where
  "irq_saved m b c \<longleftrightarrow> load_words m b 20 = rev (irq_words c)"

lemma irq_entry_pushes:
  fixes c :: cpu and m :: memory
  shows "irq_entry h (c, m) =
    (let (c', m') = fold push [ss c, rsp c, rflags c, cs c, rip c] (c\<lparr>rsp := rsp c AND NOT 15\<rparr>, m)
     in (c'\<lparr>rip := h, rflags := unset_bit 9 (rflags c)\<rparr>, m'))"
  by (simp add: irq_entry_def push_def Let_def)

lemma fold_push_cpu:
  fixes c c' :: cpu
  assumes "rsp c' = rsp c"
  shows "snd (fold push vs (c', m)) = snd (fold push vs (c, m)) \<and>
    fst (fold push vs (c', m)) = c'\<lparr>rsp := rsp (fst (fold push vs (c, m)))\<rparr>"
  using assms
proof (induction vs arbitrary: c c' m)
  case (Cons v vs)
  show ?case
    using Cons.IH [of "c'\<lparr>rsp := rsp c' - 8\<rparr>" "c\<lparr>rsp := rsp c - 8\<rparr>" "store64 m (rsp c - 8) v"] Cons.prems
    by (simp add: push_def)
qed simp

lemma load_words_cong:
  assumes "\<And>x. x \<in> span b (8 * n) \<Longrightarrow> m' x = m x" "8 * n \<le> 2 ^ 64"
  shows "load_words m' b n = load_words m b n"
proof -
  have "load64 m' (b + of_nat (8 * i)) = load64 m (b + of_nat (8 * i))" if "i < n" for i
    by (rule load_cong(2), rule assms(1)) (use span_offset [of "8 * i" 8 "8 * n" b] that assms(2) in auto)
  then show ?thesis by (auto simp: load_words_def)
qed

lemma irq_saved_cong: "irq_saved m b c \<Longrightarrow> \<forall>x \<in> span b 160. m' x = m x \<Longrightarrow> irq_saved m' b c"
  using load_words_cong [of b 20 m' m] by (simp add: irq_saved_def)

lemma irq_entry_saves:
  fixes c :: cpu and m :: memory
  obtains c2 m2 where "save_regs (irq_entry h (c, m)) = (c2, m2)" "rsp c2 = irq_frame_base c"
    "irq_saved m2 (rsp c2) c" "rip c2 = h" "\<not> interrupts_enabled c2"
    "\<And>x. x \<notin> span (irq_frame_base c) 160 \<Longrightarrow> m2 x = m x"
proof -
  define a where "a = c\<lparr>rsp := rsp c AND NOT 15\<rparr>"
  let ?five = "[ss c, rsp c, rflags c, cs c, rip c]" and ?rs = "map (regs c) stub_order"
  obtain cA mA where A: "fold push ?five (a, m) = (cA, mA)" by fastforce
  have rA: "regs cA = regs c" using push_list_words(2) [OF A] by (simp add: a_def)
  define c1 where "c1 = cA\<lparr>rip := h, rflags := unset_bit 9 (rflags c)\<rparr>"
  have e: "irq_entry h (c, m) = (c1, mA)" using A unfolding irq_entry_pushes a_def c1_def by simp
  obtain c2 m2 where C: "fold push ?rs (c1, mA) = (c2, m2)" by fastforce
  have r1: "regs c1 = regs c" using rA by (simp add: c1_def)
  have s: "save_regs (irq_entry h (c, m)) = (c2, m2)"
    using C unfolding e save_regs_def push_regs_values r1 .
  have F: "fold push (irq_words c) (a, m) = fold push ?rs (cA, mA)"
    unfolding irq_words_def using A by (simp only: fold_append o_apply)
  have g: "m2 = snd (fold push (irq_words c) (a, m))" "rsp c2 = rsp (fst (fold push (irq_words c) (a, m)))"
      "c2 = c1\<lparr>rsp := rsp c2\<rparr>"
    using fold_push_cpu [of c1 cA ?rs mA] C unfolding F by (simp_all add: c1_def)
  have n: "length (irq_words c) = 20" by (simp add: irq_words_def stub_order_def)
  obtain cF mF where f: "fold push (irq_words c) (a, m) = (cF, mF)" by fastforce
  note W = push_list_words [OF f]
  have b: "rsp c2 = irq_frame_base c" using g(2) W(1) n f by (simp add: irq_frame_base_def a_def)
  have sv: "irq_saved m2 (rsp c2) c" using W(3) [of 20] g(1,2) n f by (simp add: irq_saved_def)
  have fl: "rip c2 = h" "\<not> interrupts_enabled c2"
    using arg_cong [OF g(3), of rip] arg_cong [OF g(3), of rflags]
    by (simp_all add: c1_def interrupts_enabled_def bit_simps)
  have "m2 x = m x" if "x \<notin> span (irq_frame_base c) 160" for x
    using push_list_spec [of "irq_words c" a m] that g(1) n f by (auto simp: irq_frame_base_def a_def)
  with s b sv fl show thesis using that by blast
qed

lemma load_words_nth: "i < n \<Longrightarrow> load_words m b n ! i = load64 m (b + of_nat (8 * i))"
  by (simp add: load_words_def)

lemma length_words [simp]: "length (load_words m b n) = n" "length stub_order = 15"
  by (simp_all add: load_words_def stub_order_def)

lemma load_words_append: "load_words m b (n + k) = load_words m b n @ load_words m (b + of_nat (8 * n)) k"
  by (rule nth_equalityI) (auto simp: load_words_def nth_append algebra_simps)

text \<open>The two halves of leaving a stub: the pops of the fifteen registers and the return frame.\<close>

lemma restore_regs_saved:
  assumes "load_words m b 15 = rev (map (regs d) stub_order)" "rsp c = b"
  shows "restore_regs (c, m) = (c\<lparr>regs := regs d, rsp := b + 120\<rparr>, m)"
proof -
  let ?ro = "[R15, R14, R13, R12, R11, R10, R9, R8, RBP, RDI, RSI, RDX, RCX, RBX, RAX]"
  obtain f where f: "fold pop_reg ?ro (c, m) = (c\<lparr>regs := f, rsp := b + 120\<rparr>, m)"
    "\<And>i. i < 15 \<Longrightarrow> f (?ro ! i) = load64 m (b + of_nat (8 * i))"
    using pop_regs_spec [of ?ro c m] assms(2) by auto
  have fi: "f (?ro ! i) = rev (map (regs d) stub_order) ! i" if "i < 15" for i
    using f(2) [OF that] load_words_nth [OF that, of m b] assms(1) by simp
  have "f r = regs d r" for r
    using fi [of 0] fi [of 1] fi [of 2] fi [of 3] fi [of 4] fi [of 5] fi [of 6] fi [of 7] fi [of 8]
      fi [of 9] fi [of 10] fi [of 11] fi [of 12] fi [of 13] fi [of 14]
    by (cases r) (simp_all add: stub_order_def)
  then have "f = regs d" by (rule ext)
  then show ?thesis using f(1) by (simp add: restore_regs_def)
qed

lemma iretq_saved:
  assumes "load_words m b 5 = [rip d, cs d, rflags d, rsp d, ss d]" "rsp c = b"
  shows "iretq (c, m) = (d\<lparr>regs := regs c\<rparr>, m)"
proof -
  have w: "load64 m (b + of_nat (8 * i)) = [rip d, cs d, rflags d, rsp d, ss d] ! i" if "i < 5" for i
    using load_words_nth [OF that, of m b] assms(1) by simp
  show ?thesis
    using w [of 0] w [of 1] w [of 2] w [of 3] w [of 4] assms(2)
    by (auto simp: iretq_def pop_def Let_def add.assoc intro!: cpu.equality)
qed

lemma irq_resume:
  assumes saved: "irq_saved m b d" and sp: "rsp c = b"
  shows "iretq (restore_regs (c, m)) = (d, m)"
proof -
  have "load_words m b 15 @ load_words m (b + 120) 5 =
      rev (map (regs d) stub_order) @ [rip d, cs d, rflags d, rsp d, ss d]"
    using saved load_words_append [of m b 15 5] by (simp add: irq_saved_def irq_words_def)
  then have w: "load_words m b 15 = rev (map (regs d) stub_order)"
    "load_words m (b + 120) 5 = [rip d, cs d, rflags d, rsp d, ss d]"
    by (auto simp: append_eq_append_conv)
  show ?thesis
    unfolding restore_regs_saved [OF w(1) sp] by (subst iretq_saved [OF w(2)]) simp_all
qed

text \<open>A stub whose body brings the stack pointer back and leaves the frame alone is invisible.\<close>

lemma irq_stub_transparent:
  assumes save: "save_regs (irq_entry h (c, m)) = (c2, m2)"
    and body: "rsp (fst (body (c2, m2))) = rsp c2" "\<And>x. x \<in> span (rsp c2) 160 \<Longrightarrow> snd (body (c2, m2)) x = m2 x"
  shows "irq_stub body (irq_entry h (c, m)) = (c, snd (body (c2, m2)))"
proof -
  obtain c3 m3 where b: "body (c2, m2) = (c3, m3)" by fastforce
  have "irq_saved m2 (rsp c2) c" using save by (metis irq_entry_saves prod.inject)
  then have "irq_saved m3 (rsp c2) c" using body(2) b irq_saved_cong [of m2 "rsp c2" c m3] by auto
  then have "iretq (restore_regs (c3, m3)) = (c, m3)" by (rule irq_resume) (use body(1) b in simp)
  then show ?thesis using b save by (simp add: irq_stub_def)
qed

end
