(* ===== verification/CString.thy ===== *)
theory CString
  imports Prelude
begin

text \<open>
  The string helpers that the sources define locally, since the kernel has no C library: the bounded
  copy (\<open>copy_str\<close> of the scheduler and \<open>strncpy_local\<close> of the file system, the same loop) and the
  comparison (\<open>streql\<close> of the file system and of the shell).  A character array is the list
  of its cells; the copy keeps the cells after the terminator.
\<close>

function copy_loop :: "nat \<Rightarrow> string \<Rightarrow> nat \<Rightarrow> string \<Rightarrow> string" where
  "copy_loop mx src i dst =
     (if i < mx - 1 \<and> deref (drop i src) \<noteq> NUL
      then copy_loop mx src (Suc i) (dst[i := deref (drop i src)])
      else dst[i := NUL])"
  by pat_completeness auto
termination by (relation "measure (\<lambda>(mx, src, i, dst). mx - i)") auto

declare copy_loop.simps [simp del]

definition copy_str :: "string \<Rightarrow> string \<Rightarrow> nat \<Rightarrow> string" where
  "copy_str dst src mx = copy_loop mx src 0 dst"

definition strncpy_local :: "string \<Rightarrow> string \<Rightarrow> nat \<Rightarrow> string" where
  "strncpy_local dst src n = copy_loop n src 0 dst"

lemma length_tl_less: "deref s \<noteq> NUL \<Longrightarrow> length (tl s) < length s"
  by (cases s) auto

function streql :: "string \<Rightarrow> string \<Rightarrow> bool" where
  "streql a b =
     (if deref a \<noteq> NUL \<and> deref b \<noteq> NUL
      then (if deref a \<noteq> deref b then False else streql (tl a) (tl b))
      else deref a = deref b)"
  by pat_completeness auto
termination by (relation "measure (\<lambda>(a, b). length a)") (use length_tl_less in force)+

declare streql.simps [simp del]

lemma cstr_drop_Cons:
  "deref (drop i s) \<noteq> NUL \<Longrightarrow> cstr (drop i s) = deref (drop i s) # cstr (drop (Suc i) s)"
  by (cases "drop i s") (auto simp: drop_Suc drop_tl)

lemma cstr_drop_Nil: "deref (drop i s) = NUL \<Longrightarrow> cstr (drop i s) = []"
  by (cases "drop i s") auto

lemma copy_loop_spec:
  assumes "length dst = mx" "i < mx" "NUL \<notin> set (take i dst)"
  shows "length (copy_loop mx src i dst) = mx \<and>
    cstr (copy_loop mx src i dst) = take i dst @ take (mx - 1 - i) (cstr (drop i src))"
  using assms
proof (induction mx src i dst rule: copy_loop.induct)
  case (1 mx src i dst)
  show ?case
  proof (cases "i < mx - 1 \<and> deref (drop i src) \<noteq> NUL")
    case True
    let ?d = "dst[i := deref (drop i src)]"
    have t: "take (Suc i) ?d = take i dst @ [deref (drop i src)]"
      using "1.prems" by (simp add: take_Suc_conv_app_nth)
    have "NUL \<notin> set (take (Suc i) ?d)" unfolding t using True "1.prems"(3) by auto
    then have "length (copy_loop mx src (Suc i) ?d) = mx \<and>
        cstr (copy_loop mx src (Suc i) ?d) = take (Suc i) ?d @ take (mx - 1 - Suc i) (cstr (drop (Suc i) src))"
      using "1.IH" [OF True] "1.prems" True by auto
    moreover have "take (mx - 1 - i) (cstr (drop i src))
        = deref (drop i src) # take (mx - 1 - Suc i) (cstr (drop (Suc i) src))"
      using True by (auto simp: cstr_drop_Cons take_Cons')
    ultimately show ?thesis using True t by (simp add: copy_loop.simps [of mx src i dst])
  next
    case False
    have d: "dst[i := NUL] = take i dst @ NUL # drop (Suc i) dst"
      using "1.prems" by (simp add: upd_conv_take_nth_drop)
    have "take (mx - 1 - i) (cstr (drop i src)) = []"
      using False "1.prems" by (cases "i < mx - 1") (auto simp: cstr_drop_Nil)
    moreover have "copy_loop mx src i dst = dst[i := NUL]"
      by (simp only: copy_loop.simps [of mx src i dst] if_not_P [OF False])
    ultimately show ?thesis using d "1.prems" by (simp add: cstr_append_NUL)
  qed
qed

lemma copy_str_spec:
  "length dst = mx \<Longrightarrow> 0 < mx \<Longrightarrow>
     length (copy_str dst src mx) = mx \<and> cstr (copy_str dst src mx) = take (mx - 1) (cstr src)"
  using copy_loop_spec [of dst mx 0 src] by (simp add: copy_str_def)

lemma strncpy_local_spec:
  "length dst = n \<Longrightarrow> 0 < n \<Longrightarrow>
     length (strncpy_local dst src n) = n \<and> cstr (strncpy_local dst src n) = take (n - 1) (cstr src)"
  using copy_loop_spec [of dst n 0 src] by (simp add: strncpy_local_def)

lemma streql_iff: "streql a b \<longleftrightarrow> cstr a = cstr b"
proof (induction a b rule: streql.induct)
  case (1 a b)
  show ?case
    by (subst streql.simps, cases a; cases b) (use "1.IH" in auto)
qed

end
