(* ===== verification/Framebuffer.thy ===== *)
theory Framebuffer
  imports Font CString "HOL-Library.Monad_Syntax"
begin

section \<open>The framebuffer console\<close>

text \<open>
  \<open>kernel/drivers/framebuffer.cpp\<close>.  The pixel memory behind \<open>s_fb\<close> is a function from the 32-bit
  index that the code computes, \<open>y * s_pitch_p + x\<close> with wrap-around, to the 32-bit pixel; the other
  static variables are fields of the same record.  The loops over rows and columns are folds over
  the index ranges.  \<open>fb_putchar\<close> may loop for ever on a tab, so it and everything that prints
  returns an option.
\<close>

subsection \<open>Data\<close>

definition CHAR_W :: u32 where [const_defs]: "CHAR_W = 8"
definition CHAR_H :: u32 where [const_defs]: "CHAR_H = 10"
definition COLOR_WHITE :: u32 where [const_defs]: "COLOR_WHITE = 0x00FFFFFF"
definition COLOR_RED :: u32 where [const_defs]: "COLOR_RED = 0x00CC2200"
definition COLOR_GREEN :: u32 where [const_defs]: "COLOR_GREEN = 0x0022CC44"
definition COLOR_YELLOW :: u32 where [const_defs]: "COLOR_YELLOW = 0x00CCCC00"
definition COLOR_CYAN :: u32 where [const_defs]: "COLOR_CYAN = 0x0000CCCC"
definition COLOR_DARK :: u32 where [const_defs]: "COLOR_DARK = 0x00111122"

record fbcon =
  fb_pix :: "u32 \<Rightarrow> u32"
  s_width :: u32
  s_height :: u32
  s_pitch_p :: u32
  s_cols :: u32
  s_rows :: u32
  s_cur_col :: u32
  s_cur_row :: u32
  s_fg :: u32
  s_bg :: u32

definition fb_boot :: fbcon where
  "fb_boot = \<lparr>fb_pix = (\<lambda>_. 0), s_width = 0, s_height = 0, s_pitch_p = 0, s_cols = 0, s_rows = 0,
     s_cur_col = 0, s_cur_row = 0, s_fg = COLOR_WHITE, s_bg = COLOR_DARK\<rparr>"

definition pix_set :: "u32 \<Rightarrow> u32 \<Rightarrow> u32 \<Rightarrow> fbcon \<Rightarrow> fbcon" where
  "pix_set y x v f = f\<lparr>fb_pix := (fb_pix f)(y * s_pitch_p f + x := v)\<rparr>"

definition pix_get :: "u32 \<Rightarrow> u32 \<Rightarrow> fbcon \<Rightarrow> u32" where
  "pix_get y x f = fb_pix f (y * s_pitch_p f + x)"

subsection \<open>Operations\<close>

definition glyph_of :: "char \<Rightarrow> u8 list" where
  "glyph_of c =
     (let idx = (of_char c :: u8);
          idx = (if idx < 0x20 \<or> 0x7F < idx then 0x7F else idx)
      in font8x8 ! unat (idx - 0x20))"

definition draw_glyph :: "u32 \<Rightarrow> u32 \<Rightarrow> char \<Rightarrow> u32 \<Rightarrow> u32 \<Rightarrow> fbcon \<Rightarrow> fbcon" where
  "draw_glyph px py c fg bg f =
     fold (\<lambda>row f.
         let bits = (if row < 8 then glyph_of c ! row else 0) in
         fold (\<lambda>col f.
             let pixel = (if bits AND drop_bit col 0x80 \<noteq> 0 then fg else bg);
                 y = py + of_nat row;
                 x = px + of_nat col
             in if x < s_width f \<and> y < s_height f then pix_set y x pixel f else f)
           [0..<unat CHAR_W] f)
       [0..<unat CHAR_H] f"

definition scroll_up :: "fbcon \<Rightarrow> fbcon" where
  "scroll_up f =
     (let scroll_px = CHAR_H;
          f = fold (\<lambda>y f. fold (\<lambda>x f.
                pix_set (of_nat y) (of_nat x) (pix_get (of_nat y + scroll_px) (of_nat x) f) f)
                [0..<unat (s_width f)] f)
              [0..<unat (s_height f - scroll_px)] f
      in fold (\<lambda>y f. fold (\<lambda>x f. pix_set (of_nat y) (of_nat x) (s_bg f) f)
             [0..<unat (s_width f)] f)
           [unat (s_height f - scroll_px)..<unat (s_height f)] f)"

definition fb_clear :: "fbcon \<Rightarrow> fbcon" where
  "fb_clear f =
     (let f = fold (\<lambda>y f. fold (\<lambda>x f. pix_set (of_nat y) (of_nat x) (s_bg f) f)
                [0..<unat (s_width f)] f)
              [0..<unat (s_height f)] f
      in f\<lparr>s_cur_col := 0, s_cur_row := 0\<rparr>)"

definition fb_init :: "u32 \<Rightarrow> u32 \<Rightarrow> u32 \<Rightarrow> fbcon \<Rightarrow> fbcon" where
  "fb_init width height pitch f =
     fb_clear (f\<lparr>s_width := width, s_height := height, s_pitch_p := pitch div 4,
       s_cols := width div CHAR_W, s_rows := height div CHAR_H\<rparr>)"

definition fb_set_color :: "u32 \<Rightarrow> u32 \<Rightarrow> fbcon \<Rightarrow> fbcon" where
  "fb_set_color fg bg f = f\<lparr>s_fg := fg, s_bg := bg\<rparr>"

definition next_row :: "fbcon \<Rightarrow> fbcon" where
  "next_row f =
     (let f = f\<lparr>s_cur_col := 0, s_cur_row := s_cur_row f + 1\<rparr> in
      if s_rows f \<le> s_cur_row f
      then let f = scroll_up f in f\<lparr>s_cur_row := s_rows f - 1\<rparr>
      else f)"

definition put_glyph :: "char \<Rightarrow> fbcon \<Rightarrow> fbcon" where
  "put_glyph c f =
     (let f = draw_glyph (s_cur_col f * CHAR_W) (s_cur_row f * CHAR_H) c (s_fg f) (s_bg f) f;
          f = f\<lparr>s_cur_col := s_cur_col f + 1\<rparr>
      in if s_cols f \<le> s_cur_col f then next_row f else f)"

partial_function (option) tab_loop :: "u32 \<Rightarrow> fbcon \<Rightarrow> fbcon option" where
  "tab_loop next_tab f =
     (if s_cur_col f < next_tab then tab_loop next_tab (put_glyph (CHR '' '') f) else Some f)"

definition fb_putchar :: "char \<Rightarrow> fbcon \<Rightarrow> fbcon option" where
  "fb_putchar c f =
     (if c = CHR 0x0D then Some (f\<lparr>s_cur_col := 0\<rparr>)
      else if c = CHR 0x08
      then let f = (if 0 < s_cur_col f then f\<lparr>s_cur_col := s_cur_col f - 1\<rparr> else f)
           in Some (draw_glyph (s_cur_col f * CHAR_W) (s_cur_row f * CHAR_H) (CHR '' '') (s_fg f) (s_bg f) f)
      else if c = CHR 0x09 then tab_loop ((s_cur_col f + 4) AND NOT 3) f
      else if c = CHR 0x0A then Some (next_row f)
      else Some (put_glyph c f))"

fun fb_print :: "string \<Rightarrow> fbcon \<Rightarrow> fbcon option" where
  "fb_print [] f = Some f"
| "fb_print (c # s) f = (if c = NUL then Some f else do { f \<leftarrow> fb_putchar c f; fb_print s f })"

definition hex_digit :: "u64 \<Rightarrow> char" where
  "hex_digit v = ''0123456789ABCDEF'' ! unat (v AND 0xF)"

text \<open>The digit buffers of the two number printers.\<close>

primrec hex_fill :: "nat \<Rightarrow> u64 \<Rightarrow> string \<Rightarrow> string" where
  "hex_fill 0 v buf = buf"
| "hex_fill (Suc i) v buf = hex_fill i (drop_bit 4 v) (buf[i := hex_digit v])"

definition print_u64_hex :: "u64 \<Rightarrow> fbcon \<Rightarrow> fbcon option" where
  "print_u64_hex v f =
     do { f \<leftarrow> fb_print ''0x'' f; fb_print (hex_fill 16 v (replicate 17 NUL)) f }"

function dec_digits :: "u64 \<Rightarrow> string \<Rightarrow> string" where
  "dec_digits v buf =
     (if v = 0 then buf else dec_digits (v div 10) (buf @ [char_of (48 + unat (v mod 10))]))"
  by pat_completeness auto
termination
proof (relation "measure (\<lambda>(v, buf). unat v)")
  fix v :: u64 assume "v \<noteq> 0"
  then have "0 < unat v" by (simp add: unat_gt_0)
  then show "((v div 10, buf @ [char_of (48 + unat (v mod 10))]), (v, buf)) \<in> measure (\<lambda>(v, buf). unat v)" for buf
    by (simp add: unat_div)
qed simp

declare dec_digits.simps [simp del]

function swap_loop :: "nat \<Rightarrow> nat \<Rightarrow> string \<Rightarrow> string" where
  "swap_loop j k buf =
     (if j < k then swap_loop (Suc j) (k - 1) (buf[j := buf ! k, k := buf ! j]) else buf)"
  by pat_completeness auto
termination by (relation "measure (\<lambda>(j, k, buf). k - j)") auto

declare swap_loop.simps [simp del]

definition print_u64_dec :: "u64 \<Rightarrow> fbcon \<Rightarrow> fbcon option" where
  "print_u64_dec v f =
     (if v = 0 then fb_putchar (CHR ''0'') f
      else let buf = dec_digits v []; i = length buf in fb_print (swap_loop 0 (i - 1) buf) f)"

definition fb_print_hex :: "string \<Rightarrow> u64 \<Rightarrow> fbcon \<Rightarrow> fbcon option" where
  "fb_print_hex prefix val f =
     do { f \<leftarrow> fb_print prefix f; f \<leftarrow> print_u64_hex val f; fb_putchar (CHR 0x0A) f }"

definition fb_print_dec :: "string \<Rightarrow> u64 \<Rightarrow> fbcon \<Rightarrow> fbcon option" where
  "fb_print_dec prefix val f =
     do { f \<leftarrow> fb_print prefix f; f \<leftarrow> print_u64_dec val f; fb_putchar (CHR 0x0A) f }"

definition fb_cursor_row :: "fbcon \<Rightarrow> u32" where
  "fb_cursor_row f = s_cur_row f"

definition fb_cursor_col :: "fbcon \<Rightarrow> u32" where
  "fb_cursor_col f = s_cur_col f"

end
