(* ===== verification/Fb_Draw.thy ===== *)
theory Fb_Draw
  imports Framebuffer
begin

section \<open>Pixels on the screen\<close>

text \<open>
  On a sane geometry (the pitch covers the width and the index of every visible pixel fits in 32
  bits) distinct visible pixels have distinct indices.  The lemmas compute the screen after each
  drawing loop: what a row of writes paints, filling, the in-place copy of \<open>scroll_up\<close>, a glyph in its
  cell; nothing outside the visible pixels is ever written.
\<close>

abbreviation fw :: "fbcon \<Rightarrow> nat" where "fw f \<equiv> unat (s_width f)"
abbreviation fh :: "fbcon \<Rightarrow> nat" where "fh f \<equiv> unat (s_height f)"
abbreviation fp :: "fbcon \<Rightarrow> nat" where "fp f \<equiv> unat (s_pitch_p f)"

definition fb_geom :: "fbcon \<Rightarrow> bool" where
  "fb_geom f \<longleftrightarrow> 8 \<le> fw f \<and> 10 \<le> fh f \<and> fw f \<le> fp f \<and> fh f * fp f \<le> 2 ^ 32 \<and>
     s_cols f = s_width f div CHAR_W \<and> s_rows f = s_height f div CHAR_H"

definition pidx :: "fbcon \<Rightarrow> nat \<Rightarrow> nat \<Rightarrow> u32" where
  "pidx f x y = of_nat y * s_pitch_p f + of_nat x"

definition screen :: "fbcon \<Rightarrow> nat \<Rightarrow> nat \<Rightarrow> u32" where
  "screen f x y = fb_pix f (pidx f x y)"

definition vis :: "fbcon \<Rightarrow> u32 set" where
  "vis f = {pidx f x y | x y. x < fw f \<and> y < fh f}"

lemma of_nat_less_word: "n < unat w \<Longrightarrow> of_nat n < (w :: 'a::len word)"
  unfolding word_less_nat_alt unat_of_nat by (rule le_less_trans [OF mod_less_eq_dividend])

text \<open>Same console up to visible pixels.\<close>

definition like :: "fbcon \<Rightarrow> fbcon \<Rightarrow> bool" where
  "like f g \<longleftrightarrow> g = f\<lparr>fb_pix := fb_pix g\<rparr> \<and> (\<forall>i. i \<notin> vis f \<longrightarrow> fb_pix g i = fb_pix f i)"

lemma unat_pidx:
  assumes "fb_geom f" "x < fw f" "y < fh f"
  shows "unat (pidx f x y) = y * fp f + x"
proof -
  have "y * fp f + x < Suc y * fp f" using assms by (simp add: fb_geom_def)
  also have "\<dots> \<le> fh f * fp f" using assms(3) by (intro mult_le_mono1) simp
  also have "\<dots> \<le> 2 ^ 32" using assms(1) by (simp add: fb_geom_def)
  finally have lt: "y * fp f + x < 2 ^ 32" .
  have "pidx f x y = of_nat (y * fp f + x)" by (simp add: pidx_def)
  then show ?thesis using unat_of_nat_lt [of "y * fp f + x", where 'a = 32] lt by simp
qed

lemma pidx_inj:
  assumes "fb_geom f" "x < fw f" "y < fh f" "x' < fw f" "y' < fh f"
  shows "pidx f x y = pidx f x' y' \<longleftrightarrow> x = x' \<and> y = y'"
proof
  assume "pidx f x y = pidx f x' y'"
  then have e: "y * fp f + x = y' * fp f + x'"
    using unat_pidx [OF assms(1-3)] unat_pidx [OF assms(1,4,5)] by simp
  have p: "x < fp f" "x' < fp f" using assms by (auto simp: fb_geom_def)
  have "(y * fp f + x) div fp f = y" "(y' * fp f + x') div fp f = y'" using p by simp_all
  with e have "y = y'" by simp
  with e show "x = x' \<and> y = y'" by simp
qed simp

lemma like_refl [simp]: "like f f"
  by (simp add: like_def)

lemma like_fields:
  assumes "like f g"
  shows "s_width g = s_width f" "s_height g = s_height f" "s_pitch_p g = s_pitch_p f" "s_cols g = s_cols f"
    "s_rows g = s_rows f" "s_cur_col g = s_cur_col f" "s_cur_row g = s_cur_row f" "s_fg g = s_fg f" "s_bg g = s_bg f"
proof -
  have "g = f\<lparr>fb_pix := fb_pix g\<rparr>" using assms by (simp add: like_def)
  then obtain p where p: "g = f\<lparr>fb_pix := p\<rparr>" by blast
  show "s_width g = s_width f" "s_height g = s_height f" "s_pitch_p g = s_pitch_p f" "s_cols g = s_cols f"
    "s_rows g = s_rows f" "s_cur_col g = s_cur_col f" "s_cur_row g = s_cur_row f" "s_fg g = s_fg f" "s_bg g = s_bg f"
    by (simp_all add: p)
qed

lemma like_pidx: "like f g \<Longrightarrow> pidx g x y = pidx f x y"
  by (simp add: pidx_def like_fields)

lemma like_geom: "like f g \<Longrightarrow> fb_geom g = fb_geom f"
  by (simp add: fb_geom_def like_fields)

lemma like_vis: "like f g \<Longrightarrow> vis g = vis f"
  by (simp add: vis_def like_fields like_pidx)

lemma like_trans: "like f g \<Longrightarrow> like g h \<Longrightarrow> like f h"
proof -
  assume a: "like f g" "like g h"
  obtain p where p: "g = f\<lparr>fb_pix := p\<rparr>" using a(1) unfolding like_def by blast
  have "h = g\<lparr>fb_pix := fb_pix h\<rparr>" using a(2) by (simp add: like_def)
  then have "h = f\<lparr>fb_pix := fb_pix h\<rparr>" unfolding p by simp
  then show ?thesis using a like_vis [OF a(1)] by (simp add: like_def)
qed

lemma pix_set_spec:
  assumes "fb_geom f" "x < fw f" "y < fh f"
  shows "like f (pix_set (of_nat y) (of_nat x) v f)"
    "x' < fw f \<Longrightarrow> y' < fh f \<Longrightarrow>
       screen (pix_set (of_nat y) (of_nat x) v f) x' y' = (if x' = x \<and> y' = y then v else screen f x' y')"
proof -
  have i: "pix_set (of_nat y) (of_nat x) v f = f\<lparr>fb_pix := (fb_pix f)(pidx f x y := v)\<rparr>"
    by (simp add: pix_set_def pidx_def)
  show l: "like f (pix_set (of_nat y) (of_nat x) v f)" using assms unfolding i by (auto simp: like_def vis_def)
  show "screen (pix_set (of_nat y) (of_nat x) v f) x' y' = (if x' = x \<and> y' = y then v else screen f x' y')"
    if "x' < fw f" "y' < fh f"
    using pidx_inj [OF assms(1) that assms(2,3)] like_pidx [OF l] unfolding screen_def by (simp add: i)
qed

text \<open>A row of writes; the value written may depend on the console, but not on the row itself.\<close>

lemma paint_row:
  assumes geom: "fb_geom f" and y: "y < fh f" and "x0 + n \<le> fw f"
    and v: "\<And>g i. i < n \<Longrightarrow> like f g \<Longrightarrow> (\<forall>x' y'. x' < fw f \<longrightarrow> y' < fh f \<longrightarrow> y' \<noteq> y \<longrightarrow> screen g x' y' = screen f x' y') \<Longrightarrow>
      op i g = pix_set (of_nat y) (of_nat (x0 + i)) (val i) g"
  defines "g \<equiv> fold op [0..<n] f"
  shows "like f g"
    "x' < fw f \<Longrightarrow> y' < fh f \<Longrightarrow> screen g x' y' = (if y' = y \<and> x0 \<le> x' \<and> x' < x0 + n then val (x' - x0) else screen f x' y')"
proof -
  have "k \<le> n \<Longrightarrow> like f (fold op [0..<k] f) \<and> (\<forall>x' < fw f. \<forall>y' < fh f. screen (fold op [0..<k] f) x' y' =
      (if y' = y \<and> x0 \<le> x' \<and> x' < x0 + k then val (x' - x0) else screen f x' y'))" for k
  proof (induction k)
    case (Suc k)
    let ?g = "fold op [0..<k] f"
    have l: "like f ?g" and sc: "\<And>x' y'. x' < fw f \<Longrightarrow> y' < fh f \<Longrightarrow> screen ?g x' y' =
      (if y' = y \<and> x0 \<le> x' \<and> x' < x0 + k then val (x' - x0) else screen f x' y')" using Suc by auto
    have op: "op k ?g = pix_set (of_nat y) (of_nat (x0 + k)) (val k) ?g"
      by (rule v) (use Suc.prems l sc in auto)
    have b: "fb_geom ?g" "x0 + k < fw ?g" "y < fh ?g"
      using geom y assms(3) Suc.prems like_geom [OF l] by (simp_all add: like_fields [OF l])
    note ps = pix_set_spec [OF b, where v = "val k", folded op]
    have "like f (op k ?g)" using like_trans [OF l ps(1)] .
    moreover have "screen (op k ?g) x' y' = (if y' = y \<and> x0 \<le> x' \<and> x' < x0 + Suc k then val (x' - x0) else screen f x' y')"
      if "x' < fw f" "y' < fh f" for x' y'
      using ps(2) [of x' y'] sc [OF that] that by (auto simp: like_fields [OF l])
    ultimately show ?case by simp
  qed auto
  from this [of n] show "like f g" "x' < fw f \<Longrightarrow> y' < fh f \<Longrightarrow> screen g x' y' =
      (if y' = y \<and> x0 \<le> x' \<and> x' < x0 + n then val (x' - x0) else screen f x' y')"
    by (simp_all add: g_def)
qed

text \<open>Rows from top to bottom; a row may depend on what is below it.\<close>

lemma paint_rows:
  assumes "a \<le> b"
    and row: "\<And>y g. a \<le> y \<Longrightarrow> y < b \<Longrightarrow> like f g \<Longrightarrow>
        (\<forall>x' y'. x' < fw f \<longrightarrow> y' < fh f \<longrightarrow> y \<le> y' \<longrightarrow> screen g x' y' = screen f x' y') \<Longrightarrow>
      like g (rop y g) \<and> (\<forall>x' < fw f. \<forall>y' < fh f.
        screen (rop y g) x' y' = (if y' = y \<and> X0 \<le> x' \<and> x' < X1 then val x' y else screen g x' y'))"
  defines "g \<equiv> fold rop [a..<b] f"
  shows "like f g"
    "x' < fw f \<Longrightarrow> y' < fh f \<Longrightarrow>
       screen g x' y' = (if a \<le> y' \<and> y' < b \<and> X0 \<le> x' \<and> x' < X1 then val x' y' else screen f x' y')"
proof -
  have "a + k \<le> b \<Longrightarrow> like f (fold rop [a..<a + k] f) \<and> (\<forall>x' < fw f. \<forall>y' < fh f. screen (fold rop [a..<a + k] f) x' y' =
      (if a \<le> y' \<and> y' < a + k \<and> X0 \<le> x' \<and> x' < X1 then val x' y' else screen f x' y'))" for k
  proof (induction k)
    case (Suc k)
    let ?g = "fold rop [a..<a + k] f"
    have l: "like f ?g" and sc: "\<And>x' y'. x' < fw f \<Longrightarrow> y' < fh f \<Longrightarrow> screen ?g x' y' =
      (if a \<le> y' \<and> y' < a + k \<and> X0 \<le> x' \<and> x' < X1 then val x' y' else screen f x' y')" using Suc by auto
    have r: "like ?g (rop (a + k) ?g) \<and> (\<forall>x' < fw f. \<forall>y' < fh f. screen (rop (a + k) ?g) x' y' =
        (if y' = a + k \<and> X0 \<le> x' \<and> x' < X1 then val x' (a + k) else screen ?g x' y'))"
      by (rule row) (use Suc.prems l sc in auto)
    then have "like f (rop (a + k) ?g)" using like_trans [OF l] by blast
    moreover have "screen (rop (a + k) ?g) x' y' =
        (if a \<le> y' \<and> y' < a + Suc k \<and> X0 \<le> x' \<and> x' < X1 then val x' y' else screen f x' y')"
      if "x' < fw f" "y' < fh f" for x' y' using r sc [OF that] that by auto
    ultimately show ?case by simp
  qed auto
  from this [of "b - a"] assms(1) show "like f g" "x' < fw f \<Longrightarrow> y' < fh f \<Longrightarrow>
       screen g x' y' = (if a \<le> y' \<and> y' < b \<and> X0 \<le> x' \<and> x' < X1 then val x' y' else screen f x' y')"
    by (simp_all add: g_def)
qed

lemma fill_rows:
  assumes "fb_geom f" "a \<le> b" "b \<le> fh f"
  defines "g \<equiv> fold (\<lambda>y f. fold (\<lambda>x f. pix_set (of_nat y) (of_nat x) (s_bg f) f) [0..<fw f] f) [a..<b] f"
  shows "like f g" "x < fw f \<Longrightarrow> y < fh f \<Longrightarrow> screen g x y = (if a \<le> y \<and> y < b then s_bg f else screen f x y)"
proof -
  let ?rop = "\<lambda>y f. fold (\<lambda>x f. pix_set (of_nat y) (of_nat x) (s_bg f) f) [0..<fw f] f"
  have row: "like g' (?rop y' g') \<and> (\<forall>x'' < fw f. \<forall>y'' < fh f. screen (?rop y' g') x'' y'' =
      (if y'' = y' \<and> 0 \<le> x'' \<and> x'' < fw f then s_bg f else screen g' x'' y''))"
    if a: "y' < b" "like f g'" for y' g'
  proof -
    have e: "fw g' = fw f" "fh g' = fh f" using like_fields [OF a(2)] by simp_all
    have b: "fb_geom g'" "y' < fh g'" "0 + fw f \<le> fw g'"
      using assms(1,3) a like_geom [OF a(2)] by (simp_all add: e)
    have v: "pix_set (of_nat y') (of_nat i) (s_bg h) h = pix_set (of_nat y') (of_nat (0 + i)) (s_bg f) h"
      if "like g' h" for h i using like_fields(9) [OF that] like_fields(9) [OF a(2)] by simp
    have "like g' (?rop y' g')" unfolding e by (rule paint_row(1) [OF b]) (rule v)
    moreover have "screen (?rop y' g') x'' y'' = (if y'' = y' \<and> 0 \<le> x'' \<and> x'' < 0 + fw f then s_bg f else screen g' x'' y'')"
      if "x'' < fw f" "y'' < fh f" for x'' y''
      unfolding e by (rule paint_row(2) [OF b]) (rule v, use that e in auto)
    ultimately show ?thesis by simp
  qed
  note P = paint_rows [of a b f ?rop 0 "fw f" "\<lambda>_ _. s_bg f", OF assms(2) row, folded g_def]
  show "like f g" by (rule P(1)) simp_all
  show "screen g x y = (if a \<le> y \<and> y < b then s_bg f else screen f x y)" if "x < fw f" "y < fh f"
    using P(2) [of x y] that by simp
qed

lemma copy_rows:
  assumes "fb_geom f"
  defines "g \<equiv> fold (\<lambda>y f. fold (\<lambda>x f.
      pix_set (of_nat y) (of_nat x) (pix_get (of_nat y + CHAR_H) (of_nat x) f) f) [0..<fw f] f) [0..<fh f - 10] f"
  shows "like f g" "x < fw f \<Longrightarrow> y < fh f \<Longrightarrow> screen g x y = (if y < fh f - 10 then screen f x (y + 10) else screen f x y)"
proof -
  let ?op = "\<lambda>y x f. pix_set (of_nat y) (of_nat x) (pix_get (of_nat y + CHAR_H) (of_nat x) f) f"
  let ?rop = "\<lambda>y f. fold (?op y) [0..<fw f] f"
  have row: "like g' (?rop y' g') \<and> (\<forall>x'' < fw f. \<forall>y'' < fh f. screen (?rop y' g') x'' y'' =
      (if y'' = y' \<and> 0 \<le> x'' \<and> x'' < fw f then screen f x'' (y' + 10) else screen g' x'' y''))"
    if a: "y' < fh f - 10" "like f g'"
      "\<forall>x'' y''. x'' < fw f \<longrightarrow> y'' < fh f \<longrightarrow> y' \<le> y'' \<longrightarrow> screen g' x'' y'' = screen f x'' y''" for y' g'
  proof -
    have e: "fw g' = fw f" "fh g' = fh f" using like_fields [OF a(2)] by simp_all
    have b: "fb_geom g'" "y' < fh g'" "0 + fw f \<le> fw g'"
      using assms(1) a like_geom [OF a(2)] by (simp_all add: e)
    have v: "?op y' i h = pix_set (of_nat y') (of_nat (0 + i)) (screen f i (y' + 10)) h"
      if h: "i < fw f" "like g' h" "\<forall>x'' y''. x'' < fw g' \<longrightarrow> y'' < fh g' \<longrightarrow> y'' \<noteq> y' \<longrightarrow> screen h x'' y'' = screen g' x'' y''" for h i
    proof -
      have "pix_get (of_nat y' + CHAR_H) (of_nat i) h = screen h i (y' + 10)"
        by (simp add: pix_get_def screen_def pidx_def const_defs)
      also have "\<dots> = screen f i (y' + 10)" using h(3) a(1,3) h(1) by (simp add: e)
      finally show ?thesis by simp
    qed
    have "like g' (?rop y' g')" unfolding e by (rule paint_row(1) [OF b]) (rule v)
    moreover have "screen (?rop y' g') x'' y'' = (if y'' = y' \<and> 0 \<le> x'' \<and> x'' < 0 + fw f then screen f (x'' - 0) (y' + 10) else screen g' x'' y'')"
      if "x'' < fw f" "y'' < fh f" for x'' y''
      unfolding e by (rule paint_row(2) [OF b]) (rule v, use that e in auto)
    ultimately show ?thesis by simp
  qed
  show "like f g" unfolding g_def by (rule paint_rows(1)) (simp, rule row)
  show "screen g x y = (if y < fh f - 10 then screen f x (y + 10) else screen f x y)" if xy: "x < fw f" "y < fh f"
  proof -
    have "screen g x y = (if 0 \<le> y \<and> y < fh f - 10 \<and> 0 \<le> x \<and> x < fw f then screen f x (y + 10) else screen f x y)"
      unfolding g_def by (rule paint_rows(2)) (simp, rule row, simp_all add: xy)
    then show ?thesis using xy by simp
  qed
qed

lemma scroll_up_spec:
  assumes "fb_geom f"
  shows "like f (scroll_up f)" "x < fw f \<Longrightarrow> y < fh f \<Longrightarrow>
    screen (scroll_up f) x y = (if y < fh f - 10 then screen f x (y + 10) else s_bg f)"
proof -
  define g where "g = fold (\<lambda>y f. fold (\<lambda>x f.
      pix_set (of_nat y) (of_nat x) (pix_get (of_nat y + CHAR_H) (of_nat x) f) f) [0..<fw f] f) [0..<fh f - 10] f"
  have h: "unat (s_height f - CHAR_H) = fh f - 10"
    using assms by (subst unat_sub_le) (auto simp: fb_geom_def const_defs word_le_nat_alt)
  note c = copy_rows [OF assms, folded g_def]
  have e: "fw g = fw f" "fh g = fh f" "s_bg g = s_bg f" using like_fields [OF c(1)] by simp_all
  have s: "scroll_up f = fold (\<lambda>y f. fold (\<lambda>x f. pix_set (of_nat y) (of_nat x) (s_bg f) f) [0..<fw f] f) [fh g - 10..<fh g] g"
    unfolding scroll_up_def Let_def h g_def [symmetric] using like_fields(2) [OF c(1)] h e by simp
  have gg: "fb_geom g" using assms like_geom [OF c(1)] by simp
  note p = fill_rows [OF gg, of "fh g - 10" "fh g", folded s]
  show "like f (scroll_up f)" using like_trans [OF c(1) p(1)] by simp
  show "screen (scroll_up f) x y = (if y < fh f - 10 then screen f x (y + 10) else s_bg f)" if "x < fw f" "y < fh f"
    using p(2) [of x y] c(2) [OF that] that by (simp add: e)
qed

lemma fb_clear_spec:
  assumes "fb_geom f"
  shows "x < fw f \<Longrightarrow> y < fh f \<Longrightarrow> screen (fb_clear f) x y = s_bg f"
    "like (f\<lparr>s_cur_col := 0, s_cur_row := 0\<rparr>) (fb_clear f)"
proof -
  define g where "g = fold (\<lambda>y f. fold (\<lambda>x f. pix_set (of_nat y) (of_nat x) (s_bg f) f) [0..<fw f] f) [0..<fh f] f"
  note p = fill_rows [OF assms, of 0 "fh f", folded g_def]
  have c: "fb_clear f = g\<lparr>s_cur_col := 0, s_cur_row := 0\<rparr>" by (simp add: fb_clear_def g_def)
  obtain q where q: "g = f\<lparr>fb_pix := q\<rparr>" using p(1) unfolding like_def by blast
  have "screen (fb_clear f) x y = screen g x y" by (simp add: c screen_def pidx_def)
  then show "screen (fb_clear f) x y = s_bg f" if "x < fw f" "y < fh f" using p(2) [of x y] that by simp
  show "like (f\<lparr>s_cur_col := 0, s_cur_row := 0\<rparr>) (fb_clear f)"
    using p(1) unfolding like_def c q by (auto simp: vis_def pidx_def)
qed

subsection \<open>Glyphs\<close>

definition glyph_pixel :: "char \<Rightarrow> nat \<Rightarrow> nat \<Rightarrow> bool" where
  "glyph_pixel c col row \<longleftrightarrow> row < 8 \<and> bit (glyph_of c ! row) (7 - col)"

lemma glyph_bit:
  assumes "col < 8"
  shows "(b :: u8) AND drop_bit col 0x80 \<noteq> 0 \<longleftrightarrow> bit b (7 - col)"
proof -
  have "col \<in> set [0..<8]" using assms by simp
  then have "col = 0 \<or> col = 1 \<or> col = 2 \<or> col = 3 \<or> col = 4 \<or> col = 5 \<or> col = 6 \<or> col = 7"
    by (simp add: upt_rec) arith
  then have d: "(drop_bit col 0x80 :: u8) = push_bit (7 - col) 1"
    by (elim disjE) simp_all
  have "bit (b AND push_bit k 1) n \<longleftrightarrow> n = k \<and> bit b k" if "k < 8" for k n
    using that by (auto simp: bit_and_iff bit_exp_iff)
  then have "b AND push_bit (7 - col) 1 \<noteq> 0 \<longleftrightarrow> bit b (7 - col)"
    using bit_eq_iff [of "b AND push_bit (7 - col) 1" 0] assms by auto
  then show ?thesis unfolding d .
qed

lemma draw_glyph_spec:
  assumes geom: "fb_geom f" and x0: "X + 8 \<le> fw f" and y0: "Y + 10 \<le> fh f"
  shows "like f (draw_glyph (of_nat X) (of_nat Y) c fg bg f)"
    "x < fw f \<Longrightarrow> y < fh f \<Longrightarrow> screen (draw_glyph (of_nat X) (of_nat Y) c fg bg f) x y =
       (if X \<le> x \<and> x < X + 8 \<and> Y \<le> y \<and> y < Y + 10
        then if glyph_pixel c (x - X) (y - Y) then fg else bg else screen f x y)"
proof -
  define op where "op = (\<lambda>row col f.
      let pixel = (if (if row < 8 then glyph_of c ! row else 0) AND drop_bit col 0x80 \<noteq> 0 then fg else bg);
          y = of_nat Y + of_nat row; x = of_nat X + of_nat col
      in if x < s_width f \<and> y < s_height f then pix_set y x pixel f else f)"
  define rop where "rop = (\<lambda>y f. fold (op (y - Y)) [0..<8] f)"
  have d: "draw_glyph (of_nat X) (of_nat Y) c fg bg f = fold rop [Y..<Y + 10] f"
  proof -
    have "[Y..<Y + 10] = map (\<lambda>i. i + Y) [0..<10]" using map_add_upt [of Y 10] by (simp add: add.commute)
    then show ?thesis by (simp add: draw_glyph_def op_def rop_def fold_map comp_def const_defs Let_def cong: if_cong)
  qed
  have row: "like g (rop y g) \<and> (\<forall>x' < fw f. \<forall>y' < fh f. screen (rop y g) x' y' =
      (if y' = y \<and> X \<le> x' \<and> x' < X + 8 then if glyph_pixel c (x' - X) (y - Y) then fg else bg else screen g x' y'))"
    if a: "Y \<le> y" "y < Y + 10" "like f g" for y g
  proof -
    have e: "fw g = fw f" "fh g = fh f" using like_fields [OF a(3)] by simp_all
    have b: "fb_geom g" "y < fh g" "X + 8 \<le> fw g" using geom x0 y0 a like_geom [OF a(3)] by (simp_all add: e)
    have v: "op (y - Y) i h = pix_set (of_nat y) (of_nat (X + i)) (if glyph_pixel c i (y - Y) then fg else bg) h"
      if h: "i < 8" "like g h" for h i
    proof -
      have w: "(of_nat Y + of_nat (y - Y) :: u32) = of_nat y" "(of_nat X + of_nat i :: u32) = of_nat (X + i)"
        using a(1) by (simp_all add: of_nat_diff)
      have "(of_nat y :: u32) < s_height h" "(of_nat (X + i) :: u32) < s_width h"
        by (rule of_nat_less_word; use b h(1) like_fields [OF h(2)] in simp)+
      then show ?thesis
        unfolding op_def Let_def w using glyph_bit [OF h(1)] by (simp add: glyph_pixel_def del: of_nat_add)
    qed
    have "like g (rop y g)" unfolding rop_def by (rule paint_row(1) [OF b]) (rule v)
    moreover have "screen (rop y g) x' y' = (if y' = y \<and> X \<le> x' \<and> x' < X + 8 then
        (if glyph_pixel c (x' - X) (y - Y) then fg else bg) else screen g x' y')"
      if "x' < fw f" "y' < fh f" for x' y'
      unfolding rop_def by (rule paint_row(2) [OF b]) (rule v, use that e in auto)
    ultimately show ?thesis by blast
  qed
  show "like f (draw_glyph (of_nat X) (of_nat Y) c fg bg f)"
    unfolding d by (rule paint_rows(1)) (simp, rule row)
  show "screen (draw_glyph (of_nat X) (of_nat Y) c fg bg f) x y =
       (if X \<le> x \<and> x < X + 8 \<and> Y \<le> y \<and> y < Y + 10
        then if glyph_pixel c (x - X) (y - Y) then fg else bg else screen f x y)" if xy: "x < fw f" "y < fh f"
  proof -
    have "screen (fold rop [Y..<Y + 10] f) x y = (if Y \<le> y \<and> y < Y + 10 \<and> X \<le> x \<and> x < X + 8
        then if glyph_pixel c (x - X) (y - Y) then fg else bg else screen f x y)"
      by (rule paint_rows(2)) (simp, rule row, simp_all add: xy)
    then show ?thesis unfolding d by auto
  qed
qed

end
