(* ===== verification/Panic.thy ===== *)
theory Panic
  imports Ports Cpu Fb_Draw
begin

section \<open>Kernel panic\<close>

text \<open>
  \<open>kernel/lib/panic.cpp\<close>.  The registered framebuffer is a record; the pixel memory behind its address is
  the index function that the framebuffer console writes too.  \<open>kernel_panic\<close> ends in a halt loop with
  interrupts disabled: what it returns here is the state in which that loop begins, and \<open>None\<close> stands for
  a serial line that is never ready.
\<close>

record panic =
  panic_fb_addr :: u64
  panic_fb_width :: u32
  panic_fb_height :: u32
  panic_fb_pitch :: u32

definition panic_boot :: panic where
  "panic_boot = \<lparr>panic_fb_addr = 0, panic_fb_width = 0, panic_fb_height = 0, panic_fb_pitch = 0\<rparr>"

definition set_panic_framebuffer :: "u64 \<Rightarrow> u32 \<Rightarrow> u32 \<Rightarrow> u32 \<Rightarrow> panic \<Rightarrow> panic" where
  "set_panic_framebuffer fb_addr width height pitch p =
     p\<lparr>panic_fb_addr := fb_addr, panic_fb_width := width, panic_fb_height := height, panic_fb_pitch := pitch\<rparr>"

definition fill_screen :: "u32 \<Rightarrow> panic \<Rightarrow> (u32 \<Rightarrow> u32) \<Rightarrow> (u32 \<Rightarrow> u32)" where
  "fill_screen color p fb =
     (if panic_fb_addr p = 0 then fb
      else let pitch_p = panic_fb_pitch p div 4 in
        fold (\<lambda>y fb. fold (\<lambda>x fb. fb(of_nat y * pitch_p + of_nat x := color))
            [0..<unat (panic_fb_width p)] fb)
          [0..<unat (panic_fb_height p)] fb)"

definition cli :: "cpu \<Rightarrow> cpu" where
  "cli c = c\<lparr>rflags := unset_bit 9 (rflags c)\<rparr>"

definition kernel_panic ::
  "device \<Rightarrow> panic \<Rightarrow> string \<Rightarrow> cpu \<times> io \<times> (u32 \<Rightarrow> u32) \<Rightarrow> (cpu \<times> io \<times> (u32 \<Rightarrow> u32)) option" where
  "kernel_panic dev p message st =
     (let (c, w, fb) = st; c = cli c in
      do {
        w \<leftarrow> print_serial dev [CHR 0x0A, CHR 0x0A] w;
        w \<leftarrow> print_serial dev (''*******************************'' @ [CHR 0x0A]) w;
        w \<leftarrow> print_serial dev (''*       KERNEL PANIC          *'' @ [CHR 0x0A]) w;
        w \<leftarrow> print_serial dev (''*******************************'' @ [CHR 0x0A]) w;
        w \<leftarrow> print_serial dev message w;
        w \<leftarrow> print_serial dev [CHR 0x0A] w;
        w \<leftarrow> print_serial dev (''System Halted. Please restart.'' @ [CHR 0x0A]) w;
        Some (c, w, fill_screen 0x00CC0000 p fb)
      })"

subsection \<open>The red screen\<close>

lemma fold_paint: "fold (\<lambda>x fb. fb(f x := c)) xs fb = (\<lambda>i. if i \<in> f ` set xs then c else fb i)"
  by (induction xs arbitrary: fb) auto

lemma fold_paint_rows:
  "fold (\<lambda>y fb. fold (\<lambda>x fb. fb(g y x := c)) xs fb) ys fb =
     (\<lambda>i. if \<exists>y \<in> set ys. \<exists>x \<in> set xs. i = g y x then c else fb i)"
  by (induction ys arbitrary: fb) (auto simp: fold_paint fun_eq_iff)

lemma fill_screen_spec:
  assumes "panic_fb_addr p \<noteq> 0"
  shows "fill_screen color p fb i =
    (if \<exists>y < unat (panic_fb_height p). \<exists>x < unat (panic_fb_width p). i = of_nat y * (panic_fb_pitch p div 4) + of_nat x
     then color else fb i)"
  using assms unfolding fill_screen_def Let_def fold_paint_rows by (auto simp: atLeast0LessThan)

text \<open>What is on the screen in the end: exactly the pixels of the registered framebuffer are red.\<close>

definition red_screen :: "panic \<Rightarrow> (u32 \<Rightarrow> u32) \<Rightarrow> (u32 \<Rightarrow> u32)" where
  "red_screen p fb = (\<lambda>i.
     if panic_fb_addr p \<noteq> 0 \<and> (\<exists>y < unat (panic_fb_height p). \<exists>x < unat (panic_fb_width p).
         i = of_nat y * (panic_fb_pitch p div 4) + of_nat x)
     then 0x00CC0000 else fb i)"

lemma fill_red: "fill_screen 0x00CC0000 p fb = red_screen p fb"
proof (rule ext)
  show "fill_screen 0x00CC0000 p fb i = red_screen p fb i" for i
    using fill_screen_spec [of p] by (cases "panic_fb_addr p = 0") (auto simp: fill_screen_def red_screen_def)
qed

subsection \<open>The report\<close>

definition panic_report :: "string \<Rightarrow> string" where
  "panic_report message = [CHR 0x0A, CHR 0x0A] @ ''*******************************'' @ [CHR 0x0A] @
     ''*       KERNEL PANIC          *'' @ [CHR 0x0A] @ ''*******************************'' @ [CHR 0x0A] @
     cstr message @ [CHR 0x0A] @ ''System Halted. Please restart.'' @ [CHR 0x0A]"

lemma kernel_panic_spec:
  assumes "uart_live dev"
  shows "\<exists>w'. kernel_panic dev p message (c, w, fb) = Some (cli c, w', red_screen p fb) \<and>
    sent (panic_report message) w w'"
proof -
  note say = print_serial_sent [OF assms]
  let ?bar = "''*******************************'' @ [CHR 0x0A]"
  let ?mid = "''*       KERNEL PANIC          *'' @ [CHR 0x0A]"
  let ?halt = "''System Halted. Please restart.'' @ [CHR 0x0A]"
  obtain w1 where w1: "print_serial dev [CHR 0x0A, CHR 0x0A] w = Some w1" "sent (cstr [CHR 0x0A, CHR 0x0A]) w w1"
    using say by blast
  obtain w2 where w2: "print_serial dev ?bar w1 = Some w2" "sent (cstr ?bar) w1 w2" using say by blast
  obtain w3 where w3: "print_serial dev ?mid w2 = Some w3" "sent (cstr ?mid) w2 w3" using say by blast
  obtain w4 where w4: "print_serial dev ?bar w3 = Some w4" "sent (cstr ?bar) w3 w4" using say by blast
  obtain w5 where w5: "print_serial dev message w4 = Some w5" "sent (cstr message) w4 w5" using say by blast
  obtain w6 where w6: "print_serial dev [CHR 0x0A] w5 = Some w6" "sent (cstr [CHR 0x0A]) w5 w6" using say by blast
  obtain w7 where w7: "print_serial dev ?halt w6 = Some w7" "sent (cstr ?halt) w6 w7" using say by blast
  have "sent (panic_report message) w w7"
    using sent_trans [OF w1(2) sent_trans [OF w2(2) sent_trans [OF w3(2) sent_trans [OF w4(2)
      sent_trans [OF w5(2) sent_trans [OF w6(2) w7(2)]]]]]]
    by (simp add: panic_report_def)
  moreover have "kernel_panic dev p message (c, w, fb) = Some (cli c, w7, red_screen p fb)"
    unfolding kernel_panic_def Let_def prod.case w1(1) w2(1) w3(1) w4(1) w5(1) w6(1) w7(1) bind.bind_lunit fill_red ..
  ultimately show ?thesis by blast
qed

definition cpu_zero :: cpu where
  "cpu_zero = \<lparr>regs = (\<lambda>_. 0), rsp = 0, rip = 0, rflags = 0x202, cs = 8, ss = 0x10\<rparr>"

subsection \<open>Properties\<close>

text \<open>
  Claim C10. On a working serial line \<open>kernel_panic\<close> reaches its halt loop with interrupts disabled and
  everything else of the processor as it was, after sending the banner, the message and the closing line; when
  a framebuffer is registered exactly its pixels are red and no other memory is written, and without one none is.
\<close>

theorem kernel_panic_halts:
  assumes "uart_live dev"
  shows "\<exists>w' fb'. kernel_panic dev p message (c, w, fb) = Some (cli c, w', fb') \<and>
    \<not> interrupts_enabled (cli c) \<and> (\<forall>n. n \<noteq> 9 \<longrightarrow> bit (rflags (cli c)) n = bit (rflags c) n) \<and>
    outs 0x3F8 w' = outs 0x3F8 w @ map of_char (crlf ([CHR 0x0A, CHR 0x0A] @
      ''*******************************'' @ [CHR 0x0A] @ ''*       KERNEL PANIC          *'' @ [CHR 0x0A] @
      ''*******************************'' @ [CHR 0x0A] @ cstr message @ [CHR 0x0A] @
      ''System Halted. Please restart.'' @ [CHR 0x0A])) \<and>
    (\<forall>i. fb' i = (if panic_fb_addr p \<noteq> 0 \<and> (\<exists>y < unat (panic_fb_height p). \<exists>x < unat (panic_fb_width p).
        i = of_nat y * (panic_fb_pitch p div 4) + of_nat x) then 0x00CC0000 else fb i))"
proof -
  obtain w' where w': "kernel_panic dev p message (c, w, fb) = Some (cli c, w', red_screen p fb)"
    "sent (panic_report message) w w'" using kernel_panic_spec [OF assms] by blast
  show ?thesis
    using w'(1) sent_outs [OF w'(2), of "0x3F8"] unfolding red_screen_def panic_report_def
    by (auto simp: cli_def interrupts_enabled_def bit_simps)
qed

definition demo_panic :: panic where
  "demo_panic = set_panic_framebuffer 0x1000 1 1 4 panic_boot"

theorem kernel_panic_halts_witness:
  "\<exists>c' w' fb'. kernel_panic ready_dev demo_panic ''stop'' (cpu_zero, [], \<lambda>_. 0) = Some (c', w', fb') \<and>
     \<not> interrupts_enabled c' \<and> fb' 0 = 0x00CC0000 \<and> fb' 1 = 0"
  using kernel_panic_halts [OF uart_live_ready, of demo_panic "''stop''" cpu_zero "[]" "\<lambda>_. 0"]
  by (auto simp: demo_panic_def set_panic_framebuffer_def)

end
