(* ===== verification/Fb_Console.thy ===== *)
theory Fb_Console
  imports Fb_Draw
begin

section \<open>The console as a grid of characters\<close>

text \<open>
  The abstract console \<open>con\<close> is a grid of cells with a cursor; a cell holds a character with its
  colours, or nothing in particular.  Below the last row of cells there can be a strip of fewer than ten pixel
  rows, which has one colour, \<open>cstrip\<close>.  \<open>con_rep\<close> says that the pixels show the grid and the strip.  Every operation
  of the framebuffer console refines its counterpart on the grid, which is what a reader of the
  screen sees: wrapping, scrolling by one line, backspace.
\<close>

subsection \<open>The abstract console\<close>

record con =
  grid :: "nat \<Rightarrow> nat \<Rightarrow> (char \<times> u32 \<times> u32) option"
  nrows :: nat
  ncols :: nat
  crow :: nat
  ccol :: nat
  cfg :: u32
  cbg :: u32
  cstrip :: u32

text \<open>
  A scroll moves every row up by one and leaves a blank row at the bottom.  The strip moves up as well, so the
  row is blank as long as the strip has the background colour; after a change of that colour, the first row to
  scroll in can mix both and holds nothing in particular.
\<close>

definition con_next_row :: "con \<Rightarrow> con" where
  "con_next_row k =
     (if crow k + 1 < nrows k then k\<lparr>ccol := 0, crow := crow k + 1\<rparr>
      else k\<lparr>ccol := 0, cstrip := cbg k, grid := (\<lambda>r c.
        if r + 1 < nrows k then grid k (r + 1) c
        else if cstrip k = cbg k then Some (CHR '' '', cfg k, cbg k) else None)\<rparr>)"

definition con_set :: "char \<Rightarrow> con \<Rightarrow> con" where
  "con_set ch k = k\<lparr>grid := (grid k)(crow k := (grid k (crow k))(ccol k := Some (ch, cfg k, cbg k)))\<rparr>"

definition con_put :: "char \<Rightarrow> con \<Rightarrow> con" where
  "con_put ch k =
     (let k = con_set ch k; k = k\<lparr>ccol := ccol k + 1\<rparr> in if ccol k < ncols k then k else con_next_row k)"

definition con_putchar :: "char \<Rightarrow> con \<Rightarrow> con" where
  "con_putchar ch k =
     (if ch = CHR 0x0D then k\<lparr>ccol := 0\<rparr>
      else if ch = CHR 0x08 then con_set (CHR '' '') (k\<lparr>ccol := ccol k - 1\<rparr>)
      else if ch = CHR 0x0A then con_next_row k
      else con_put ch k)"

definition con_print :: "string \<Rightarrow> con \<Rightarrow> con" where
  "con_print s k = fold con_putchar (cstr s) k"

subsection \<open>Representation\<close>

definition fb_inv :: "fbcon \<Rightarrow> bool" where
  [inv_defs]: "fb_inv f \<longleftrightarrow> fb_geom f \<and> unat (s_cur_col f) < fw f div 8 \<and> unat (s_cur_row f) < fh f div 10"

definition shows_at :: "fbcon \<Rightarrow> nat \<Rightarrow> nat \<Rightarrow> char \<times> u32 \<times> u32 \<Rightarrow> bool" where
  "shows_at f r c e \<longleftrightarrow> (case e of (ch, fg, bg) \<Rightarrow>
     \<forall>i < 8. \<forall>j < 10. screen f (8 * c + i) (10 * r + j) = (if glyph_pixel ch i j then fg else bg))"

definition strip_shows :: "fbcon \<Rightarrow> u32 \<Rightarrow> bool" where
  "strip_shows f v \<longleftrightarrow> (\<forall>x < fw f. \<forall>y < fh f. 10 * (fh f div 10) \<le> y \<longrightarrow> screen f x y = v)"

definition con_rep :: "fbcon \<Rightarrow> con \<Rightarrow> bool" where
  "con_rep f k \<longleftrightarrow> fb_inv f \<and> nrows k = fh f div 10 \<and> ncols k = fw f div 8 \<and>
     crow k = unat (s_cur_row f) \<and> ccol k = unat (s_cur_col f) \<and> cfg k = s_fg f \<and> cbg k = s_bg f \<and> strip_shows f (cstrip k) \<and>
     (\<forall>r < nrows k. \<forall>c < ncols k. \<forall>e. grid k r c = Some e \<longrightarrow> shows_at f r c e)"

text \<open>The frame: geometry, and memory outside the visible pixels.\<close>

definition fb_frame :: "fbcon \<Rightarrow> fbcon \<Rightarrow> bool" where
  "fb_frame f g \<longleftrightarrow> s_width g = s_width f \<and> s_height g = s_height f \<and> s_pitch_p g = s_pitch_p f \<and>
     (\<forall>i. i \<notin> vis f \<longrightarrow> fb_pix g i = fb_pix f i)"

lemma fb_frame_refl [simp]: "fb_frame f f"
  by (simp add: fb_frame_def)

lemma fb_frame_vis: "fb_frame f g \<Longrightarrow> vis g = vis f"
  by (simp add: fb_frame_def vis_def pidx_def)

lemma fb_frame_trans: "fb_frame f g \<Longrightarrow> fb_frame g h \<Longrightarrow> fb_frame f h"
  using fb_frame_vis [of f g] by (simp add: fb_frame_def)

lemma fb_frame_like: "like f g \<Longrightarrow> fb_frame f g"
  by (simp add: fb_frame_def like_fields) (simp add: like_def)

lemma screen_cursor [simp]:
  "screen (f\<lparr>s_cur_col := a\<rparr>) x y = screen f x y" "screen (f\<lparr>s_cur_row := b\<rparr>) x y = screen f x y"
  "screen (f\<lparr>s_fg := fg\<rparr>) x y = screen f x y" "screen (f\<lparr>s_bg := bg\<rparr>) x y = screen f x y"
  by (simp_all add: screen_def pidx_def)

lemma geom_cursor [simp]:
  "fb_geom (f\<lparr>s_cur_col := a\<rparr>) = fb_geom f" "fb_geom (f\<lparr>s_cur_row := b\<rparr>) = fb_geom f"
  "fb_geom (f\<lparr>s_fg := fg\<rparr>) = fb_geom f" "fb_geom (f\<lparr>s_bg := bg\<rparr>) = fb_geom f"
  by (simp_all add: fb_geom_def)

lemma frame_cursor [simp]:
  "fb_frame f (f\<lparr>s_cur_col := a\<rparr>)" "fb_frame f (f\<lparr>s_cur_row := b\<rparr>)"
  "fb_frame f (f\<lparr>s_fg := fg\<rparr>)" "fb_frame f (f\<lparr>s_bg := bg\<rparr>)"
  by (simp_all add: fb_frame_def)

lemma strip_cursor [simp]:
  "strip_shows (f\<lparr>s_cur_col := a\<rparr>) v = strip_shows f v" "strip_shows (f\<lparr>s_cur_row := b\<rparr>) v = strip_shows f v"
  "strip_shows (f\<lparr>s_fg := fg\<rparr>) v = strip_shows f v" "strip_shows (f\<lparr>s_bg := bg\<rparr>) v = strip_shows f v"
  by (simp_all add: strip_shows_def)

lemma cells_inside:
  assumes "r < fh f div 10" "c < fw f div 8" "i < 8" "j < 10"
  shows "8 * c + i < fw f" "10 * r + j < fh f"
  using assms by linarith+

lemma unat_cols_rows:
  assumes "fb_geom f"
  shows "unat (s_cols f) = fw f div 8" "unat (s_rows f) = fh f div 10"
  using assms by (simp_all add: fb_geom_def const_defs unat_div)

lemma unat_lt_exp32: "unat (a :: u32) < 2 ^ 32"
  using unsigned_less [of a] by simp

subsection \<open>Refinement\<close>

lemma next_row_cases:
  assumes rep: "con_rep (f\<lparr>s_cur_col := a\<rparr>) (k\<lparr>ccol := b\<rparr>)"
  shows "fb_geom f" "unat (s_cur_row f) < fh f div 10" "0 < fw f div 8" "unat (s_cur_row f + 1) = unat (s_cur_row f) + 1"
    "s_rows f \<le> s_cur_row f + 1 \<longleftrightarrow> \<not> crow k + 1 < nrows k"
proof -
  show inv: "fb_geom f" and row: "unat (s_cur_row f) < fh f div 10" and cols: "0 < fw f div 8"
    using rep by (auto simp: con_rep_def inv_defs)
  show r1: "unat (s_cur_row f + 1) = unat (s_cur_row f) + 1"
    using row unat_lt_exp32 [of "s_height f"] by (subst unat_add_lt) auto
  show "s_rows f \<le> s_cur_row f + 1 \<longleftrightarrow> \<not> crow k + 1 < nrows k"
    using rep unat_cols_rows(2) [OF inv] r1 by (auto simp: con_rep_def word_le_nat_alt)
qed

lemma next_row_moves:
  assumes rep: "con_rep (f\<lparr>s_cur_col := a\<rparr>) (k\<lparr>ccol := b\<rparr>)" and "crow k + 1 < nrows k"
  shows "con_rep (next_row f) (con_next_row k) \<and> fb_frame f (next_row f)"
proof -
  note N = next_row_cases [OF rep]
  have n: "next_row f = f\<lparr>s_cur_col := 0, s_cur_row := s_cur_row f + 1\<rparr>" using assms(2) N(5) by (simp add: next_row_def Let_def)
  have "shows_at (next_row f) r c e = shows_at (f\<lparr>s_cur_col := a\<rparr>) r c e" for r c e
    by (simp add: shows_at_def n)
  moreover have "fb_frame f (next_row f)" unfolding n by (rule fb_frame_trans [OF frame_cursor(1) frame_cursor(2)])
  ultimately show ?thesis using rep assms(2) N(3,4) by (auto simp: con_rep_def inv_defs con_next_row_def n)
qed

lemma space_blank: "\<not> glyph_pixel (CHR '' '') i j"
proof (cases "j < 8")
  case True
  have g: "glyph_of (CHR '' '') = [0, 0, 0, 0, 0, 0, 0, 0]" by (simp add: glyph_of_def Let_def font8x8_def)
  then have "list_all (\<lambda>b. b = 0) (glyph_of (CHR '' ''))" "length (glyph_of (CHR '' '')) = 8" by simp_all
  then show ?thesis using True by (simp add: glyph_pixel_def list_all_length)
qed (simp add: glyph_pixel_def)

text \<open>After a scroll every cell shows what the cell below it showed, and the last row and the strip are blank.\<close>

lemma scrolled_shows:
  assumes rep: "con_rep (f\<lparr>s_cur_col := a\<rparr>) (k\<lparr>ccol := b\<rparr>)" and g: "g = scroll_up (f\<lparr>s_cur_col := 0, s_cur_row := s_cur_row f + 1\<rparr>)"
    and rc: "r + 1 < nrows k" "c < ncols k" "grid k (r + 1) c = Some e"
  shows "shows_at (g\<lparr>s_cur_row := q\<rparr>) r c e"
proof -
  have geom: "fb_geom (f\<lparr>s_cur_col := 0, s_cur_row := s_cur_row f + 1\<rparr>)" using next_row_cases(1) [OF rep] by simp
  note sc = scroll_up_spec [OF geom, folded g]
  have old: "shows_at f (r + 1) c e" using rep rc by (auto simp: con_rep_def shows_at_def)
  have "screen (g\<lparr>s_cur_row := q\<rparr>) (8 * c + i) (10 * r + j) = screen f (8 * c + i) (10 * (r + 1) + j)"
    if ij: "i < 8" "j < 10" for i j
  proof -
    have b: "8 * c + i < fw f" "10 * r + j < fh f" "10 * r + j < fh f - 10"
      using rc ij rep by (auto simp: con_rep_def)
    then show ?thesis using sc(2) [of "8 * c + i" "10 * r + j"] by (simp add: algebra_simps)
  qed
  then show ?thesis using old by (simp add: shows_at_def split_beta)
qed

lemma scrolled_bottom:
  assumes rep: "con_rep (f\<lparr>s_cur_col := a\<rparr>) (k\<lparr>ccol := b\<rparr>)" and g: "g = scroll_up (f\<lparr>s_cur_col := 0, s_cur_row := s_cur_row f + 1\<rparr>)"
  shows "strip_shows g (cbg k)" "r < nrows k \<Longrightarrow> \<not> r + 1 < nrows k \<Longrightarrow> c < ncols k \<Longrightarrow> cstrip k = cbg k \<Longrightarrow> shows_at g r c (CHR '' '', fg, cbg k)"
proof -
  have geom: "fb_geom (f\<lparr>s_cur_col := 0, s_cur_row := s_cur_row f + 1\<rparr>)" using next_row_cases(1) [OF rep] by simp
  note sc = scroll_up_spec [OF geom, folded g]
  note lf = like_fields [OF sc(1), simplified]
  have old: "strip_shows f (cstrip k)" "nrows k = fh f div 10" "ncols k = fw f div 8" "cbg k = s_bg f"
    using rep by (auto simp: con_rep_def)
  show "strip_shows g (cbg k)"
    unfolding strip_shows_def using sc(2) old(4) by (auto simp: lf)
  show "shows_at g r c (CHR '' '', fg, cbg k)"
    if rc: "r < nrows k" "\<not> r + 1 < nrows k" "c < ncols k" and same: "cstrip k = cbg k"
  proof -
    have "screen g (8 * c + i) (10 * r + j) = cbg k" if ij: "i < 8" "j < 10" for i j
    proof -
      have b: "8 * c + i < fw f" "10 * r + j < fh f" "10 * (fh f div 10) \<le> 10 * r + j + 10" using rc ij old(2,3) by auto
      have "screen f (8 * c + i) (10 * r + j + 10) = cstrip k" if "10 * r + j + 10 < fh f"
        using old(1) b that by (simp add: strip_shows_def)
      then show ?thesis using sc(2) [of "8 * c + i" "10 * r + j"] b same old(4) by auto
    qed
    then show ?thesis by (simp add: shows_at_def space_blank)
  qed
qed

lemma next_row_scrolls:
  assumes rep: "con_rep (f\<lparr>s_cur_col := a\<rparr>) (k\<lparr>ccol := b\<rparr>)" and "\<not> crow k + 1 < nrows k"
  shows "con_rep (next_row f) (con_next_row k) \<and> fb_frame f (next_row f)"
proof -
  note N = next_row_cases [OF rep]
  define g where "g = scroll_up (f\<lparr>s_cur_col := 0, s_cur_row := s_cur_row f + 1\<rparr>)"
  let ?f = "f\<lparr>s_cur_col := 0, s_cur_row := s_cur_row f + 1\<rparr>"
  note inv = N(1)
  have geom: "fb_geom ?f" using inv by simp
  note sc = scroll_up_spec [OF geom, folded g_def]
  have n: "next_row f = g\<lparr>s_cur_row := s_rows g - 1\<rparr>" using assms(2) N(5) by (simp add: next_row_def Let_def g_def)
  note lf = like_fields [OF sc(1), simplified]
  have last: "unat (s_rows g - 1) = unat (s_cur_row f)"
  proof -
    have "unat (s_rows f) = unat (s_cur_row f) + 1"
      using assms(2) rep unat_cols_rows(2) [OF inv] by (auto simp: con_rep_def inv_defs)
    moreover from this have "1 \<le> s_rows f" by (simp add: word_le_nat_alt)
    ultimately show ?thesis using lf(5) by (simp add: unat_sub_le)
  qed
  have sh: "shows_at (next_row f) r c e" if "r + 1 < nrows k" "c < ncols k" "grid k (r + 1) c = Some e" for r c e
    using scrolled_shows [OF rep refl that] unfolding n g_def .
  note bot = scrolled_bottom [OF rep g_def]
  have bl: "shows_at (next_row f) r c (CHR '' '', fg, cbg k)"
    if "r < nrows k" "\<not> r + 1 < nrows k" "c < ncols k" "cstrip k = cbg k" for r c fg
    using bot(2) [OF that, of fg] unfolding n by (simp add: shows_at_def)
  have strip: "strip_shows (next_row f) (cbg k)" using bot(1) unfolding n by simp
  have "fb_frame f (next_row f)"
    unfolding n
    by (rule fb_frame_trans [OF fb_frame_trans [OF fb_frame_trans [OF frame_cursor(1) frame_cursor(2)]
            fb_frame_like [OF sc(1)]] frame_cursor(2)])
  moreover have "fb_inv (next_row f)"
    using like_geom [OF sc(1)] inv lf last N(2,3) by (simp add: inv_defs n)
  ultimately show ?thesis
    using rep assms(2) sh bl strip lf last by (auto simp: con_rep_def con_next_row_def n split: if_splits)
qed

lemma con_rep_next_row:
  assumes rep: "con_rep (f\<lparr>s_cur_col := a\<rparr>) (k\<lparr>ccol := b\<rparr>)"
  shows "con_rep (next_row f) (con_next_row k)" "fb_frame f (next_row f)"
  using next_row_moves [OF rep] next_row_scrolls [OF rep] by blast+

lemma con_rep_draw:
  fixes ch :: char
  assumes rep: "con_rep f k"
  defines "g \<equiv> draw_glyph (s_cur_col f * CHAR_W) (s_cur_row f * CHAR_H) ch (s_fg f) (s_bg f) f"
  shows "con_rep g (con_set ch k)" "fb_frame f g" "like f g"
proof -
  let ?X = "8 * unat (s_cur_col f)" and ?Y = "10 * unat (s_cur_row f)"
  have inv: "fb_geom f" and row: "unat (s_cur_row f) < fh f div 10" and col: "unat (s_cur_col f) < fw f div 8"
    using rep by (auto simp: con_rep_def inv_defs)
  have w: "s_cur_col f * CHAR_W = of_nat ?X" "s_cur_row f * CHAR_H = of_nat ?Y" by (simp_all add: const_defs)
  have b: "?X + 8 \<le> fw f" "?Y + 10 \<le> fh f" using row col by linarith+
  have gd: "g = draw_glyph (of_nat ?X) (of_nat ?Y) ch (s_fg f) (s_bg f) f" unfolding g_def w ..
  note d = draw_glyph_spec [OF inv b, where c = ch and fg = "s_fg f" and bg = "s_bg f", folded gd]
  show "like f g" by (rule d(1))
  show "fb_frame f g" by (rule fb_frame_like [OF d(1)])
  note lf = like_fields [OF d(1)]
  have sh: "shows_at g r c e" if rc: "r < fh f div 10" "c < fw f div 8"
    and e: "grid (con_set ch k) r c = Some e" for r c e
  proof -
    obtain c' fg bg where e': "e = (c', fg, bg)" by (cases e)
    have pix: "screen g (8 * c + i) (10 * r + j) = (if r = unat (s_cur_row f) \<and> c = unat (s_cur_col f)
        then if glyph_pixel ch i j then s_fg f else s_bg f else screen f (8 * c + i) (10 * r + j))"
      if ij: "i < 8" "j < 10" for i j
    proof -
      have "?X \<le> 8 * c + i \<and> 8 * c + i < ?X + 8 \<and> ?Y \<le> 10 * r + j \<and> 10 * r + j < ?Y + 10 \<longleftrightarrow>
          r = unat (s_cur_row f) \<and> c = unat (s_cur_col f)" using ij by auto
      then show ?thesis using d(2) [OF cells_inside [OF rc ij]] by auto
    qed
    show ?thesis
    proof (cases "r = unat (s_cur_row f) \<and> c = unat (s_cur_col f)")
      case True
      then show ?thesis using pix e e' rep by (simp add: shows_at_def con_set_def con_rep_def)
    next
      case False
      then have "grid k r c = Some e" using e rep by (auto simp: con_set_def con_rep_def split: if_splits)
      then have "shows_at f r c e" using rep rc e' by (simp add: con_rep_def)
      then show ?thesis using pix False e' by (auto simp: shows_at_def)
    qed
  qed
  have "strip_shows g (cstrip k)"
    unfolding strip_shows_def
  proof (intro allI impI)
    fix x y assume xy: "x < fw g" "y < fh g" "10 * (fh g div 10) \<le> y"
    then have "?Y + 10 \<le> y" using row by (simp add: lf)
    then show "screen g x y = cstrip k" using d(2) [of x y] xy rep by (auto simp: lf con_rep_def strip_shows_def)
  qed
  moreover have "fb_inv g" using inv like_geom [OF d(1)] row col by (simp add: inv_defs lf)
  ultimately show "con_rep g (con_set ch k)" using rep sh by (simp add: con_rep_def lf con_set_def)
qed

lemma con_rep_put:
  assumes rep: "con_rep f k"
  shows "con_rep (put_glyph ch f) (con_put ch k)" "fb_frame f (put_glyph ch f)"
proof -
  define g where "g = draw_glyph (s_cur_col f * CHAR_W) (s_cur_row f * CHAR_H) ch (s_fg f) (s_bg f) f"
  note d = con_rep_draw [OF rep, of ch, folded g_def]
  note lf = like_fields [OF d(3)]
  have inv: "fb_geom f" and col: "unat (s_cur_col f) < fw f div 8" using rep by (auto simp: con_rep_def inv_defs)
  have c1: "unat (s_cur_col f + 1) = unat (s_cur_col f) + 1"
    using col unat_lt_exp32 [of "s_width f"] by (subst unat_add_lt) auto
  have p: "put_glyph ch f = (if s_cols f \<le> s_cur_col f + 1 then next_row (g\<lparr>s_cur_col := s_cur_col f + 1\<rparr>)
      else g\<lparr>s_cur_col := s_cur_col f + 1\<rparr>)"
    by (simp add: put_glyph_def Let_def g_def [symmetric] lf)
  have cond: "s_cols f \<le> s_cur_col f + 1 \<longleftrightarrow> \<not> ccol k + 1 < ncols k"
    using rep unat_cols_rows(1) [OF inv] c1 by (auto simp: con_rep_def word_le_nat_alt)
  let ?g = "g\<lparr>s_cur_col := s_cur_col f + 1\<rparr>" and ?k = "(con_set ch k)\<lparr>ccol := ccol k + 1\<rparr>"
  have fr: "fb_frame f ?g" by (rule fb_frame_trans [OF d(2) frame_cursor(1)])
  have kp: "con_put ch k = (if ccol k + 1 < ncols k then ?k else con_next_row ?k)"
    by (simp add: con_put_def Let_def con_set_def)
  have "con_rep (put_glyph ch f) (con_put ch k) \<and> fb_frame f (put_glyph ch f)"
  proof (cases "ccol k + 1 < ncols k")
    case True
    then have "con_rep ?g ?k"
      using d(1) rep c1 lf by (auto simp: con_rep_def inv_defs shows_at_def con_set_def)
    then show ?thesis using True cond p kp fr by simp
  next
    case False
    have "g\<lparr>s_cur_col := s_cur_col g\<rparr> = g" "(con_set ch k)\<lparr>ccol := ccol (con_set ch k)\<rparr> = con_set ch k" by simp_all
    then have "con_rep (?g\<lparr>s_cur_col := s_cur_col g\<rparr>) (?k\<lparr>ccol := ccol (con_set ch k)\<rparr>)" using d(1) by simp
    note nr = con_rep_next_row [OF this]
    show ?thesis using nr fb_frame_trans [OF fr nr(2)] False cond p kp by simp
  qed
  then show "con_rep (put_glyph ch f) (con_put ch k)" "fb_frame f (put_glyph ch f)" by simp_all
qed

lemma con_rep_putchar:
  assumes rep: "con_rep f k" and tab: "ch \<noteq> CHR 0x09"
  shows "\<exists>g. fb_putchar ch f = Some g \<and> con_rep g (con_putchar ch k) \<and> fb_frame f g"
proof -
  have cols: "0 < fw f div 8" using rep by (auto simp: con_rep_def inv_defs)
  consider "ch = CHR 0x0D" | "ch = CHR 0x08" | "ch = CHR 0x0A" | "ch \<notin> {CHR 0x0D, CHR 0x08, CHR 0x0A}" by blast
  then show ?thesis
  proof cases
    case 1
    then show ?thesis
      using rep cols by (auto simp: fb_putchar_def con_putchar_def con_rep_def inv_defs shows_at_def)
  next
    case 2
    define g where "g = (if 0 < s_cur_col f then f\<lparr>s_cur_col := s_cur_col f - 1\<rparr> else f)"
    have u: "unat (s_cur_col g) = unat (s_cur_col f) - 1"
      by (auto simp: g_def unat_sub_le word_less_nat_alt word_le_nat_alt)
    have "con_rep g (k\<lparr>ccol := ccol k - 1\<rparr>)"
      using rep u by (auto simp: con_rep_def inv_defs shows_at_def g_def)
    note d = con_rep_draw [OF this, of "CHR '' ''"]
    have "fb_frame f g" by (simp add: g_def)
    from fb_frame_trans [OF this d(2)] d(1) show ?thesis
      using 2 by (simp add: fb_putchar_def con_putchar_def g_def [symmetric] Let_def)
  next
    case 3
    have "con_rep (f\<lparr>s_cur_col := s_cur_col f\<rparr>) (k\<lparr>ccol := ccol k\<rparr>)" using rep by simp
    from con_rep_next_row [OF this] show ?thesis using 3 by (simp add: fb_putchar_def con_putchar_def)
  next
    case 4
    then show ?thesis using con_rep_put [OF rep, of ch] tab by (simp add: fb_putchar_def con_putchar_def)
  qed
qed

lemma con_rep_print:
  assumes "con_rep f k" "CHR 0x09 \<notin> set (cstr s)"
  shows "\<exists>g. fb_print s f = Some g \<and> con_rep g (con_print s k) \<and> fb_frame f g"
  using assms
proof (induction s arbitrary: f k)
  case (Cons ch s)
  show ?case
  proof (cases "ch = NUL")
    case False
    obtain g where g: "fb_putchar ch f = Some g" "con_rep g (con_putchar ch k)" "fb_frame f g"
      using con_rep_putchar [OF Cons.prems(1), of ch] Cons.prems(2) False by auto
    obtain g' where g': "fb_print s g = Some g'" "con_rep g' (con_print s (con_putchar ch k))" "fb_frame g g'"
      using Cons.IH [OF g(2)] Cons.prems(2) False by auto
    show ?thesis using g g' fb_frame_trans [OF g(3) g'(3)] False by (simp add: con_print_def)
  qed (use Cons.prems in \<open>simp add: con_print_def\<close>)
qed (simp add: con_print_def)

subsection \<open>Tabs\<close>

lemma con_put_col: "ccol k + 1 < ncols k \<Longrightarrow> ccol (con_put ch k) = ccol k + 1"
  "ccol k < ncols k \<Longrightarrow> 0 < ncols k \<Longrightarrow> ccol (con_put ch k) < ncols k" "ncols (con_put ch k) = ncols k"
  by (simp_all add: con_put_def Let_def con_set_def con_next_row_def)

lemma con_rep_ncols: "con_rep f k \<Longrightarrow> ccol k < ncols k \<and> unat (s_cur_col f) = ccol k"
  by (auto simp: con_rep_def inv_defs)

lemma tab_loop_returns:
  assumes "con_rep f k" "unat nt < ncols k" "ccol k \<le> unat nt"
  shows "\<exists>g. tab_loop nt f = Some g \<and> con_rep g (fold (\<lambda>_. con_put (CHR '' '')) [ccol k..<unat nt] k) \<and>
    fb_frame f g \<and> unat (s_cur_col g) = unat nt"
  using assms
proof (induction "unat nt - ccol k" arbitrary: f k)
  case 0
  then have "\<not> s_cur_col f < nt" using con_rep_ncols [OF 0(2)] by (simp add: word_less_nat_alt)
  with 0 show ?case using con_rep_ncols [OF 0(2)] by (subst tab_loop.simps) simp
next
  case (Suc d)
  have lt: "ccol k < unat nt" using Suc.hyps(2) by simp
  then have c: "s_cur_col f < nt" using con_rep_ncols [OF Suc.prems(1)] by (simp add: word_less_nat_alt)
  let ?k = "con_put (CHR '' '') k"
  have k: "ccol ?k = ccol k + 1" "ncols ?k = ncols k" using con_put_col(1,3) lt Suc.prems(2) by simp_all
  note p = con_rep_put [OF Suc.prems(1), of "CHR '' ''"]
  have d: "d = unat nt - ccol ?k" using Suc.hyps(2) k(1) by simp
  obtain g where g: "tab_loop nt (put_glyph (CHR '' '') f) = Some g"
    "con_rep g (fold (\<lambda>_. con_put (CHR '' '')) [ccol ?k..<unat nt] ?k)"
    "fb_frame (put_glyph (CHR '' '') f) g" "unat (s_cur_col g) = unat nt"
    using Suc.hyps(1) [OF d p(1)] Suc.prems(2) k lt by auto
  have "tab_loop nt f = Some g" using c g(1) by (subst tab_loop.simps) simp
  moreover have "[ccol k..<unat nt] = ccol k # [ccol ?k..<unat nt]" using lt k by (simp add: upt_conv_Cons)
  ultimately show ?case using g fb_frame_trans [OF p(2) g(3)] by simp
qed

lemma tab_loop_diverges:
  assumes "con_rep f k" "ncols k \<le> unat nt"
  shows "tab_loop nt f = None"
proof (rule ccontr)
  assume "tab_loop nt f \<noteq> None"
  then obtain g where "tab_loop nt f = Some g" by blast
  then have "\<forall>k. con_rep f k \<longrightarrow> \<not> ncols k \<le> unat nt"
  proof (rule tab_loop.raw_induct [rotated])
    fix loop :: "u32 \<Rightarrow> fbcon \<Rightarrow> fbcon option" and nt f g
    assume IH: "\<And>nt f g. loop nt f = Some g \<Longrightarrow> \<forall>k. con_rep f k \<longrightarrow> \<not> ncols k \<le> unat nt"
      and eq: "(if s_cur_col f < nt then loop nt (put_glyph (CHR '' '') f) else Some f) = Some g"
    show "\<forall>k. con_rep f k \<longrightarrow> \<not> ncols k \<le> unat nt"
    proof (intro allI impI notI)
      fix k assume k: "con_rep f k" "ncols k \<le> unat nt"
      have "s_cur_col f < nt" using con_rep_ncols [OF k(1)] k(2) by (simp add: word_less_nat_alt)
      then have "loop nt (put_glyph (CHR '' '') f) = Some g" using eq by simp
      from IH [OF this] con_rep_put(1) [OF k(1)] show False using k(2) con_put_col(3) by metis
    qed
  qed
  with assms show False by blast
qed

subsection \<open>Numbers\<close>

lemma swap_loop_nth:
  "j + k = length xs - 1 \<Longrightarrow> k < length xs \<Longrightarrow> length (swap_loop j k xs) = length xs \<and>
     (\<forall>i < length xs. swap_loop j k xs ! i = (if j \<le> i \<and> i \<le> k then xs ! (length xs - 1 - i) else xs ! i))"
proof (induction j k xs rule: swap_loop.induct)
  case (1 j k xs)
  show ?case
  proof (cases "j < k")
    case True
    let ?ys = "xs[j := xs ! k, k := xs ! j]"
    have IH: "length (swap_loop (Suc j) (k - 1) ?ys) = length xs"
      "\<And>i. i < length xs \<Longrightarrow> swap_loop (Suc j) (k - 1) ?ys ! i =
        (if Suc j \<le> i \<and> i \<le> k - 1 then ?ys ! (length xs - 1 - i) else ?ys ! i)"
      using "1.IH" [OF True] "1.prems" True by auto
    have "swap_loop (Suc j) (k - 1) ?ys ! i = (if j \<le> i \<and> i \<le> k then xs ! (length xs - 1 - i) else xs ! i)"
      if i: "i < length xs" for i
    proof -
      have m: "length xs - 1 - i = j + k - i" using "1.prems"(1) by simp
      consider "i = j" | "i = k" | "j < i" "i < k" | "i < j" | "k < i" by linarith
      then show ?thesis unfolding IH(2) [OF i] m using True "1.prems"(2) i by cases (auto simp: nth_list_update)
    qed
    then show ?thesis using IH(1) True by (subst (1 2) swap_loop.simps) simp
  next
    case False
    then have e: "swap_loop j k xs = xs" by (subst swap_loop.simps) simp
    have "length xs - 1 - i = i" if "j \<le> i" "i \<le> k" for i using False that "1.prems" by simp
    then show ?thesis unfolding e by simp
  qed
qed

lemma swap_loop_rev: "xs \<noteq> [] \<Longrightarrow> swap_loop 0 (length xs - 1) xs = rev xs"
  using swap_loop_nth [of 0 "length xs - 1" xs] by (auto intro!: nth_equalityI simp: rev_nth)

definition isdigit :: "char \<Rightarrow> bool" where
  "isdigit c \<longleftrightarrow> 48 \<le> (of_char c :: nat) \<and> (of_char c :: nat) \<le> 57"

definition dec_val :: "string \<Rightarrow> nat" where
  "dec_val s = foldl (\<lambda>n c. 10 * n + (of_char c - 48)) 0 s"

fun dec_rep :: "nat \<Rightarrow> string" where
  "dec_rep n = (if n = 0 then [] else char_of (48 + n mod 10) # dec_rep (n div 10))"

declare dec_rep.simps [simp del]

lemma dec_digits_rep: "dec_digits v buf = buf @ dec_rep (unat v)"
proof (induction v buf rule: dec_digits.induct)
  case (1 v buf)
  show ?case
    by (subst dec_digits.simps, subst dec_rep.simps) (use 1 in \<open>simp add: unat_eq_zero unat_div unat_mod\<close>)
qed

lemma of_char_digit: "(of_char (char_of (48 + n mod 10) :: char) :: nat) = 48 + n mod 10"
proof -
  have "48 + n mod 10 < 256" by simp
  then show ?thesis by simp
qed

lemma dec_rep_spec: "list_all isdigit (dec_rep n) \<and> dec_val (rev (dec_rep n)) = n \<and> (n < 10 ^ k \<longrightarrow> length (dec_rep n) \<le> k)"
proof (induction n arbitrary: k rule: dec_rep.induct)
  case (1 n)
  show ?case
  proof (cases "n = 0")
    case True
    then show ?thesis by (simp add: dec_rep.simps dec_val_def)
  next
    case False
    let ?c = "char_of (48 + n mod 10) :: char"
    have r: "dec_rep n = ?c # dec_rep (n div 10)" using False by (subst dec_rep.simps) simp
    have "dec_val (rev (dec_rep n)) = 10 * dec_val (rev (dec_rep (n div 10))) + (of_char ?c - 48)"
      unfolding r by (simp add: dec_val_def)
    also have "\<dots> = n" using 1 [OF False] of_char_digit [of n] by simp
    finally have v: "dec_val (rev (dec_rep n)) = n" .
    have "length (dec_rep n) \<le> k" if k: "n < 10 ^ k"
    proof (cases k)
      case 0
      then show ?thesis using k False by simp
    next
      case (Suc l)
      then have "n div 10 < 10 ^ l" using k by (simp add: less_mult_imp_div_less mult.commute)
      then show ?thesis using 1 [OF False] r Suc by simp
    qed
    then show ?thesis using v 1 [OF False] r of_char_digit [of n] by (auto simp: isdigit_def)
  qed
qed

definition dec_string :: "u64 \<Rightarrow> string" where
  "dec_string v = (if v = 0 then ''0'' else rev (dec_rep (unat v)))"

lemma print_dec_eq:
  "print_u64_dec v f = (if v = 0 then fb_putchar (CHR ''0'') f else fb_print (dec_string v) f)"
proof (cases "v = 0")
  case False
  then have "dec_rep (unat v) \<noteq> []" by (subst dec_rep.simps) (simp add: unat_eq_zero)
  then show ?thesis
    using False swap_loop_rev [of "dec_rep (unat v)"] by (simp add: print_u64_dec_def dec_digits_rep dec_string_def)
qed (simp add: print_u64_dec_def)

lemma isdigit_plain: "isdigit c \<Longrightarrow> c \<noteq> NUL \<and> c \<noteq> CHR 0x09"
  by (auto simp: isdigit_def)

lemma dec_string_spec: "list_all isdigit (dec_string v)" "dec_val (dec_string v) = unat v" "length (dec_string v) \<le> 20"
proof -
  have "unat v < 10 ^ 20" using unat_lt_exp64 [of v] by simp
  then show "list_all isdigit (dec_string v)" "dec_val (dec_string v) = unat v" "length (dec_string v) \<le> 20"
    using dec_rep_spec [of "unat v" 20]
    by (auto simp: dec_string_def list_all_rev) (simp_all add: isdigit_def dec_val_def)
qed

definition hex_num :: "char \<Rightarrow> nat" where
  "hex_num c = (if (of_char c :: nat) \<le> 57 then of_char c - 48 else of_char c - 55)"

definition hex_val :: "string \<Rightarrow> nat" where
  "hex_val s = foldl (\<lambda>n c. 16 * n + hex_num c) 0 s"

definition hex_string :: "nat \<Rightarrow> u64 \<Rightarrow> string" where
  "hex_string n v = map (\<lambda>i. hex_digit (drop_bit (4 * (n - 1 - i)) v)) [0..<n]"

lemma nibble: "unat (v AND 0xF :: u64) = unat v mod 16"
proof -
  have "(0xF :: u64) = mask 4" by (simp add: mask_eq_exp_minus_1)
  then have "v AND 0xF = take_bit 4 v" by (simp add: take_bit_eq_mask)
  then show ?thesis by (simp add: unsigned_take_bit_eq take_bit_eq_mod unat_mod)
qed

lemma hex_alphabet: "list_all (\<lambda>k. hex_num (''0123456789ABCDEF'' ! k) = k \<and> ''0123456789ABCDEF'' ! k \<notin> {NUL, CHR 0x09}) [0..<16]"
  by (simp add: hex_num_def upt_rec)

lemma hex_digit_spec: "hex_num (hex_digit v) = unat v mod 16" "hex_digit v \<notin> {NUL, CHR 0x09}"
proof -
  have "unat v mod 16 < 16" by simp
  then have "hex_num (''0123456789ABCDEF'' ! (unat v mod 16)) = unat v mod 16 \<and>
      ''0123456789ABCDEF'' ! (unat v mod 16) \<notin> {NUL, CHR 0x09}"
    using hex_alphabet unfolding list_all_iff by (metis atLeastLessThan_iff set_upt zero_le)
  then show "hex_num (hex_digit v) = unat v mod 16" "hex_digit v \<notin> {NUL, CHR 0x09}"
    unfolding hex_digit_def nibble by blast+
qed

lemma hex_string_plain: "x \<in> set (hex_string n v) \<Longrightarrow> x \<noteq> NUL \<and> x \<noteq> CHR 0x09"
  using hex_digit_spec(2) by (auto simp: hex_string_def)

lemma hex_string_Suc: "hex_string (Suc n) v = hex_string n (drop_bit 4 v) @ [hex_digit v]"
proof -
  have "drop_bit (4 * (n - i)) v = drop_bit (4 * (n - 1 - i)) (drop_bit 4 v)" if "i < n" for i
  proof -
    have "4 * (n - i) = 4 * (n - 1 - i) + 4" using that by simp
    then show ?thesis by (metis drop_bit_drop_bit)
  qed
  then show ?thesis by (simp add: hex_string_def)
qed

lemma hex_val_string: "hex_val (hex_string n v) = unat v mod 16 ^ n"
proof (induction n arbitrary: v)
  case (Suc n)
  have "unat (drop_bit 4 v) = unat v div 16" by (simp add: drop_bit_eq_div unat_div)
  then have "hex_val (hex_string (Suc n) v) = 16 * (unat v div 16 mod 16 ^ n) + unat v mod 16"
    using Suc hex_digit_spec(1) [of v] by (simp add: hex_string_Suc hex_val_def)
  also have "\<dots> = unat v mod (16 * 16 ^ n)" by (simp add: mod_mult2_eq)
  finally show ?case by simp
qed (simp add: hex_string_def hex_val_def)

lemma hex_fill_eq: "n \<le> length buf \<Longrightarrow> hex_fill n v buf = hex_string n v @ drop n buf"
proof (induction n arbitrary: v buf)
  case (Suc n)
  then have "hex_fill (Suc n) v buf = hex_string n (drop_bit 4 v) @ drop n (buf[n := hex_digit v])" by simp
  also have "drop n (buf[n := hex_digit v]) = hex_digit v # drop (Suc n) buf"
    using Suc.prems by (simp add: drop_update_swap Cons_nth_drop_Suc [symmetric])
  finally show ?case by (simp add: hex_string_Suc)
qed (simp add: hex_string_def)

lemma cstr_hex: "cstr (hex_fill 16 v (replicate 17 NUL)) = hex_string 16 v" "CHR 0x09 \<notin> set (hex_string 16 v)"
proof -
  have "NUL \<notin> set (hex_string 16 v)" using hex_string_plain by blast
  then show "cstr (hex_fill 16 v (replicate 17 NUL)) = hex_string 16 v"
    using cstr_append_NUL [of "hex_string 16 v" "[]"] by (simp add: hex_fill_eq)
  show "CHR 0x09 \<notin> set (hex_string 16 v)" using hex_string_plain by blast
qed

lemma con_print_append: "NUL \<notin> set s \<Longrightarrow> con_print (s @ t) k = con_print t (con_print s k)"
  unfolding con_print_def by (induction s arbitrary: k) auto

lemma cstr_append_free: "NUL \<notin> set s \<Longrightarrow> cstr (s @ t) = s @ cstr t"
  by (induction s) auto

lemma fb_print_cstr: "fb_print (cstr s) f = fb_print s f"
  by (induction s arbitrary: f) (auto split: Option.bind_splits)

lemma fb_print_append: "NUL \<notin> set s \<Longrightarrow> fb_print (s @ t) = (\<lambda>f. Option.bind (fb_print s f) (fb_print t))"
proof (rule ext)
  show "NUL \<notin> set s \<Longrightarrow> fb_print (s @ t) f = Option.bind (fb_print s f) (fb_print t)" for f
    by (induction s arbitrary: f) (auto split: Option.bind_splits)
qed

lemma fb_print_singleton: "c \<noteq> NUL \<Longrightarrow> fb_print [c] = fb_putchar c"
proof (rule ext)
  show "c \<noteq> NUL \<Longrightarrow> fb_print [c] f = fb_putchar c f" for f by (cases "fb_putchar c f") simp_all
qed

lemma fb_print_dec_eq: "fb_print_dec p v f = fb_print (cstr p @ dec_string v @ [CHR 0x0A]) f"
proof -
  have d: "NUL \<notin> set (dec_string v)" using dec_string_spec(1) [of v] isdigit_plain by (auto simp: list_all_iff)
  have p: "print_u64_dec v g = fb_print (dec_string v) g" for g
    by (simp add: print_dec_eq dec_string_def fb_print_singleton del: fb_print.simps)
  show ?thesis
    by (simp add: fb_print_dec_def p fb_print_append d fb_print_cstr fb_print_singleton del: fb_print.simps)
qed

lemma fb_print_hex_eq: "fb_print_hex p v f = fb_print (cstr p @ ''0x'' @ hex_string 16 v @ [CHR 0x0A]) f"
proof -
  have h: "NUL \<notin> set (hex_string 16 v)" using hex_string_plain by blast
  have "fb_print (hex_fill 16 v (replicate 17 NUL)) g = fb_print (hex_string 16 v) g" for g
    using fb_print_cstr [of "hex_fill 16 v (replicate 17 NUL)"] cstr_hex(1) by simp
  then have p: "print_u64_hex v g = Option.bind (fb_print ''0x'' g) (fb_print (hex_string 16 v))" for g
    by (simp add: print_u64_hex_def del: fb_print.simps)
  have z: "NUL \<notin> set ''0x''" by simp
  show ?thesis
    by (simp add: fb_print_hex_def p fb_print_append [OF h] fb_print_append [OF z] fb_print_append
        fb_print_cstr fb_print_singleton del: fb_print.simps append_Cons)
qed

subsection \<open>Clearing\<close>

definition con_blank :: "nat \<Rightarrow> nat \<Rightarrow> u32 \<Rightarrow> u32 \<Rightarrow> con" where
  "con_blank r c fg bg = \<lparr>grid = (\<lambda>_ _. Some (CHR '' '', fg, bg)), nrows = r, ncols = c, crow = 0, ccol = 0,
     cfg = fg, cbg = bg, cstrip = bg\<rparr>"

lemma con_rep_clear:
  assumes geom: "fb_geom f"
  shows "con_rep (fb_clear f) (con_blank (fh f div 10) (fw f div 8) (s_fg f) (s_bg f))"
    "fb_frame f (fb_clear f)"
proof -
  note c = fb_clear_spec [OF geom]
  note lf = like_fields [OF c(2), simplified]
  have "fb_geom (fb_clear f)" using like_geom [OF c(2)] geom by simp
  moreover have "0 < fw f div 8" "0 < fh f div 10" using geom by (simp_all add: fb_geom_def div_greater_zero_iff)
  ultimately have inv: "fb_inv (fb_clear f)" by (simp add: inv_defs lf)
  have "shows_at (fb_clear f) r k (CHR '' '', s_fg f, s_bg f)" if "r < fh f div 10" "k < fw f div 8" for r k
    using c(1) cells_inside [OF that] by (simp add: shows_at_def space_blank)
  moreover have "strip_shows (fb_clear f) (s_bg f)" using c(1) by (simp add: strip_shows_def lf)
  ultimately show "con_rep (fb_clear f) (con_blank (fh f div 10) (fw f div 8) (s_fg f) (s_bg f))"
    using inv by (simp add: con_rep_def con_blank_def lf)
  have "fb_frame f (f\<lparr>s_cur_col := 0, s_cur_row := 0\<rparr>)" by (rule fb_frame_trans [OF frame_cursor(1) frame_cursor(2)])
  then show "fb_frame f (fb_clear f)" by (rule fb_frame_trans [OF _ fb_frame_like [OF c(2)]])
qed

lemma con_rep_color: "con_rep f k \<Longrightarrow> con_rep (fb_set_color fg bg f) (k\<lparr>cfg := fg, cbg := bg\<rparr>) \<and> fb_frame f (fb_set_color fg bg f)"
  by (auto simp: con_rep_def inv_defs fb_set_color_def fb_geom_def shows_at_def strip_shows_def fb_frame_def screen_def pidx_def)

lemma fb_init_rep:
  assumes "8 \<le> unat w" "10 \<le> unat h" "unat w \<le> unat p div 4" "unat h * (unat p div 4) \<le> 2 ^ 32"
  shows "con_rep (fb_init w h p f) (con_blank (unat h div 10) (unat w div 8) (s_fg f) (s_bg f)) \<and>
    (\<forall>i. (\<forall>x < unat w. \<forall>y < unat h. unat i \<noteq> y * (unat p div 4) + x) \<longrightarrow> fb_pix (fb_init w h p f) i = fb_pix f i)"
proof -
  let ?f = "f\<lparr>s_width := w, s_height := h, s_pitch_p := p div 4, s_cols := w div CHAR_W, s_rows := h div CHAR_H\<rparr>"
  have geom: "fb_geom ?f" using assms by (simp add: fb_geom_def unat_div)
  note c = con_rep_clear [OF geom]
  have "fb_pix (fb_init w h p f) i = fb_pix f i" if "\<forall>x < unat w. \<forall>y < unat h. unat i \<noteq> y * (unat p div 4) + x" for i
  proof -
    have "i \<notin> vis ?f" using that unat_pidx [OF geom] by (auto simp: vis_def unat_div)
    then show ?thesis using c(2) by (simp add: fb_frame_def fb_init_def)
  qed
  then show ?thesis using c(1) by (simp add: fb_init_def)
qed

definition demo_fb :: fbcon where
  "demo_fb = fb_init 80 50 320 fb_boot"

lemma demo_fb_rep: "con_rep demo_fb (con_blank 5 10 COLOR_WHITE COLOR_DARK)"
proof -
  let ?f = "fb_boot\<lparr>s_width := 80, s_height := 50, s_pitch_p := 80, s_cols := 10, s_rows := 5\<rparr>"
  have "fb_geom ?f" by (simp add: fb_geom_def const_defs)
  from con_rep_clear(1) [OF this] show ?thesis by (simp add: demo_fb_def fb_init_def const_defs fb_boot_def)
qed

subsection \<open>Properties\<close>

text \<open>
  Claim C15. Printing a string without tabs always returns, and the pixels show what the abstract
  console shows after it: characters drawn cell by cell with the current colours, wrapping at the
  right edge, carriage return, newline and backspace, and scrolling by one line at the bottom, which leaves
  a row of blanks there as long as the strip of pixels below the last text row has the background colour
  (it has after the console is cleared, until the background colour is changed); no memory outside the
  visible pixels is written.
\<close>

theorem fb_print_refines:
  assumes "con_rep f k" "CHR 0x09 \<notin> set (cstr s)"
  shows "\<exists>g. fb_print s f = Some g \<and> con_rep g (con_print s k) \<and> fb_frame f g"
  using con_rep_print [OF assms] .

theorem fb_print_refines_witness:
  "\<exists>g. fb_print ''Hi'' demo_fb = Some g \<and> shows_at g 0 1 (CHR ''i'', COLOR_WHITE, COLOR_DARK)"
proof -
  obtain g where g: "fb_print ''Hi'' demo_fb = Some g" "con_rep g (con_print ''Hi'' (con_blank 5 10 COLOR_WHITE COLOR_DARK))"
    using fb_print_refines [OF demo_fb_rep, of "''Hi''"] by auto
  let ?k = "con_print ''Hi'' (con_blank 5 10 COLOR_WHITE COLOR_DARK)"
  have k: "grid ?k 0 1 = Some (CHR ''i'', COLOR_WHITE, COLOR_DARK)" "nrows ?k = 5" "ncols ?k = 10"
    by (simp_all add: con_print_def con_putchar_def con_put_def con_set_def con_blank_def Let_def)
  have "\<forall>r < nrows ?k. \<forall>c < ncols ?k. \<forall>e. grid ?k r c = Some e \<longrightarrow> shows_at g r c e"
    using g(2) unfolding con_rep_def by blast
  then have "shows_at g 0 1 (CHR ''i'', COLOR_WHITE, COLOR_DARK)"
    using k by (metis one_less_numeral_iff semiring_norm(76) zero_less_numeral)
  with g(1) show ?thesis by blast
qed

text \<open>
  Claim C38. A tab advances to the next multiple of four when that column exists; when the next
  multiple of four is at or beyond the right edge, the loop that prints blanks up to it never ends.
\<close>

theorem fb_tab_behaviour:
  assumes "con_rep f k"
  shows "let nt = (ccol k + 4) div 4 * 4 in
    if nt < ncols k then \<exists>g. fb_putchar (CHR 0x09) f = Some g \<and> unat (s_cur_col g) = nt \<and>
      con_rep g (fold (\<lambda>_. con_put (CHR '' '')) [ccol k..<nt] k)
    else fb_putchar (CHR 0x09) f = None"
proof -
  define nt where "nt = (s_cur_col f + 4) AND NOT 3"
  have c: "unat (s_cur_col f) = ccol k" "ccol k < ncols k" using con_rep_ncols [OF assms] by simp_all
  have "ncols k \<le> unat (s_width f) div 8" using assms by (simp add: con_rep_def)
  then have "unat (s_cur_col f + 4) = ccol k + 4"
    using c unat_lt_exp32 [of "s_width f"] by (subst unat_add_lt) auto
  then have n: "unat nt = (ccol k + 4) div 4 * 4" unfolding nt_def unat_align_4 by simp
  have p: "fb_putchar (CHR 0x09) f = tab_loop nt f" by (simp add: fb_putchar_def nt_def)
  have le: "ccol k \<le> unat nt" unfolding n by presburger
  show ?thesis
    unfolding Let_def n [symmetric] p
    using tab_loop_returns [OF assms _ le] tab_loop_diverges [OF assms, of nt] by (auto simp: not_less)
qed

theorem fb_tab_behaviour_witness:
  "\<exists>g. fb_putchar (CHR 0x09) demo_fb = Some g \<and> unat (s_cur_col g) = 4"
  using fb_tab_behaviour [OF demo_fb_rep] by (auto simp: con_blank_def Let_def)

text \<open>
  The number printers print the value: decimal as at most twenty digits without leading
  zeros that read back to the number, which is what the 21-byte buffer holds with its terminator,
  hexadecimal as \<open>0x\<close> and sixteen digits that read back to the number.
\<close>

lemma fb_numbers_roundtrip:
  "fb_print_dec p v f = fb_print (cstr p @ dec_string v @ [CHR 0x0A]) f \<and>
   list_all isdigit (dec_string v) \<and> dec_val (dec_string v) = unat v \<and> length (dec_string v) \<le> 20 \<and>
   fb_print_hex p v f = fb_print (cstr p @ ''0x'' @ hex_string 16 v @ [CHR 0x0A]) f \<and>
   length (hex_string 16 v) = 16 \<and> hex_val (hex_string 16 v) = unat v"
proof -
  have "unat v mod 16 ^ 16 = unat v" using unat_lt_exp64 [of v] by simp
  then show ?thesis
    using fb_print_dec_eq fb_print_hex_eq dec_string_spec hex_val_string [of 16 v] by (simp add: hex_string_def)
qed

text \<open>
  The font stores the leftmost pixel in the least significant bit, while \<open>draw_glyph\<close> takes it from the
  most significant one: a slash is drawn from the top left to the bottom right.
\<close>

lemma slash_drawn_mirrored:
  "glyph_pixel (CHR 0x2F) 1 0" "glyph_pixel (CHR 0x2F) 7 6" "\<not> glyph_pixel (CHR 0x2F) 7 0" "\<not> glyph_pixel (CHR 0x2F) 1 6"
  by (simp_all add: glyph_pixel_def glyph_of_def Let_def font8x8_def)

end
