(* ===== verification/Isr.thy ===== *)
theory Isr
  imports Idt Panic Fb_Console
begin

section \<open>Exceptions\<close>

text \<open>
  The way of a processor exception: the frame the processor pushes, the stubs \<open>isr_stub_N\<close> and
  \<open>isr_common_stub\<close> of \<open>kernel/arch/x86_64/isr_stubs.asm\<close>, the \<open>InterruptFrame\<close> of \<open>idt.hpp\<close> that they build,
  and \<open>isr_handler\<close> of \<open>idt.cpp\<close>, which prints it and panics.  As \<open>isr_handler\<close> never returns, the pops and the
  \<open>iretq\<close> of the common stub are not reached.
\<close>

subsection \<open>The interrupt frame\<close>

record InterruptFrame =
  fr_r15 :: u64
  fr_r14 :: u64
  fr_r13 :: u64
  fr_r12 :: u64
  fr_r11 :: u64
  fr_r10 :: u64
  fr_r9 :: u64
  fr_r8 :: u64
  fr_rbp :: u64
  fr_rdi :: u64
  fr_rsi :: u64
  fr_rdx :: u64
  fr_rcx :: u64
  fr_rbx :: u64
  fr_rax :: u64
  fr_interrupt_number :: u64
  fr_error_code :: u64
  fr_rip :: u64
  fr_cs :: u64
  fr_rflags :: u64
  fr_rsp :: u64
  fr_ss :: u64

definition frame_of_words :: "u64 list \<Rightarrow> InterruptFrame" where
  "frame_of_words ws =
     \<lparr>fr_r15 = ws ! 0, fr_r14 = ws ! 1, fr_r13 = ws ! 2, fr_r12 = ws ! 3, fr_r11 = ws ! 4, fr_r10 = ws ! 5,
      fr_r9 = ws ! 6, fr_r8 = ws ! 7, fr_rbp = ws ! 8, fr_rdi = ws ! 9, fr_rsi = ws ! 10, fr_rdx = ws ! 11,
      fr_rcx = ws ! 12, fr_rbx = ws ! 13, fr_rax = ws ! 14, fr_interrupt_number = ws ! 15,
      fr_error_code = ws ! 16, fr_rip = ws ! 17, fr_cs = ws ! 18, fr_rflags = ws ! 19, fr_rsp = ws ! 20,
      fr_ss = ws ! 21\<rparr>"

definition interrupt_frame :: "memory \<Rightarrow> u64 \<Rightarrow> InterruptFrame" where
  "interrupt_frame m p = frame_of_words (load_words m p 22)"

subsection \<open>Entry and stubs\<close>

text \<open>
  The processor pushes an error code for the vectors of \<open>pushes_errcode\<close> (the architecture manuals' list,
  with the virtualization exceptions 29 and 30).  The stubs of \<open>ISR_ERRCODE\<close> rely on it; those of
  \<open>ISR_NO_ERRCODE\<close> push a zero in its place.
\<close>

definition pushes_errcode :: "nat \<Rightarrow> bool" where
  "pushes_errcode v \<longleftrightarrow> v \<in> {8, 10, 11, 12, 13, 14, 17, 21, 29, 30}"

definition ISR_ERRCODE :: "nat \<Rightarrow> bool" where
  "ISR_ERRCODE v \<longleftrightarrow> v \<in> {8, 10, 11, 12, 13, 14, 17, 21, 30}"

definition exception_entry :: "nat \<Rightarrow> u64 \<Rightarrow> u64 \<Rightarrow> mstate \<Rightarrow> mstate" where
  "exception_entry v err handler st =
     (let st = irq_entry handler st in if pushes_errcode v then push err st else st)"

definition isr_stub :: "nat \<Rightarrow> mstate \<Rightarrow> mstate" where
  "isr_stub v st = (if ISR_ERRCODE v then push (of_nat v) st else push (of_nat v) (push 0 st))"

definition isr_common_stub :: "mstate \<Rightarrow> u64 \<times> mstate" where
  "isr_common_stub st =
     (let (c, m) = save_regs st; c = c\<lparr>regs := (regs c)(RDI := rsp c)\<rparr> in (regs c RDI, c, m))"

text \<open>
  The rest of the common stub, for a handler that comes back: the registers are restored, vector and error code
  are skipped, and \<open>iretq\<close> returns to the interrupted code.
\<close>

definition isr_return :: "mstate \<Rightarrow> mstate" where
  "isr_return st = (let (c, m) = restore_regs st in iretq (c\<lparr>rsp := rsp c + 16\<rparr>, m))"

subsection \<open>The report\<close>

definition exception_messages :: "string list" where
  "exception_messages =
    [''#DE: Divide Error'', ''#DB: Debug Exception'', ''NMI Interrupt'', ''#BP: Breakpoint'', ''#OF: Overflow'',
     ''#BR: BOUND Range Exceeded'', ''#UD: Invalid Opcode'', ''#NM: Device Not Available'', ''#DF: Double Fault'',
     ''Coprocessor Segment Overrun'', ''#TS: Invalid TSS'', ''#NP: Segment Not Present'',
     ''#SS: Stack-Segment Fault'', ''#GP: General Protection Fault'', ''#PF: Page Fault'', ''Reserved'',
     ''#MF: x87 FPU Error'', ''#AC: Alignment Check'', ''#MC: Machine Check'',
     ''#XM: SIMD Floating-Point Exception'', ''#VE: Virtualization Exception'',
     ''#CP: Control Protection Exception'', ''Reserved'', ''Reserved'', ''Reserved'', ''Reserved'', ''Reserved'',
     ''Reserved'', ''#HV: Hypervisor Injection'', ''#VC: VMM Communication'', ''#SX: Security Exception'',
     ''Reserved'']"

text \<open>The loop of \<open>u64_to_hex\<close> runs \<open>i\<close> from 15 down to 2; \<open>n\<close> is the number of rounds left, so \<open>i = n + 1\<close>.\<close>

primrec u64_to_hex_loop :: "nat \<Rightarrow> u64 \<Rightarrow> string \<Rightarrow> string" where
  "u64_to_hex_loop 0 val buf = buf"
| "u64_to_hex_loop (Suc n) val buf = u64_to_hex_loop n (drop_bit 4 val) (buf[n + 2 := hex_digit val])"

definition u64_to_hex :: "u64 \<Rightarrow> string \<Rightarrow> string" where
  "u64_to_hex val buf =
     (let buf = buf[0 := CHR ''0'', 1 := CHR ''x''];
          buf = u64_to_hex_loop 14 val buf
      in buf[18 := NUL])"

text \<open>
  The register dump alternates between fixed strings and numbers formatted in the one buffer \<open>hex_buf\<close>,
  whose initial contents \<open>junk\<close> are whatever the stack holds.
\<close>

datatype item = Str string | Hex u64

fun print_item :: "device \<Rightarrow> item \<Rightarrow> string \<times> io \<Rightarrow> (string \<times> io) option" where
  "print_item dev (Str s) (buf, w) = do { w \<leftarrow> print_serial dev s w; Some (buf, w) }"
| "print_item dev (Hex v) (buf, w) =
     (let buf = u64_to_hex v buf in do { w \<leftarrow> print_serial dev buf w; Some (buf, w) })"

fun print_items :: "device \<Rightarrow> item list \<Rightarrow> string \<times> io \<Rightarrow> (string \<times> io) option" where
  "print_items dev [] st = Some st"
| "print_items dev (i # is) st = do { st \<leftarrow> print_item dev i st; print_items dev is st }"

definition vec_str :: "u64 \<Rightarrow> string" where
  "vec_str vec = [CHR ''0'', CHR ''x'', hex_digit (drop_bit 4 vec), hex_digit vec, NUL]"

definition header_items :: "InterruptFrame \<Rightarrow> item list" where
  "header_items f =
     [Str ([CHR 0x0A, CHR 0x0A] @ ''--- KERNEL PANIC ---'' @ [CHR 0x0A])] @
     (let vec = fr_interrupt_number f in
      if vec < 32
      then [Str ''Exception: '', Str (vec_str vec), Str '' '', Str (exception_messages ! unat vec), Str [CHR 0x0A]]
      else [Str (''Unknown interrupt vector'' @ [CHR 0x0A])])"

definition dump_items :: "InterruptFrame \<Rightarrow> item list" where
  "dump_items f =
     [Str ''Error Code: '', Hex (fr_error_code f), Str [CHR 0x0A],
      Str ''RIP: '', Hex (fr_rip f), Str ''  CS: '', Hex (fr_cs f), Str [CHR 0x0A],
      Str ''RFLAGS: '', Hex (fr_rflags f), Str [CHR 0x0A],
      Str ''RAX: '', Hex (fr_rax f), Str ''  '', Str ''RBX: '', Hex (fr_rbx f), Str [CHR 0x0A],
      Str ''RCX: '', Hex (fr_rcx f), Str ''  '', Str ''RDX: '', Hex (fr_rdx f), Str [CHR 0x0A],
      Str ''RSI: '', Hex (fr_rsi f), Str ''  '', Str ''RDI: '', Hex (fr_rdi f), Str [CHR 0x0A],
      Str ''RBP: '', Hex (fr_rbp f), Str ''  '', Str ''RSP: '', Hex (fr_rsp f), Str [CHR 0x0A],
      Str ''R8 : '', Hex (fr_r8 f), Str ''  '', Str ''R9 : '', Hex (fr_r9 f), Str [CHR 0x0A],
      Str ''R10: '', Hex (fr_r10 f), Str ''  '', Str ''R11: '', Hex (fr_r11 f), Str [CHR 0x0A],
      Str ''R12: '', Hex (fr_r12 f), Str ''  '', Str ''R13: '', Hex (fr_r13 f), Str [CHR 0x0A],
      Str ''R14: '', Hex (fr_r14 f), Str ''  '', Str ''R15: '', Hex (fr_r15 f), Str [CHR 0x0A]]"

definition isr_handler ::
  "device \<Rightarrow> panic \<Rightarrow> string \<Rightarrow> InterruptFrame \<Rightarrow> cpu \<times> io \<times> (u32 \<Rightarrow> u32) \<Rightarrow> (cpu \<times> io \<times> (u32 \<Rightarrow> u32)) option" where
  "isr_handler dev p junk frame st =
     (let (c, w, fb) = st in
      do {
        (buf, w) \<leftarrow> print_items dev (header_items frame @ dump_items frame) (junk, w);
        kernel_panic dev p ''Unhandled CPU exception. System halted.'' (c, w, fb)
      })"

text \<open>An exception from the faulting instruction to the halt.\<close>

definition exception ::
  "device \<Rightarrow> panic \<Rightarrow> string \<Rightarrow> u64 \<Rightarrow> nat \<Rightarrow> u64 \<Rightarrow> mstate \<times> io \<times> (u32 \<Rightarrow> u32) \<Rightarrow> (cpu \<times> io \<times> (u32 \<Rightarrow> u32)) option" where
  "exception dev p junk handler v err st =
     (let (ms, w, fb) = st;
          (frame, c, m) = isr_common_stub (isr_stub v (exception_entry v err handler ms))
      in isr_handler dev p junk (interrupt_frame m frame) (c, w, fb))"

subsection \<open>What the frame holds\<close>

text \<open>The words on the stack when \<open>isr_handler\<close> is called, in the order they were pushed.\<close>

definition pushed_words :: "nat \<Rightarrow> u64 \<Rightarrow> cpu \<Rightarrow> u64 list" where
  "pushed_words v err c =
     [ss c, rsp c, rflags c, cs c, rip c] @ (if pushes_errcode v then [err] else []) @
     (if ISR_ERRCODE v then [] else [0]) @ [of_nat v] @ map (regs c) stub_order"

lemma length_pushed_words:
  "length (pushed_words v err c) = (if v = 29 then 23 else 22)"
  by (auto simp: pushed_words_def pushes_errcode_def ISR_ERRCODE_def stub_order_def)

lemma stub_pushes:
  fixes c :: cpu and m :: memory
  assumes "isr_common_stub (isr_stub v (exception_entry v err h (c, m))) = (fr, c', m')"
  shows "load_words m' fr 22 = take 22 (rev (pushed_words v err c))" "rsp c' = fr"
    "fr = (rsp c AND NOT 15) - of_nat (8 * length (pushed_words v err c))"
    "x \<notin> span fr (8 * length (pushed_words v err c)) \<Longrightarrow> m' x = m x"
proof -
  define a where "a = c\<lparr>rsp := rsp c AND NOT 15\<rparr>"
  let ?five = "[ss c, rsp c, rflags c, cs c, rip c]"
  let ?mid = "(if pushes_errcode v then [err] else []) @ (if ISR_ERRCODE v then [] else [0]) @ [of_nat v]"
  obtain cA mA where A: "fold push ?five (a, m) = (cA, mA)" by fastforce
  have rA: "regs cA = regs c" using push_list_words(2) [OF A] by (simp add: a_def)
  define c1 where "c1 = cA\<lparr>rip := h, rflags := unset_bit 9 (rflags c)\<rparr>"
  have "irq_entry h (c, m) = (c1, mA)" using A unfolding irq_entry_pushes a_def c1_def by simp
  then have e: "isr_stub v (exception_entry v err h (c, m)) = fold push ?mid (c1, mA)"
    by (simp add: exception_entry_def isr_stub_def)
  obtain cB mB where B: "fold push ?mid (c1, mA) = (cB, mB)" by fastforce
  have rB: "regs cB = regs c" using push_list_words(2) [OF B] rA by (simp add: c1_def)
  obtain cC mC where C: "fold push (map (regs c) stub_order) (cB, mB) = (cC, mC)" by fastforce
  have s: "save_regs (cB, mB) = (cC, mC)" using C by (simp add: save_regs_def push_regs_values rB)
  then have fr: "fr = rsp cC" "m' = mC" "rsp c' = rsp cC" using assms unfolding e B by (auto simp: isr_common_stub_def Let_def)
  have all: "fold push (?mid @ map (regs c) stub_order) (c1, mA) = (cC, mC)" using B C by (simp only: fold_append o_apply)
  let ?F = "fold push (pushed_words v err c) (a, m)"
  have F: "?F = fold push (?mid @ map (regs c) stub_order) (cA, mA)"
    unfolding pushed_words_def append.assoc [symmetric] using A by (simp only: fold_append o_apply)
  have "rsp c1 = rsp cA" by (simp add: c1_def)
  then have "mC = snd ?F" "rsp cC = rsp (fst ?F)"
    using fold_push_cpu [of c1 cA "?mid @ map (regs c) stub_order" mA] unfolding F all by simp_all
  moreover obtain cF mF where f: "?F = (cF, mF)" by fastforce
  ultimately have g: "mC = mF" "rsp cC = rsp cF" by simp_all
  have n: "22 \<le> length (pushed_words v err c)" "8 * length (pushed_words v err c) \<le> 2 ^ 64"
    by (simp_all add: length_pushed_words)
  note W = push_list_words [OF f n(2)]
  show "load_words m' fr 22 = take 22 (rev (pushed_words v err c))" using W(3) [OF n(1)] unfolding fr g .
  show "rsp c' = fr" using fr by simp
  show b: "fr = (rsp c AND NOT 15) - of_nat (8 * length (pushed_words v err c))"
    using W(1) unfolding fr(1) g by (simp add: a_def)
  show "m' x = m x" if "x \<notin> span fr (8 * length (pushed_words v err c))"
  proof -
    have "rsp a = rsp c AND NOT 15" by (simp add: a_def)
    then show ?thesis using push_list_spec [OF n(2), of a m] that unfolding b fr(2) g f by auto
  qed
qed

lemma isr_return_saved:
  assumes "load_words m fr 22 = take 22 (rev (pushed_words v err c))" "v \<noteq> 29" "rsp d = fr"
  shows "isr_return (d, m) = (c, m)"
proof -
  obtain e where e: "rev (pushed_words v err c) =
      rev (map (regs c) stub_order) @ [of_nat v, e, rip c, cs c, rflags c, rsp c, ss c]"
    using assms(2) by (cases "ISR_ERRCODE v"; cases "pushes_errcode v")
      (auto simp: pushed_words_def ISR_ERRCODE_def pushes_errcode_def)
  have "load_words m fr 15 @ load_words m (fr + 120) 2 @ load_words m (fr + 136) 5 =
      rev (map (regs c) stub_order) @ [of_nat v, e] @ [rip c, cs c, rflags c, rsp c, ss c]"
    using assms(1) load_words_append [of m fr 15 7] load_words_append [of m "fr + 120" 2 5]
    unfolding e by (simp add: add.assoc)
  then have w: "load_words m fr 15 = rev (map (regs c) stub_order)"
    and "load_words m (fr + 120) 2 @ load_words m (fr + 136) 5 = [of_nat v, e] @ [rip c, cs c, rflags c, rsp c, ss c]"
    by (auto simp: append_eq_append_conv)
  then have r: "load_words m (fr + 136) 5 = [rip c, cs c, rflags c, rsp c, ss c]"
    by (subst (asm) append_eq_append_conv) simp_all
  show ?thesis
    unfolding isr_return_def restore_regs_saved [OF w assms(3)] Let_def prod.case
    by (subst iretq_saved [OF r]) simp_all
qed

lemma interrupt_frame_words:
  assumes "isr_common_stub (isr_stub v (exception_entry v err h (c, m))) = (fr, c', m')"
  shows "interrupt_frame m' fr = frame_of_words (take 22 (rev (pushed_words v err c)))"
  unfolding interrupt_frame_def by (simp only: stub_pushes(1) [OF assms])

text \<open>The frame as the C++ side expects it.\<close>

definition expected_frame :: "nat \<Rightarrow> u64 \<Rightarrow> cpu \<Rightarrow> InterruptFrame" where
  "expected_frame v err c =
     \<lparr>fr_r15 = regs c R15, fr_r14 = regs c R14, fr_r13 = regs c R13, fr_r12 = regs c R12, fr_r11 = regs c R11,
      fr_r10 = regs c R10, fr_r9 = regs c R9, fr_r8 = regs c R8, fr_rbp = regs c RBP, fr_rdi = regs c RDI,
      fr_rsi = regs c RSI, fr_rdx = regs c RDX, fr_rcx = regs c RCX, fr_rbx = regs c RBX, fr_rax = regs c RAX,
      fr_interrupt_number = of_nat v, fr_error_code = err, fr_rip = rip c, fr_cs = cs c, fr_rflags = rflags c,
      fr_rsp = rsp c, fr_ss = ss c\<rparr>"

lemma frame_layout:
  assumes "v \<noteq> 29"
  shows "frame_of_words (take 22 (rev (pushed_words v err c))) = expected_frame v (if pushes_errcode v then err else 0) c"
  using assms
  by (auto simp: frame_of_words_def expected_frame_def pushed_words_def pushes_errcode_def ISR_ERRCODE_def stub_order_def)

lemma frame_layout_29:
  "frame_of_words (take 22 (rev (pushed_words 29 err c))) =
     (expected_frame 29 0 c)\<lparr>fr_rip := err, fr_cs := rip c, fr_rflags := cs c, fr_rsp := rflags c, fr_ss := rsp c\<rparr>"
  by (simp add: frame_of_words_def expected_frame_def pushed_words_def pushes_errcode_def ISR_ERRCODE_def stub_order_def)

subsection \<open>What is printed\<close>

lemma nibble_mask: "v AND 0xF = take_bit 4 (v :: u64)"
proof -
  have "(0xF :: u64) = mask 4" by (simp add: mask_eq_exp_minus_1)
  then show ?thesis by (simp add: take_bit_eq_mask)
qed

lemma u64_to_hex_loop_eq:
  "n + 2 \<le> length buf \<Longrightarrow> u64_to_hex_loop n v buf = take 2 buf @ hex_string n v @ drop (n + 2) buf"
proof (induction n arbitrary: v buf)
  case (Suc n)
  have "drop (n + 2) (buf[n + 2 := hex_digit v]) = hex_digit v # drop (Suc n + 2) buf"
    using Suc.prems by (simp add: drop_update_swap Cons_nth_drop_Suc [symmetric])
  moreover have "u64_to_hex_loop (Suc n) v buf = take 2 buf @ hex_string n (drop_bit 4 v) @ drop (n + 2) (buf[n + 2 := hex_digit v])"
    using Suc by simp
  ultimately show ?case by (simp add: hex_string_Suc)
qed (simp add: hex_string_def numeral_2_eq_2)

lemma length_hex_string: "length (hex_string n v) = n"
  by (simp add: hex_string_def)

text \<open>What \<open>u64_to_hex\<close> leaves in the buffer: fourteen digits, and the two characters that were there before.\<close>

lemma u64_to_hex_eq:
  assumes "length buf = 20"
  shows "u64_to_hex v buf = ''0x'' @ hex_string 14 v @ [buf ! 16, buf ! 17, NUL, buf ! 19]"
proof -
  let ?b = "buf[0 := CHR ''0'', 1 := CHR ''x'']"
  have t: "take 2 ?b = ''0x''" using assms by (simp add: list_eq_iff_nth_eq less_Suc_eq numeral_2_eq_2)
  have d: "drop 16 ?b = [buf ! 16, buf ! 17, buf ! 18, buf ! 19]"
    using assms by (simp add: list_eq_iff_nth_eq less_Suc_eq numeral_eq_Suc)
  have l: "length (hex_string 14 v) = 14" by (simp add: hex_string_def)
  have e: "u64_to_hex_loop 14 v ?b = ''0x'' @ hex_string 14 v @ [buf ! 16, buf ! 17, buf ! 18, buf ! 19]"
    using u64_to_hex_loop_eq [of 14 ?b v] assms t d by simp
  show ?thesis unfolding u64_to_hex_def Let_def e using l by (simp add: list_update_append)
qed

definition hex_text :: "u64 \<Rightarrow> char \<Rightarrow> char \<Rightarrow> string" where
  "hex_text v j1 j2 = ''0x'' @ hex_string 14 v @ cstr [j1, j2]"

fun item_text :: "char \<Rightarrow> char \<Rightarrow> item \<Rightarrow> string" where
  "item_text j1 j2 (Str s) = cstr s"
| "item_text j1 j2 (Hex v) = hex_text v j1 j2"

lemma cstr_hex_buf:
  assumes "length buf = 20"
  shows "cstr (u64_to_hex v buf) = hex_text v (buf ! 16) (buf ! 17)"
proof -
  have "NUL \<notin> set (''0x'' @ hex_string 14 v)" using hex_string_plain by auto
  then show ?thesis
    unfolding u64_to_hex_eq [OF assms] hex_text_def
    using cstr_append_free [of "''0x'' @ hex_string 14 v"] by simp
qed

lemma hex_buf_kept:
  assumes "length buf = 20"
  shows "length (u64_to_hex v buf) = 20" "u64_to_hex v buf ! 16 = buf ! 16" "u64_to_hex v buf ! 17 = buf ! 17"
  unfolding u64_to_hex_eq [OF assms] by (simp_all add: hex_string_def nth_append)

lemma print_items_sent:
  assumes "uart_live dev"
  shows "length buf = 20 \<Longrightarrow> \<exists>buf' w'. print_items dev is (buf, w) = Some (buf', w') \<and>
    sent (concat (map (item_text (buf ! 16) (buf ! 17)) is)) w w'"
proof (induction "is" arbitrary: buf w)
  case (Cons i "is")
  obtain buf1 w1 where 1: "print_item dev i (buf, w) = Some (buf1, w1)"
    "sent (item_text (buf ! 16) (buf ! 17) i) w w1" "length buf1 = 20" "buf1 ! 16 = buf ! 16" "buf1 ! 17 = buf ! 17"
  proof (cases i)
    case (Str s)
    then show thesis using that print_serial_sent [OF assms, of s w] Cons.prems by auto
  next
    case (Hex v)
    then show thesis
      using that print_serial_sent [OF assms, of "u64_to_hex v buf" w] hex_buf_kept [OF Cons.prems]
        cstr_hex_buf [OF Cons.prems] by (auto simp: Let_def)
  qed
  obtain buf2 w2 where "print_items dev is (buf1, w1) = Some (buf2, w2)"
    "sent (concat (map (item_text (buf ! 16) (buf ! 17)) is)) w1 w2"
    using Cons.IH [OF 1(3), of w1] 1(4,5) by auto
  then show ?case using 1(1) sent_trans [OF 1(2)] by auto
qed auto

text \<open>
  The text of an exception report, line by line: a header, the vector in two hexadecimal digits with its name,
  one or two labelled values on each of the lines that follow, two blanks between them, and the report of the
  panic.  The layout is written down here from the point of view of the reader of the serial line.
\<close>

definition report_title :: "u64 \<Rightarrow> string" where
  "report_title vec = (if unat vec < 32
     then ''Exception: 0x'' @ hex_string 2 vec @ '' '' @ exception_messages ! unat vec
     else ''Unknown interrupt vector'')"

definition report_rows :: "InterruptFrame \<Rightarrow> (string \<times> u64) list list" where
  "report_rows f =
     [[(''Error Code'', fr_error_code f)],
      [(''RIP'', fr_rip f), (''CS'', fr_cs f)],
      [(''RFLAGS'', fr_rflags f)],
      [(''RAX'', fr_rax f), (''RBX'', fr_rbx f)],
      [(''RCX'', fr_rcx f), (''RDX'', fr_rdx f)],
      [(''RSI'', fr_rsi f), (''RDI'', fr_rdi f)],
      [(''RBP'', fr_rbp f), (''RSP'', fr_rsp f)],
      [(''R8 '', fr_r8 f), (''R9 '', fr_r9 f)],
      [(''R10'', fr_r10 f), (''R11'', fr_r11 f)],
      [(''R12'', fr_r12 f), (''R13'', fr_r13 f)],
      [(''R14'', fr_r14 f), (''R15'', fr_r15 f)]]"

fun row_text :: "char \<Rightarrow> char \<Rightarrow> (string \<times> u64) list \<Rightarrow> string" where
  "row_text j1 j2 [] = [CHR 0x0A]"
| "row_text j1 j2 [(l, v)] = l @ '': '' @ hex_text v j1 j2 @ [CHR 0x0A]"
| "row_text j1 j2 ((l, v) # row) = l @ '': '' @ hex_text v j1 j2 @ ''  '' @ row_text j1 j2 row"

definition isr_report :: "char \<Rightarrow> char \<Rightarrow> InterruptFrame \<Rightarrow> string" where
  "isr_report j1 j2 f =
     [CHR 0x0A, CHR 0x0A] @ ''--- KERNEL PANIC ---'' @ [CHR 0x0A] @
     report_title (fr_interrupt_number f) @ [CHR 0x0A] @
     concat (map (row_text j1 j2) (report_rows f)) @
     panic_report ''Unhandled CPU exception. System halted.''"

lemma vec_str_text: "cstr (vec_str v) = ''0x'' @ hex_string 2 v"
proof -
  have "hex_string 2 v = [hex_digit (drop_bit 4 v), hex_digit v]" by (simp add: hex_string_def numeral_2_eq_2)
  then show ?thesis using hex_digit_spec(2) by (simp add: vec_str_def)
qed

lemma exception_names: "list_all (\<lambda>s. NUL \<notin> set s) exception_messages" "length exception_messages = 32"
  by (simp_all add: exception_messages_def)

lemma header_text:
  "concat (map (item_text j1 j2) (header_items f)) =
     [CHR 0x0A, CHR 0x0A] @ ''--- KERNEL PANIC ---'' @ [CHR 0x0A] @ report_title (fr_interrupt_number f) @ [CHR 0x0A]"
proof (cases "fr_interrupt_number f < 32")
  case True
  then have v: "unat (fr_interrupt_number f) < 32" by (simp add: word_less_nat_alt)
  then have "cstr (exception_messages ! unat (fr_interrupt_number f)) = exception_messages ! unat (fr_interrupt_number f)"
    using exception_names by (simp add: list_all_length cstr_id)
  then show ?thesis using True v by (simp add: header_items_def report_title_def Let_def vec_str_text)
next
  case False
  then show ?thesis by (simp add: header_items_def report_title_def Let_def word_less_nat_alt)
qed

lemma dump_text: "concat (map (item_text j1 j2) (dump_items f)) = concat (map (row_text j1 j2) (report_rows f))"
  by (simp add: dump_items_def report_rows_def)

lemma isr_handler_spec:
  assumes "uart_live dev" "length junk = 20"
  shows "\<exists>w'. isr_handler dev p junk f (c, w, fb) = Some (cli c, w', red_screen p fb) \<and>
    sent (isr_report (junk ! 16) (junk ! 17) f) w w'"
proof -
  let ?m = "''Unhandled CPU exception. System halted.''"
  obtain buf w1 where 1: "print_items dev (header_items f @ dump_items f) (junk, w) = Some (buf, w1)"
    "sent (concat (map (item_text (junk ! 16) (junk ! 17)) (header_items f @ dump_items f))) w w1"
    using print_items_sent [OF assms] by blast
  obtain w2 where 2: "kernel_panic dev p ?m (c, w1, fb) = Some (cli c, w2, red_screen p fb)"
    "sent (panic_report ?m) w1 w2" using kernel_panic_spec [OF assms(1)] by blast
  have "isr_handler dev p junk f (c, w, fb) = Some (cli c, w2, red_screen p fb)"
    unfolding isr_handler_def Let_def prod.case 1(1) bind.bind_lunit by (rule 2(1))
  moreover have "sent (isr_report (junk ! 16) (junk ! 17) f) w w2"
    using sent_trans [OF 1(2) 2(2)] unfolding isr_report_def map_append concat_append header_text dump_text append.assoc .
  ultimately show ?thesis by blast
qed

subsection \<open>Properties\<close>

text \<open>
  Claim C21. An exception other than 29 hands \<open>isr_handler\<close> a frame in which every field of \<open>InterruptFrame\<close> is
  what its name says: the fifteen registers, the instruction pointer, flags, stack pointer and selectors of the
  interrupted code, the vector, and the processor's error code or zero.  On a working serial line the report
  of exactly that frame is sent: header, vector and name of the exception, and every field but \<open>ss\<close> under its own
  label.  A value appears as \<open>u64_to_hex\<close> formats it: its low 14 hexadecimal digits, followed by what the two
  unset characters of the buffer hold up to the first null character (the top two digits are lost, see
  \<open>u64_to_hex_truncates\<close>).  Then the system halts with interrupts disabled; the pixels of the registered
  framebuffer are red and no other pixel memory has changed.
\<close>

theorem exception_reports_state:
  assumes "uart_live dev" "length junk = 20" "v < 32" "v \<noteq> 29"
  shows "let f = \<lparr>fr_r15 = regs c R15, fr_r14 = regs c R14, fr_r13 = regs c R13, fr_r12 = regs c R12,
        fr_r11 = regs c R11, fr_r10 = regs c R10, fr_r9 = regs c R9, fr_r8 = regs c R8, fr_rbp = regs c RBP,
        fr_rdi = regs c RDI, fr_rsi = regs c RSI, fr_rdx = regs c RDX, fr_rcx = regs c RCX, fr_rbx = regs c RBX,
        fr_rax = regs c RAX, fr_interrupt_number = of_nat v,
        fr_error_code = (if pushes_errcode v then err else 0), fr_rip = rip c, fr_cs = cs c,
        fr_rflags = rflags c, fr_rsp = rsp c, fr_ss = ss c\<rparr> in
    (case isr_common_stub (isr_stub v (exception_entry v err h (c, m))) of (p, _, m') \<Rightarrow> interrupt_frame m' p = f) \<and>
    (\<exists>c' w' fb'. exception dev p junk h v err ((c, m), w, fb) = Some (c', w', fb') \<and>
       \<not> interrupts_enabled c' \<and>
       outs 0x3F8 w' = outs 0x3F8 w @ map of_char (crlf (isr_report (junk ! 16) (junk ! 17) f)) \<and>
       (\<forall>i. fb' i = (if panic_fb_addr p \<noteq> 0 \<and> (\<exists>y < unat (panic_fb_height p). \<exists>x < unat (panic_fb_width p).
          i = of_nat y * (panic_fb_pitch p div 4) + of_nat x) then 0x00CC0000 else fb i)))"
proof -
  let ?f = "expected_frame v (if pushes_errcode v then err else 0) c"
  obtain fr c1 m1 where s: "isr_common_stub (isr_stub v (exception_entry v err h (c, m))) = (fr, c1, m1)"
    by (metis prod_cases3)
  have f: "interrupt_frame m1 fr = ?f" using interrupt_frame_words [OF s] frame_layout [OF assms(4)] by simp
  have e: "exception dev p junk h v err ((c, m), w, fb) = isr_handler dev p junk ?f (c1, w, fb)"
    unfolding exception_def Let_def prod.case s f ..
  obtain w' where "isr_handler dev p junk ?f (c1, w, fb) = Some (cli c1, w', red_screen p fb)"
    "sent (isr_report (junk ! 16) (junk ! 17) ?f) w w'" using isr_handler_spec [OF assms(1,2)] by blast
  then show ?thesis
    using f s e sent_outs [of _ w w' "0x3F8"] unfolding Let_def expected_frame_def [symmetric]
    by (auto simp: red_screen_def cli_def interrupts_enabled_def bit_simps)
qed

theorem exception_reports_state_witness:
  "\<exists>c' w' fb'. exception ready_dev panic_boot (replicate 20 NUL) 0x1000 14 2 ((cpu_zero, \<lambda>_. 0), [], \<lambda>_. 0) =
     Some (c', w', fb') \<and> outs 0x3F8 w' = map of_char (crlf (isr_report NUL NUL (expected_frame 14 2 cpu_zero)))"
  using exception_reports_state [OF uart_live_ready, of "replicate 20 NUL" 14 cpu_zero 2 "0x1000" "\<lambda>_. 0" panic_boot "[]" "\<lambda>_. 0"]
  by (auto simp: pushes_errcode_def nth_replicate expected_frame_def Let_def)

lemma exception_vector:
  assumes "isr_common_stub (isr_stub v (exception_entry v err h (c, m))) = (fr, c', m')"
  shows "fr_interrupt_number (interrupt_frame m' fr) = of_nat v"
  using interrupt_frame_words [OF assms] frame_layout [of v err c] frame_layout_29 [of err c]
  by (cases "v = 29") (simp_all add: expected_frame_def)

text \<open>
  Claim C39. For vector 29 the processor pushes an error code that the stub does not expect: every field above
  the vector is one word off, so the report shows the error code as the instruction pointer, the instruction
  pointer as CS and RFLAGS as the stack pointer.
\<close>

theorem isr_stub_29_shifts_frame:
  "case isr_common_stub (isr_stub 29 (exception_entry 29 err h (c, m))) of (fr, c', m') \<Rightarrow>
     interrupt_frame m' fr = (expected_frame 29 0 c)\<lparr>fr_rip := err, fr_cs := rip c, fr_rflags := cs c,
       fr_rsp := rflags c, fr_ss := rsp c\<rparr>"
proof -
  obtain fr c1 m1 where s: "isr_common_stub (isr_stub 29 (exception_entry 29 err h (c, m))) = (fr, c1, m1)"
    by (metis prod_cases3)
  show ?thesis using interrupt_frame_words [OF s] frame_layout_29 by (simp add: s)
qed

text \<open>
  Claim C22. The exception stubs are written for handlers that come back: for every vector but 29, if the handler
  returns with the stack pointer it was called with and leaves the 176 bytes of the frame alone, the rest of
  the common stub continues the interrupted code in exactly its state, all registers, flags and the stack
  pointer included; the entry has written nothing outside the frame.
\<close>

theorem isr_return_resumes:
  assumes "v \<noteq> 29"
  shows "case isr_common_stub (isr_stub v (exception_entry v err h (c, m))) of (fr, c1, m1) \<Rightarrow>
    (\<forall>x. x \<notin> span fr 176 \<longrightarrow> m1 x = m x) \<and>
    (\<forall>d m2. rsp d = rsp c1 \<and> (\<forall>x \<in> span fr 176. m2 x = m1 x) \<longrightarrow> isr_return (d, m2) = (c, m2))"
proof -
  obtain fr c1 m1 where s: "isr_common_stub (isr_stub v (exception_entry v err h (c, m))) = (fr, c1, m1)"
    by (metis prod_cases3)
  note S = stub_pushes [OF s]
  have n: "8 * length (pushed_words v err c) = 176" using assms by (simp add: length_pushed_words)
  have "isr_return (d, m2) = (c, m2)" if d: "rsp d = rsp c1" "\<forall>x \<in> span fr 176. m2 x = m1 x" for d m2
  proof (rule isr_return_saved [OF _ assms])
    show "load_words m2 fr 22 = take 22 (rev (pushed_words v err c))"
      using load_words_cong [of fr 22 m2 m1] d(2) S(1) by simp
    show "rsp d = fr" using d(1) S(2) by simp
  qed
  then show ?thesis using S(4) unfolding n s by auto
qed

lemma isr_return_resumes_witness:
  "case isr_common_stub (isr_stub 3 (exception_entry 3 0 0x1000 (cpu_zero, \<lambda>_. 0))) of (fr, c1, m1) \<Rightarrow>
     isr_return (c1, m1) = (cpu_zero, m1)"
proof -
  obtain fr c1 m1 where s: "isr_common_stub (isr_stub 3 (exception_entry 3 0 0x1000 (cpu_zero, \<lambda>_. 0))) = (fr, c1, m1)"
    by (metis prod_cases3)
  have "(3 :: nat) \<noteq> 29" by simp
  from isr_return_resumes [OF this, where err = 0 and h = "0x1000" and c = cpu_zero and m = "\<lambda>_. 0"] show ?thesis unfolding s prod.case by blast
qed

text \<open>
  \<open>u64_to_hex\<close> formats fourteen digits only: the text shows the value without its top byte, so that
  two values which differ there give the same buffer, and the two characters before the terminator are those
  the buffer held before.
\<close>

lemma u64_to_hex_truncates:
  assumes "length buf = 20"
  shows "take 16 (u64_to_hex v buf) = ''0x'' @ hex_string 14 v \<and> hex_val (hex_string 14 v) = unat v mod 2 ^ 56 \<and>
    u64_to_hex v buf ! 16 = buf ! 16 \<and> u64_to_hex v buf ! 17 = buf ! 17 \<and> u64_to_hex v buf ! 18 = NUL \<and>
    (take_bit 56 v = take_bit 56 v' \<longrightarrow> u64_to_hex v buf = u64_to_hex v' buf)"
proof -
  have "hex_string n a = hex_string n b" if "take_bit (4 * n) a = take_bit (4 * n) b" for n a b
    using that
  proof (induction n arbitrary: a b)
    case (Suc n)
    have "take_bit (4 * n) (drop_bit 4 a) = take_bit (4 * n) (drop_bit 4 b)"
      using Suc.prems by (simp add: take_bit_drop_bit add.commute)
    moreover have "hex_digit a = hex_digit b"
    proof -
      have "take_bit 4 (take_bit (4 * Suc n) a) = take_bit 4 (take_bit (4 * Suc n) b)" using Suc.prems by simp
      then have "take_bit 4 a = take_bit 4 b" by (simp only: take_bit_take_bit) simp
      then show ?thesis by (simp only: hex_digit_def nibble_mask)
    qed
    ultimately show ?case using Suc.IH [of "drop_bit 4 a" "drop_bit 4 b"] by (simp only: hex_string_Suc)
  qed (simp add: hex_string_def)
  from this [of 14 v v'] show ?thesis
    using hex_val_string [of 14 v] length_hex_string [of 14] unfolding u64_to_hex_eq [OF assms]
    by (auto simp: nth_append)
qed

end
