(* ===== verification/Pmm.thy ===== *)
theory Pmm
  imports Prelude
begin

text \<open>
  The physical memory manager, \<^verbatim>\<open>kernel/mm/pmm.cpp\<close> and \<^verbatim>\<open>pmm.hpp\<close>: a bitmap with one
  bit per 4 KB page, 1 for free.  The static variables of the file are the fields of the record
  \<open>pmm\<close>; the array \<open>bitmap\<close> is a function of its index, and \<open>in_bounds\<close> states that an
  operation leaves every index outside the declared array alone.  Null is address 0.

  The first section translates the code.  The second gives the bitmap its meaning, the set
  \<open>free_set\<close> of free page numbers, and the effect of each helper on it.  The third specifies
  \<open>pmm_init\<close>; the fourth states the invariant and the interface \<open>page_allocator\<close> that the
  heap relies on; the last holds the properties.
\<close>

section \<open>The code\<close>

subsection \<open>State\<close>

definition BITMAP_QWORDS :: nat where
  [const_defs]: "BITMAP_QWORDS = 16384"

record pmm =
  bitmap :: "nat \<Rightarrow> u64"
  s_total_pages :: u64
  s_free_pages :: u64
  g_hhdm_offset :: u64

text \<open>The entries of Limine's memory map (\<^verbatim>\<open>struct limine_memmap_entry\<close>).\<close>

record memmap_entry =
  me_base :: u64
  me_length :: u64
  me_type :: u64

definition LIMINE_MEMMAP_USABLE :: u64 where
  [const_defs]: "LIMINE_MEMMAP_USABLE = 0"

text \<open>The static initial values.\<close>

definition pmm_boot :: pmm where
  "pmm_boot = \<lparr>bitmap = (\<lambda>_. 0), s_total_pages = 0, s_free_pages = 0, g_hhdm_offset = 0\<rparr>"

subsection \<open>Bitmap helpers and address translation\<close>

definition bit_set :: "u64 \<Rightarrow> pmm \<Rightarrow> pmm" where
  "bit_set p s = s\<lparr>bitmap := (bitmap s)
     (unat (p div 64) := bitmap s (unat (p div 64)) OR push_bit (unat (p mod 64)) 1)\<rparr>"

definition bit_clear :: "u64 \<Rightarrow> pmm \<Rightarrow> pmm" where
  "bit_clear p s = s\<lparr>bitmap := (bitmap s)
     (unat (p div 64) := bitmap s (unat (p div 64)) AND NOT (push_bit (unat (p mod 64)) 1))\<rparr>"

definition bit_test :: "u64 \<Rightarrow> pmm \<Rightarrow> bool" where
  "bit_test p s \<longleftrightarrow> bitmap s (unat (p div 64)) AND push_bit (unat (p mod 64)) 1 \<noteq> 0"

definition phys_to_virt :: "pmm \<Rightarrow> u64 \<Rightarrow> u64" where
  "phys_to_virt s phys = phys + g_hhdm_offset s"

definition virt_to_phys :: "pmm \<Rightarrow> u64 \<Rightarrow> u64" where
  "virt_to_phys s virt = virt - g_hhdm_offset s"

subsection \<open>Initialisation\<close>

text \<open>
  The four loops of \<open>pmm_init\<close> in their order.  The inner loop over addresses runs on 64-bit
  words whose increment may wrap, so it is a partial function and its termination is proved below.
\<close>

definition pmm_clear_bitmap :: "pmm \<Rightarrow> pmm" where
  "pmm_clear_bitmap = fold (\<lambda>i s. s\<lparr>bitmap := (bitmap s)(i := 0)\<rparr>) [0..<BITMAP_QWORDS]"

definition pmm_count_entry :: "memmap_entry \<Rightarrow> pmm \<Rightarrow> pmm" where
  "pmm_count_entry e s =
     (let last_page = (me_base e + me_length e) div 4096
      in if s_total_pages s < last_page then s\<lparr>s_total_pages := last_page\<rparr> else s)"

definition pmm_count_pass :: "memmap_entry list \<Rightarrow> pmm \<Rightarrow> pmm" where
  "pmm_count_pass es s =
     (let s = fold pmm_count_entry es s
      in if of_nat (BITMAP_QWORDS * 64) < s_total_pages s
         then s\<lparr>s_total_pages := of_nat (BITMAP_QWORDS * 64)\<rparr> else s)"

partial_function (option) mark_region :: "u64 \<Rightarrow> u64 \<Rightarrow> pmm \<Rightarrow> pmm option" where
  "mark_region addr limit s =
     (if addr < limit
      then let page = addr div 4096;
               s' = (if page < of_nat (BITMAP_QWORDS * 64)
                     then (let t = bit_set page s in t\<lparr>s_free_pages := s_free_pages t + 1\<rparr>)
                     else s)
           in mark_region (addr + 4096) limit s'
      else Some s)"

fun mark_usable :: "memmap_entry list \<Rightarrow> pmm \<Rightarrow> pmm option" where
  "mark_usable [] s = Some s"
| "mark_usable (e # es) s =
     (if me_type e \<noteq> LIMINE_MEMMAP_USABLE then mark_usable es s
      else let base = (me_base e + 0xFFF) AND NOT 0xFFF;
               limit = (me_base e + me_length e) AND NOT 0xFFF
           in Option.bind (mark_region base limit s) (mark_usable es))"

definition reserve_page :: "nat \<Rightarrow> pmm \<Rightarrow> pmm" where
  "reserve_page p s =
     (if bit_test (of_nat p) s
      then (let t = bit_clear (of_nat p) s in t\<lparr>s_free_pages := s_free_pages t - 1\<rparr>)
      else s)"

definition pmm_init :: "u64 \<Rightarrow> memmap_entry list \<Rightarrow> pmm \<Rightarrow> pmm option" where
  "pmm_init hhdm_off es s =
     (let s = s\<lparr>g_hhdm_offset := hhdm_off\<rparr>;
          s = pmm_clear_bitmap s;
          s = pmm_count_pass es s
      in map_option (fold reserve_page [0..<256]) (mark_usable es s))"

subsection \<open>Allocation and release\<close>

text \<open>\<open>__builtin_ctzll\<close>, the index of the lowest set bit; the code calls it on non-zero words only.\<close>

definition ctzll :: "u64 \<Rightarrow> nat" where
  "ctzll w = length (takeWhile (\<lambda>i. \<not> bit w i) [0..<64])"

function pmm_alloc_loop :: "nat \<Rightarrow> pmm \<Rightarrow> u64 \<times> pmm" where
  "pmm_alloc_loop qi s =
     (if qi < BITMAP_QWORDS
      then if bitmap s qi = 0 then pmm_alloc_loop (Suc qi) s
           else let b = ctzll (bitmap s qi);
                    page = of_nat qi * 64 + of_nat b;
                    t = bit_clear page s
                in (page * 4096, t\<lparr>s_free_pages := s_free_pages t - 1\<rparr>)
      else (0, s))"
  by pat_completeness auto
termination
  by (relation "measure (\<lambda>(qi, s). BITMAP_QWORDS - qi)") auto

declare pmm_alloc_loop.simps [simp del]

definition pmm_alloc :: "pmm \<Rightarrow> u64 \<times> pmm" where
  "pmm_alloc s = pmm_alloc_loop 0 s"

definition pmm_free :: "u64 \<Rightarrow> pmm \<Rightarrow> pmm" where
  "pmm_free phys_addr s =
     (let page = phys_addr div 4096
      in if of_nat (BITMAP_QWORDS * 64) \<le> page then s
         else if \<not> bit_test page s
         then (let t = bit_set page s in t\<lparr>s_free_pages := s_free_pages t + 1\<rparr>)
         else s)"

definition pmm_free_pages :: "pmm \<Rightarrow> u64" where
  [simp]: "pmm_free_pages s = s_free_pages s"

definition pmm_total_pages :: "pmm \<Rightarrow> u64" where
  [simp]: "pmm_total_pages s = s_total_pages s"

definition pmm_used_bytes :: "pmm \<Rightarrow> u64" where
  "pmm_used_bytes s = (s_total_pages s - s_free_pages s) * 4096"

section \<open>The bitmap as a set of pages\<close>

definition npages :: nat where
  [const_defs]: "npages = 1048576"

definition page_free :: "pmm \<Rightarrow> nat \<Rightarrow> bool" where
  "page_free s p \<longleftrightarrow> bit (bitmap s (p div 64)) (p mod 64)"

definition free_set :: "pmm \<Rightarrow> nat set" where
  "free_set s = {p. p < npages \<and> page_free s p}"

lemma finite_free_set [simp]: "finite (free_set s)"
  by (simp add: free_set_def)

lemma qwords_pages: "BITMAP_QWORDS * 64 = npages"
  by (simp add: const_defs)

lemma page_free_bit_set:
  "page_free (bit_set p s) q \<longleftrightarrow> q = unat p \<or> page_free s q"
proof -
  have "unat p div 64 = q div 64 \<and> unat p mod 64 = q mod 64 \<longleftrightarrow> q = unat p"
    by (metis div_mult_mod_eq)
  moreover have "unat p mod 64 < 64" by simp
  ultimately show ?thesis
    by (auto simp: page_free_def bit_set_def bit_or_iff bit_push_bit_iff unat_div unat_mod bit_exp_iff)
qed

lemma page_free_bit_clear:
  "page_free (bit_clear p s) q \<longleftrightarrow> q \<noteq> unat p \<and> page_free s q"
proof -
  have "unat p div 64 = q div 64 \<and> unat p mod 64 = q mod 64 \<longleftrightarrow> q = unat p"
    by (metis div_mult_mod_eq)
  moreover have "unat p mod 64 < 64" by simp
  ultimately show ?thesis
    by (auto simp: page_free_def bit_clear_def bit_and_iff bit_not_iff bit_push_bit_iff unat_div unat_mod bit_exp_iff)
qed

lemma bit_test_iff: "bit_test p s \<longleftrightarrow> page_free s (unat p)"
  by (simp add: bit_test_def page_free_def unat_div unat_mod bit_iff_and_push_bit_not_eq_0)

lemma ctzll_correct:
  assumes "w \<noteq> 0"
  shows "bit w (ctzll w)" "ctzll w < 64" "i < ctzll w \<Longrightarrow> \<not> bit w i"
proof -
  from assms obtain n where n: "bit w n" using bit_eq_iff [of w 0] by auto
  then have n64: "n < 64" using bit_imp_le_length [of w n] by simp
  let ?P = "\<lambda>i. \<not> bit w i"
  have lt: "ctzll w < 64"
  proof (rule ccontr)
    assume "\<not> ctzll w < 64"
    then have "takeWhile ?P [0..<64] = [0..<64]"
      unfolding ctzll_def
      by (metis length_takeWhile_le length_upt diff_zero linorder_not_less le_antisym takeWhile_eq_take take_all)
    then have "\<forall>i \<in> set [0..<64]. ?P i" by (simp only: takeWhile_eq_all_conv)
    with n n64 show False by auto
  qed
  then show "ctzll w < 64" .
  show "bit w (ctzll w)"
    using lt nth_length_takeWhile [of ?P "[0..<64]"] by (simp add: ctzll_def)
  show "\<not> bit w i" if "i < ctzll w" for i
    using that lt takeWhile_nth [of i ?P "[0..<64]"] set_takeWhileD [of "[0..<64] ! i" ?P "[0..<64]"]
    by (metis ctzll_def nth_mem nth_upt add_0 less_trans takeWhile_nth)
qed


lemma page_free_upd [frame_simps, simp]:
  "page_free (s\<lparr>s_free_pages := f\<rparr>) p = page_free s p"
  "page_free (s\<lparr>s_total_pages := f\<rparr>) p = page_free s p"
  "page_free (s\<lparr>g_hhdm_offset := f\<rparr>) p = page_free s p"
  by (simp_all add: page_free_def)

lemma free_set_upd [frame_simps, simp]:
  "free_set (s\<lparr>s_free_pages := f\<rparr>) = free_set s"
  "free_set (s\<lparr>s_total_pages := f\<rparr>) = free_set s"
  "free_set (s\<lparr>g_hhdm_offset := f\<rparr>) = free_set s"
  by (simp_all add: free_set_def)

lemma bit_set_frame [frame_simps, simp]:
  "s_free_pages (bit_set p s) = s_free_pages s"
  "s_total_pages (bit_set p s) = s_total_pages s"
  "g_hhdm_offset (bit_set p s) = g_hhdm_offset s"
  by (simp_all add: bit_set_def)

lemma bit_clear_frame [frame_simps, simp]:
  "s_free_pages (bit_clear p s) = s_free_pages s"
  "s_total_pages (bit_clear p s) = s_total_pages s"
  "g_hhdm_offset (bit_clear p s) = g_hhdm_offset s"
  by (simp_all add: bit_clear_def)

lemma free_set_bit_set:
  "unat p < npages \<Longrightarrow> free_set (bit_set p s) = insert (unat p) (free_set s)"
  by (auto simp: free_set_def page_free_bit_set)

lemma free_set_bit_clear: "free_set (bit_clear p s) = free_set s - {unat p}"
  by (auto simp: free_set_def page_free_bit_clear)

lemma unat_of_npage: "p < npages \<Longrightarrow> unat (of_nat p :: u64) = p"
  by (rule unat_of_nat_lt) (simp add: const_defs)

definition pmm_take :: "nat \<Rightarrow> pmm \<Rightarrow> pmm" where
  "pmm_take p s = (bit_clear (of_nat p) s)\<lparr>s_free_pages := s_free_pages s - 1\<rparr>"

lemma pmm_alloc_loop_eq:
  assumes "qi \<le> BITMAP_QWORDS" "\<And>p. p \<in> free_set s \<Longrightarrow> qi \<le> p div 64"
  shows "pmm_alloc_loop qi s =
     (if free_set s = {} then (0, s)
      else (of_nat (Min (free_set s)) * 4096, pmm_take (Min (free_set s)) s))"
  using assms
proof (induction qi s rule: pmm_alloc_loop.induct)
  case (1 qi s)
  consider (stop) "qi = BITMAP_QWORDS" | (skip) "qi < BITMAP_QWORDS" "bitmap s qi = 0"
    | (hit) "qi < BITMAP_QWORDS" "bitmap s qi \<noteq> 0"
    using "1.prems"(1) by linarith
  then show ?case
  proof cases
    case stop
    have "free_set s = {}"
      using "1.prems"(2) stop qwords_pages by (fastforce simp: free_set_def)
    with stop show ?thesis by (simp add: pmm_alloc_loop.simps)
  next
    case skip
    have "Suc qi \<le> p div 64" if "p \<in> free_set s" for p
    proof -
      have "p div 64 \<noteq> qi" using that skip(2) by (auto simp: free_set_def page_free_def)
      with "1.prems"(2) [OF that] show ?thesis by linarith
    qed
    with "1.IH" skip show ?thesis by (simp add: pmm_alloc_loop.simps [of qi])
  next
    case hit
    let ?b = "ctzll (bitmap s qi)" and ?p = "qi * 64 + ctzll (bitmap s qi)"
    note c = ctzll_correct [OF hit(2)]
    have p: "?p div 64 = qi" "?p mod 64 = ?b" "?p < npages"
      using c(2) hit(1) by (auto simp: const_defs)
    then have mem: "?p \<in> free_set s" using c(1) by (simp add: free_set_def page_free_def)
    have "?p \<le> q" if "q \<in> free_set s" for q
    proof (cases "q div 64 = qi")
      case True
      then have "\<not> q mod 64 < ?b" using that c(3) by (auto simp: free_set_def page_free_def)
      with True show ?thesis by (metis add_mono div_mult_mod_eq le_refl linorder_not_less)
    next
      case False
      with "1.prems"(2) [OF that] have "Suc qi \<le> q div 64" by simp
      with c(2) show ?thesis by linarith
    qed
    with mem have "Min (free_set s) = ?p" by (intro Min_eqI) auto
    moreover have "(of_nat qi * 64 + of_nat ?b :: u64) = of_nat ?p" by simp
    ultimately show ?thesis
      using hit mem by (auto simp: pmm_alloc_loop.simps [of qi] Let_def pmm_take_def)
  qed
qed

lemma pmm_alloc_eq:
  "pmm_alloc s =
     (if free_set s = {} then (0, s)
      else (of_nat (Min (free_set s)) * 4096, pmm_take (Min (free_set s)) s))"
  by (simp add: pmm_alloc_def pmm_alloc_loop_eq)


section \<open>Initialisation, step by step\<close>

definition entry_pages :: "memmap_entry \<Rightarrow> nat set" where
  "entry_pages e =
     {unat (me_base e + 0xFFF) div 4096 ..< unat (me_base e + me_length e) div 4096} \<inter> {..<npages}"

definition usable :: "memmap_entry \<Rightarrow> bool" where
  "usable e \<longleftrightarrow> me_type e = LIMINE_MEMMAP_USABLE"

definition in_bounds :: "pmm \<Rightarrow> pmm \<Rightarrow> bool" where
  "in_bounds s s' \<longleftrightarrow> (\<forall>i \<ge> BITMAP_QWORDS. bitmap s' i = bitmap s i)"

lemma in_bounds_refl [simp]: "in_bounds s s"
  by (simp add: in_bounds_def)

lemma in_bounds_trans: "in_bounds s t \<Longrightarrow> in_bounds t u \<Longrightarrow> in_bounds s u"
  by (simp add: in_bounds_def)

lemma in_bounds_upd [simp]:
  "in_bounds s (t\<lparr>s_free_pages := f\<rparr>) = in_bounds s t"
  "in_bounds s (t\<lparr>s_total_pages := f\<rparr>) = in_bounds s t"
  "in_bounds s (t\<lparr>g_hhdm_offset := f\<rparr>) = in_bounds s t"
  by (simp_all add: in_bounds_def)

lemma qword_lt: "p < npages \<Longrightarrow> p div 64 < BITMAP_QWORDS"
  by (simp add: const_defs)

lemma in_bounds_bit:
  "unat p < npages \<Longrightarrow> in_bounds s (bit_set p s)"
  "unat p < npages \<Longrightarrow> in_bounds s (bit_clear p s)"
  using qword_lt [of "unat p"]
  by (auto simp: in_bounds_def bit_set_def bit_clear_def unat_div)

definition grows :: "pmm \<Rightarrow> nat set \<Rightarrow> nat \<Rightarrow> pmm \<Rightarrow> bool" where
  "grows s A n s' \<longleftrightarrow> free_set s' = free_set s \<union> A \<and> s_free_pages s' = s_free_pages s + of_nat n
     \<and> s_total_pages s' = s_total_pages s \<and> g_hhdm_offset s' = g_hhdm_offset s
     \<and> in_bounds s s'"

lemma grows_trans:
  "grows s A m t \<Longrightarrow> grows t B n u \<Longrightarrow> grows s (A \<union> B) (m + n) u"
  by (auto simp: grows_def intro: in_bounds_trans)

lemma mark_region_grows:
  assumes "4096 * a < 2 ^ 64" "4096 * b < 2 ^ 64"
  shows "\<exists>s'. mark_region (of_nat (4096 * a)) (of_nat (4096 * b)) s = Some s' \<and>
     grows s ({a..<b} \<inter> {..<npages}) (card ({a..<b} \<inter> {..<npages})) s'"
  using assms
proof (induction "b - a" arbitrary: a s)
  case 0
  then have "b \<le> a" by simp
  moreover have "\<not> (of_nat (4096 * a) :: u64) < of_nat (4096 * b)"
    using 0 \<open>b \<le> a\<close> by (subst of_nat_word_less_iff) simp_all
  ultimately show ?case by (simp add: mark_region.simps grows_def)
next
  case (Suc d)
  then have ab: "a < b" by simp
  let ?addr = "of_nat (4096 * a) :: u64"
  have u: "unat ?addr = 4096 * a" using Suc.prems by (intro unat_of_nat_lt) simp
  have less: "?addr < of_nat (4096 * b)"
    using ab Suc.prems by (subst of_nat_word_less_iff) simp_all
  have page: "unat (?addr div 4096) = a" using u by (simp add: unat_div)
  have inr: "?addr div 4096 < of_nat (BITMAP_QWORDS * 64) \<longleftrightarrow> a < npages"
    using page unat_of_nat_lt [of npages, where 'a = 64]
    by (simp add: word_less_nat_alt qwords_pages) (simp add: const_defs)
  have nxt: "?addr + 4096 = of_nat (4096 * Suc a)" by simp
  define t where "t = (if a < npages
     then (bit_set (?addr div 4096) s)\<lparr>s_free_pages := s_free_pages s + 1\<rparr> else s)"
  have split: "{a..<b} \<inter> {..<npages} =
      (if a < npages then insert a ({Suc a..<b} \<inter> {..<npages}) else {Suc a..<b} \<inter> {..<npages})"
    using ab by auto
  have "\<exists>s'. mark_region (of_nat (4096 * Suc a)) (of_nat (4096 * b)) t = Some s' \<and>
      grows t ({Suc a..<b} \<inter> {..<npages}) (card ({Suc a..<b} \<inter> {..<npages})) s'"
    using Suc.hyps(2) ab Suc.prems by (intro Suc.hyps(1)) auto
  then obtain s' where s': "mark_region (of_nat (4096 * Suc a)) (of_nat (4096 * b)) t = Some s'"
      "grows t ({Suc a..<b} \<inter> {..<npages}) (card ({Suc a..<b} \<inter> {..<npages})) s'" by blast
  have "mark_region ?addr (of_nat (4096 * b)) s = mark_region (?addr + 4096) (of_nat (4096 * b)) t"
    using less inr by (subst mark_region.simps) (simp add: Let_def t_def)
  then have "mark_region ?addr (of_nat (4096 * b)) s = Some s'" using s'(1) nxt by (simp only:)
  moreover have "grows s (if a < npages then {a} else {}) (if a < npages then 1 else 0) t"
    using page by (auto simp: grows_def t_def free_set_bit_set in_bounds_bit)
  then have "grows s ({a..<b} \<inter> {..<npages}) (card ({a..<b} \<inter> {..<npages})) s'"
    using grows_trans [OF _ s'(2)] unfolding split by fastforce
  ultimately show ?case by blast
qed

lemma mark_entry_grows:
  "\<exists>s'. mark_region ((me_base e + 0xFFF) AND NOT 0xFFF) ((me_base e + me_length e) AND NOT 0xFFF) s
      = Some s' \<and> grows s (entry_pages e) (card (entry_pages e)) s'"
proof -
  have al: "(w AND NOT 0xFFF) = of_nat (4096 * (unat w div 4096))" for w :: u64
    using unat_align_4096 [of w] by (metis mult.commute of_nat_unat_id)
  have bd: "4096 * (unat w div 4096) < 2 ^ 64" for w :: u64
    using unat_lt_exp64 [of w] times_div_less_eq_dividend [of 4096 "unat w"] by linarith
  show ?thesis
    unfolding al entry_pages_def by (rule mark_region_grows [OF bd bd])
qed

lemma mark_usable_grows:
  "\<exists>s'. mark_usable es s = Some s' \<and>
     grows s (\<Union>e \<in> set (filter usable es). entry_pages e)
       (\<Sum>e \<leftarrow> filter usable es. card (entry_pages e)) s'"
proof (induction es arbitrary: s)
  case Nil
  then show ?case by (simp add: grows_def)
next
  case (Cons e es)
  show ?case
  proof (cases "usable e")
    case False
    with Cons.IH [of s] show ?thesis by (simp add: usable_def)
  next
    case True
    obtain t where t: "mark_region ((me_base e + 0xFFF) AND NOT 0xFFF)
        ((me_base e + me_length e) AND NOT 0xFFF) s = Some t"
        "grows s (entry_pages e) (card (entry_pages e)) t"
      using mark_entry_grows by blast
    obtain s' where "mark_usable es t = Some s'"
        "grows t (\<Union>e \<in> set (filter usable es). entry_pages e)
          (\<Sum>e \<leftarrow> filter usable es. card (entry_pages e)) s'"
      using Cons.IH [of t] by blast
    moreover have "mark_usable (e # es) s = mark_usable es t"
      using t(1) True by (simp add: usable_def)
    ultimately show ?thesis using grows_trans [OF t(2)] True by fastforce
  qed
qed


lemma reserve_page_spec:
  assumes "p < npages"
  shows "free_set (reserve_page p s) = free_set s - {p}"
    "s_free_pages (reserve_page p s) = s_free_pages s - (if p \<in> free_set s then 1 else 0)"
    "s_total_pages (reserve_page p s) = s_total_pages s"
    "g_hhdm_offset (reserve_page p s) = g_hhdm_offset s"
    "in_bounds s (reserve_page p s)"
  using assms unat_of_npage [OF assms]
  by (auto simp: reserve_page_def bit_test_iff free_set_bit_clear in_bounds_bit)
     (auto simp: free_set_def)

lemma reserve_pages_spec:
  assumes "n \<le> npages"
  shows "free_set (fold reserve_page [0..<n] s) = free_set s - {..<n} \<and>
    s_free_pages (fold reserve_page [0..<n] s) = s_free_pages s - of_nat (card (free_set s \<inter> {..<n})) \<and>
    s_total_pages (fold reserve_page [0..<n] s) = s_total_pages s \<and>
    g_hhdm_offset (fold reserve_page [0..<n] s) = g_hhdm_offset s \<and>
    in_bounds s (fold reserve_page [0..<n] s)"
  using assms
proof (induction n)
  case 0
  then show ?case by simp
next
  case (Suc n)
  have "free_set s \<inter> {..<Suc n} = (if n \<in> free_set s then insert n (free_set s \<inter> {..<n}) else free_set s \<inter> {..<n})"
    by (auto simp: lessThan_Suc)
  then have "card (free_set s \<inter> {..<Suc n}) = card (free_set s \<inter> {..<n}) + (if n \<in> free_set s then 1 else 0)"
    by simp
  with Suc show ?case
    by (auto simp: reserve_page_spec lessThan_Suc intro: in_bounds_trans reserve_page_spec(5))
qed

lemma pmm_clear_bitmap_spec:
  "free_set (pmm_clear_bitmap s) = {}"
  "s_free_pages (pmm_clear_bitmap s) = s_free_pages s"
  "s_total_pages (pmm_clear_bitmap s) = s_total_pages s"
  "g_hhdm_offset (pmm_clear_bitmap s) = g_hhdm_offset s"
  "in_bounds s (pmm_clear_bitmap s)"
proof -
  have bm: "bitmap (fold (\<lambda>i s. s\<lparr>bitmap := (bitmap s)(i := 0)\<rparr>) [0..<n] s) =
      (\<lambda>i. if i < n then 0 else bitmap s i)" for n
    by (induction n) auto
  have "p div 64 < BITMAP_QWORDS" if "p < npages" for p
    using that by (simp add: const_defs)
  then show "free_set (pmm_clear_bitmap s) = {}"
    by (auto simp: free_set_def page_free_def pmm_clear_bitmap_def bm)
  show "in_bounds s (pmm_clear_bitmap s)"
    by (simp add: in_bounds_def pmm_clear_bitmap_def bm)
  have "s_free_pages (fold (\<lambda>i s. s\<lparr>bitmap := (bitmap s)(i := 0)\<rparr>) [0..<n] s) = s_free_pages s"
    "s_total_pages (fold (\<lambda>i s. s\<lparr>bitmap := (bitmap s)(i := 0)\<rparr>) [0..<n] s) = s_total_pages s"
    "g_hhdm_offset (fold (\<lambda>i s. s\<lparr>bitmap := (bitmap s)(i := 0)\<rparr>) [0..<n] s) = g_hhdm_offset s" for n
    by (induction n) auto
  then show "s_free_pages (pmm_clear_bitmap s) = s_free_pages s"
    "s_total_pages (pmm_clear_bitmap s) = s_total_pages s"
    "g_hhdm_offset (pmm_clear_bitmap s) = g_hhdm_offset s"
    by (simp_all add: pmm_clear_bitmap_def)
qed

lemma pmm_count_entry_spec:
  "bitmap (pmm_count_entry e s) = bitmap s"
  "s_free_pages (pmm_count_entry e s) = s_free_pages s"
  "g_hhdm_offset (pmm_count_entry e s) = g_hhdm_offset s"
  "s_total_pages (pmm_count_entry e s) =
     max (s_total_pages s) ((me_base e + me_length e) div 4096)"
  by (auto simp: pmm_count_entry_def Let_def max_def)

lemma count_entries_spec:
  "bitmap (fold pmm_count_entry es s) = bitmap s"
  "s_free_pages (fold pmm_count_entry es s) = s_free_pages s"
  "g_hhdm_offset (fold pmm_count_entry es s) = g_hhdm_offset s"
  "s_total_pages s \<le> s_total_pages (fold pmm_count_entry es s)"
  "e \<in> set es \<Longrightarrow> (me_base e + me_length e) div 4096 \<le> s_total_pages (fold pmm_count_entry es s)"
proof (induction es arbitrary: s)
  case (Cons f es)
  { case 4 show ?case using Cons.IH(4) [of "pmm_count_entry f s"]
      by (simp add: pmm_count_entry_spec) }
  { case 5 then show ?case using Cons.IH(4) [of "pmm_count_entry f s"] Cons.IH(5)
      by (auto simp: pmm_count_entry_spec) }
qed (auto simp: pmm_count_entry_spec)


lemma pmm_count_pass_spec:
  "free_set (pmm_count_pass es s) = free_set s"
  "s_free_pages (pmm_count_pass es s) = s_free_pages s"
  "g_hhdm_offset (pmm_count_pass es s) = g_hhdm_offset s"
  "unat (s_total_pages (pmm_count_pass es s)) \<le> npages"
  "e \<in> set es \<Longrightarrow> min npages (unat (me_base e + me_length e) div 4096)
     \<le> unat (s_total_pages (pmm_count_pass es s))"
  "in_bounds s (pmm_count_pass es s)"
proof -
  show "in_bounds s (pmm_count_pass es s)"
    by (simp add: pmm_count_pass_def Let_def in_bounds_def count_entries_spec)
  have n: "unat (of_nat (BITMAP_QWORDS * 64) :: u64) = npages"
    unfolding qwords_pages by (rule unat_of_nat_lt) (simp add: const_defs)
  show "free_set (pmm_count_pass es s) = free_set s"
    by (simp add: pmm_count_pass_def Let_def free_set_def page_free_def count_entries_spec)
  show "s_free_pages (pmm_count_pass es s) = s_free_pages s"
    "g_hhdm_offset (pmm_count_pass es s) = g_hhdm_offset s"
    by (simp_all add: pmm_count_pass_def Let_def count_entries_spec)
  show "unat (s_total_pages (pmm_count_pass es s)) \<le> npages"
    using n by (auto simp: pmm_count_pass_def Let_def word_less_nat_alt not_less)
  show "min npages (unat (me_base e + me_length e) div 4096)
     \<le> unat (s_total_pages (pmm_count_pass es s))" if "e \<in> set es"
    using count_entries_spec(5) [OF that, of s] n
    by (auto simp: pmm_count_pass_def Let_def word_le_nat_alt unat_div)
qed

lemma pmm_init_spec:
  obtains s' where "pmm_init off es s = Some s'"
    "free_set s' = (\<Union>e \<in> set (filter usable es). entry_pages e) - {..<256}"
    "s_free_pages s' = s_free_pages s
       + of_nat (\<Sum>e \<leftarrow> filter usable es. card (entry_pages e))
       - of_nat (card ((\<Union>e \<in> set (filter usable es). entry_pages e) \<inter> {..<256}))"
    "g_hhdm_offset s' = off"
    "s_total_pages s' = s_total_pages (pmm_count_pass es (pmm_clear_bitmap (s\<lparr>g_hhdm_offset := off\<rparr>)))"
    "in_bounds s s'"
proof -
  define t where "t = pmm_count_pass es (pmm_clear_bitmap (s\<lparr>g_hhdm_offset := off\<rparr>))"
  obtain u where u: "mark_usable es t = Some u"
     "grows t (\<Union>e \<in> set (filter usable es). entry_pages e)
       (\<Sum>e \<leftarrow> filter usable es. card (entry_pages e)) u"
    using mark_usable_grows by blast
  have t: "free_set t = {}" "s_free_pages t = s_free_pages s" "g_hhdm_offset t = off"
    by (simp_all add: t_def pmm_count_pass_spec pmm_clear_bitmap_spec)
  have r: "256 \<le> npages" by (simp add: const_defs)
  have "in_bounds s t"
    using pmm_clear_bitmap_spec(5) [of "s\<lparr>g_hhdm_offset := off\<rparr>"]
      pmm_count_pass_spec(6) [of "pmm_clear_bitmap (s\<lparr>g_hhdm_offset := off\<rparr>)" es]
    by (simp add: t_def in_bounds_def)
  then have "in_bounds s (fold reserve_page [0..<256] u)"
    using u(2) reserve_pages_spec [OF r, of u] by (simp add: grows_def in_bounds_def)
  have "pmm_init off es s = Some (fold reserve_page [0..<256] u)"
    using u(1) by (simp add: pmm_init_def Let_def t_def)
  then show thesis
    by (rule that [OF _ _ _ _ _ \<open>in_bounds s (fold reserve_page [0..<256] u)\<close>]) (use u(2) t reserve_pages_spec [OF r, of u] in \<open>simp_all add: grows_def t_def\<close>)
qed

text \<open>
  What the Limine protocol documents of the map: an entry does not reach the end of the address
  space, and usable entries do not overlap.
\<close>

definition memmap_entry_ok :: "memmap_entry \<Rightarrow> bool" where
  "memmap_entry_ok e \<longleftrightarrow> unat (me_base e) + unat (me_length e) + 4095 < 2 ^ 64"

definition entry_end :: "memmap_entry \<Rightarrow> nat" where
  "entry_end e = unat (me_base e) + unat (me_length e)"

definition memmap_ok :: "memmap_entry list \<Rightarrow> bool" where
  "memmap_ok es \<longleftrightarrow> list_all memmap_entry_ok es \<and>
     sorted_wrt (\<lambda>e f. entry_end e \<le> unat (me_base f) \<or> entry_end f \<le> unat (me_base e))
       (filter usable es)"

lemma entry_pages_iff:
  assumes "memmap_entry_ok e"
  shows "p \<in> entry_pages e \<longleftrightarrow>
    p < npages \<and> unat (me_base e) \<le> 4096 * p \<and> 4096 * p + 4096 \<le> entry_end e"
proof -
  have "unat (me_base e + me_length e) = entry_end e"
    using assms unfolding entry_end_def by (intro unat_add_lt) (simp add: memmap_entry_ok_def)
  moreover have "unat (me_base e + 0xFFF) = unat (me_base e) + 4095"
    using assms by (subst unat_add_lt) (simp_all add: memmap_entry_ok_def)
  moreover have "(unat (me_base e) + 4095) div 4096 \<le> p \<longleftrightarrow> unat (me_base e) \<le> 4096 * p"
    by linarith
  moreover have "p < entry_end e div 4096 \<longleftrightarrow> 4096 * p + 4096 \<le> entry_end e"
    by linarith
  ultimately show ?thesis by (auto simp: entry_pages_def)
qed

lemma finite_entry_pages [simp]: "finite (entry_pages e)"
  by (simp add: entry_pages_def)

lemma card_disjoint_entries:
  assumes "sorted_wrt (\<lambda>e f. entry_pages e \<inter> entry_pages f = {}) es"
  shows "card (\<Union>e \<in> set es. entry_pages e) = (\<Sum>e \<leftarrow> es. card (entry_pages e))"
  using assms
proof (induction es)
  case (Cons e es)
  then have "entry_pages e \<inter> (\<Union>f \<in> set es. entry_pages f) = {}" by auto
  with Cons show ?case by (simp add: card_Un_disjoint)
qed simp

lemma memmap_ok_disjoint:
  assumes "memmap_ok es"
  shows "sorted_wrt (\<lambda>e f. entry_pages e \<inter> entry_pages f = {}) (filter usable es)"
proof -
  have ok: "memmap_entry_ok e" if "e \<in> set (filter usable es)" for e
    using assms that by (auto simp: memmap_ok_def list_all_iff)
  show ?thesis
  proof (rule sorted_wrt_mono_rel)
    show "sorted_wrt (\<lambda>e f. entry_end e \<le> unat (me_base f) \<or> entry_end f \<le> unat (me_base e))
       (filter usable es)" using assms by (simp add: memmap_ok_def)
  qed (auto simp: entry_pages_iff [OF ok])
qed


section \<open>Invariant\<close>

text \<open>
  The counter is the number of set bits, no free page lies in the first megabyte (so page 0 is
  never handed out and a null result always means out of memory) and none lies beyond the
  recorded total.
\<close>

definition pmm_inv :: "pmm \<Rightarrow> bool" where
  [inv_defs]: "pmm_inv s \<longleftrightarrow> s_free_pages s = of_nat (card (free_set s))
     \<and> free_set s \<subseteq> {256..<unat (s_total_pages s)} \<and> unat (s_total_pages s) \<le> npages"

lemma pmm_take_spec:
  assumes "p \<in> free_set s"
  shows "free_set (pmm_take p s) = free_set s - {p}"
    "s_free_pages (pmm_take p s) = s_free_pages s - 1"
    "s_total_pages (pmm_take p s) = s_total_pages s"
    "g_hhdm_offset (pmm_take p s) = g_hhdm_offset s"
    "in_bounds s (pmm_take p s)"
proof -
  have p: "p < npages" using assms by (simp add: free_set_def)
  show "free_set (pmm_take p s) = free_set s - {p}" "in_bounds s (pmm_take p s)"
    using p by (simp_all add: pmm_take_def free_set_bit_clear unat_of_npage in_bounds_bit)
qed (simp_all add: pmm_take_def)

lemma pmm_inv_take:
  assumes "pmm_inv s" "p \<in> free_set s"
  shows "pmm_inv (pmm_take p s)"
proof -
  have "(of_nat (card (free_set s - {p})) :: u64) = of_nat (card (free_set s)) - 1"
    by (subst card_Suc_Diff1 [OF finite_free_set assms(2), symmetric]) simp
  with assms show ?thesis by (auto simp: inv_defs pmm_take_spec)
qed

lemma pmm_free_spec:
  assumes "unat a div 4096 < npages"
  shows "free_set (pmm_free a s) = insert (unat a div 4096) (free_set s)"
    "s_free_pages (pmm_free a s) = s_free_pages s + (if unat a div 4096 \<in> free_set s then 0 else 1)"
    "s_total_pages (pmm_free a s) = s_total_pages s"
    "g_hhdm_offset (pmm_free a s) = g_hhdm_offset s"
    "in_bounds s (pmm_free a s)"
proof -
  let ?p = "a div 4096"
  have u: "unat ?p = unat a div 4096" by (simp add: unat_div)
  have lt: "\<not> of_nat (BITMAP_QWORDS * 64) \<le> ?p"
    using assms unat_of_nat_lt [of npages, where 'a = 64] unfolding qwords_pages
    by (simp add: word_le_nat_alt u) (simp add: const_defs)
  have t: "bit_test ?p s \<longleftrightarrow> unat a div 4096 \<in> free_set s"
    using assms by (simp add: bit_test_iff u free_set_def)
  show "free_set (pmm_free a s) = insert (unat a div 4096) (free_set s)"
    "s_free_pages (pmm_free a s) = s_free_pages s + (if unat a div 4096 \<in> free_set s then 0 else 1)"
    "s_total_pages (pmm_free a s) = s_total_pages s"
    "g_hhdm_offset (pmm_free a s) = g_hhdm_offset s"
    "in_bounds s (pmm_free a s)"
    using lt t assms by (auto simp: pmm_free_def Let_def free_set_bit_set u in_bounds_bit)
qed

lemma pmm_inv_free:
  assumes "pmm_inv s" "256 \<le> unat a div 4096" "unat a div 4096 < unat (s_total_pages s)"
  shows "pmm_inv (pmm_free a s)"
proof -
  have "unat a div 4096 < npages" using assms by (auto simp: inv_defs)
  with assms show ?thesis by (auto simp: inv_defs pmm_free_spec card_insert_if)
qed

lemma unat_page_addr: "p < npages \<Longrightarrow> unat (of_nat p * 4096 :: u64) = p * 4096"
  by (subst of_nat_numeral [symmetric], subst of_nat_mult [symmetric], rule unat_of_nat_lt)
     (simp add: const_defs)

section \<open>The interface of a page allocator\<close>

text \<open>
  What the heap needs of the allocator below it: an allocation takes the least free page, fails
  with a null pointer exactly when there is none, and keeps the invariant.  The lemmas of the
  locale describe sequences of allocations.
\<close>

primrec alloc_seq :: "('s \<Rightarrow> u64 \<times> 's) \<Rightarrow> nat \<Rightarrow> 's \<Rightarrow> u64 list \<times> 's" where
  "alloc_seq alloc 0 s = ([], s)"
| "alloc_seq alloc (Suc n) s =
     (let (a, t) = alloc s; (as, u) = alloc_seq alloc n t in (a # as, u))"

locale page_allocator =
  fixes alloc :: "'s \<Rightarrow> u64 \<times> 's"
    and pages :: "'s \<Rightarrow> nat set"
    and inv :: "'s \<Rightarrow> bool"
  assumes pages_finite: "finite (pages s)"
    and pages_range: "inv s \<Longrightarrow> p \<in> pages s \<Longrightarrow> 0 < p \<and> p < npages"
    and alloc_none: "inv s \<Longrightarrow> pages s = {} \<Longrightarrow> alloc s = (0, s)"
    and alloc_least: "inv s \<Longrightarrow> pages s \<noteq> {} \<Longrightarrow> fst (alloc s) = of_nat (Min (pages s)) * 4096"
    and alloc_pages: "inv s \<Longrightarrow> pages s \<noteq> {} \<Longrightarrow> pages (snd (alloc s)) = pages s - {Min (pages s)}"
    and alloc_inv: "inv s \<Longrightarrow> inv (snd (alloc s))"
begin

lemma alloc_null_iff: "inv s \<Longrightarrow> fst (alloc s) = 0 \<longleftrightarrow> pages s = {}"
proof
  assume "inv s" and null: "fst (alloc s) = 0"
  show "pages s = {}"
  proof (rule ccontr)
    assume ne: "pages s \<noteq> {}"
    then have "Min (pages s) \<in> pages s" by (simp add: pages_finite)
    with \<open>inv s\<close> have r: "0 < Min (pages s)" "Min (pages s) < npages"
      using pages_range by blast+
    have "unat (fst (alloc s)) = Min (pages s) * 4096"
      using alloc_least [OF \<open>inv s\<close> ne] unat_page_addr [OF r(2)] by simp
    with null r(1) show False by simp
  qed
qed (simp add: alloc_none)

lemma allocs_contiguous:
  assumes "inv s" "{p..<p + length xs} \<subseteq> pages s" "\<And>q. q \<in> pages s \<Longrightarrow> p \<le> q"
  shows "inv (fold (\<lambda>_ s. snd (alloc s)) xs s)
    \<and> pages (fold (\<lambda>_ s. snd (alloc s)) xs s) = pages s - {p..<p + length xs}"
  using assms
proof (induction xs arbitrary: s p)
  case (Cons x xs)
  then have mem: "p \<in> pages s" by auto
  then have ne: "pages s \<noteq> {}" by auto
  have Min: "Min (pages s) = p"
    using mem Cons.prems(3) pages_finite by (intro Min_eqI) auto
  let ?t = "snd (alloc s)"
  have t: "pages ?t = pages s - {p}"
    using alloc_pages [OF Cons.prems(1) ne] Min by simp
  have "inv (fold (\<lambda>_ s. snd (alloc s)) xs ?t)
    \<and> pages (fold (\<lambda>_ s. snd (alloc s)) xs ?t) = pages ?t - {Suc p..<Suc p + length xs}"
  proof (rule Cons.IH)
    show "inv ?t" using Cons.prems(1) by (rule alloc_inv)
    show "{Suc p..<Suc p + length xs} \<subseteq> pages ?t" using Cons.prems(2) t by auto
    show "Suc p \<le> q" if "q \<in> pages ?t" for q
      using that Cons.prems(3) [of q] t by auto
  qed
  moreover have "{p..<p + length (x # xs)} = insert p {Suc p..<Suc p + length xs}" by auto
  ultimately show ?case using t by auto
qed simp

lemma alloc_seq_spec:
  assumes "inv s" "n \<le> card (pages s)"
  shows "fst (alloc_seq alloc n s) = map (\<lambda>p. of_nat p * 4096) (take n (sorted_list_of_set (pages s)))
    \<and> pages (snd (alloc_seq alloc n s)) = pages s - set (take n (sorted_list_of_set (pages s)))
    \<and> inv (snd (alloc_seq alloc n s))"
  using assms
proof (induction n arbitrary: s)
  case (Suc n)
  then have ne: "pages s \<noteq> {}" by auto
  let ?m = "Min (pages s)" and ?t = "snd (alloc s)"
  have t: "pages ?t = pages s - {?m}" "inv ?t"
    using alloc_pages [OF Suc.prems(1) ne] alloc_inv [OF Suc.prems(1)] by auto
  have sl: "sorted_list_of_set (pages s) = ?m # sorted_list_of_set (pages ?t)"
    using sorted_list_of_set_nonempty [OF pages_finite ne] t(1) by simp
  have "n \<le> card (pages ?t)"
    using Suc.prems(2) t(1) ne by (simp add: card_Diff_singleton pages_finite)
  note IH = Suc.IH [OF t(2) this]
  show ?case
    using IH alloc_least [OF Suc.prems(1) ne] by (auto simp: sl t(1) split_beta)
qed simp

end

interpretation pmm: page_allocator pmm_alloc free_set pmm_inv
proof
  fix s p
  assume inv: "pmm_inv s"
  have Min: "Min (free_set s) \<in> free_set s" if "free_set s \<noteq> {}" using that by simp
  show "free_set s = {} \<Longrightarrow> pmm_alloc s = (0, s)" by (simp add: pmm_alloc_eq)
  show "p \<in> free_set s \<Longrightarrow> 0 < p \<and> p < npages"
    using inv by (auto simp: inv_defs free_set_def)
  show "free_set s \<noteq> {} \<Longrightarrow> fst (pmm_alloc s) = of_nat (Min (free_set s)) * 4096"
    by (simp add: pmm_alloc_eq)
  show "free_set s \<noteq> {} \<Longrightarrow> free_set (snd (pmm_alloc s)) = free_set s - {Min (free_set s)}"
    using Min by (simp add: pmm_alloc_eq pmm_take_spec)
  show "pmm_inv (snd (pmm_alloc s))"
    using inv Min by (simp add: pmm_alloc_eq pmm_inv_take)
qed simp

section \<open>Sample states\<close>

definition demo_memmap :: "memmap_entry list" where
  "demo_memmap =
     [\<lparr>me_base = 0, me_length = 0xA0000, me_type = 0\<rparr>,
      \<lparr>me_base = 0xA0000, me_length = 0x60000, me_type = 1\<rparr>,
      \<lparr>me_base = 0x100000, me_length = 0x2000, me_type = 0\<rparr>]"

lemma memmap_ok_demo: "memmap_ok demo_memmap"
  by (simp add: memmap_ok_def demo_memmap_def memmap_entry_ok_def usable_def entry_end_def const_defs)

definition demo_pmm :: pmm where
  "demo_pmm = \<lparr>bitmap = (\<lambda>_. 0)(5 := 6), s_total_pages = 400, s_free_pages = 2, g_hhdm_offset = 0\<rparr>"

lemma free_set_demo: "free_set demo_pmm = {321, 322}"
proof -
  have "p \<in> free_set demo_pmm \<longleftrightarrow> p div 64 = 5 \<and> bit (6 :: u64) (p mod 64)" for p
    by (auto simp: free_set_def page_free_def demo_pmm_def const_defs)
  moreover have "bit (6 :: u64) k \<longleftrightarrow> k = 1 \<or> k = 2" for k
  proof (cases "k < 3")
    case True
    then have "k = 0 \<or> k = 1 \<or> k = 2" by arith
    then show ?thesis by auto
  next
    case False
    then have "bit (6 :: u64) k = bit (drop_bit 3 (6 :: u64)) (k - 3)" by (simp only: bit_drop_bit_eq) simp
    with False show ?thesis by simp
  qed
  moreover have "p div 64 = 5 \<and> (p mod 64 = 1 \<or> p mod 64 = 2) \<longleftrightarrow> p = 321 \<or> p = (322 :: nat)" for p
  proof
    assume "p div 64 = 5 \<and> (p mod 64 = 1 \<or> p mod 64 = 2)"
    moreover have "p = p div 64 * 64 + p mod 64" by (simp only: div_mult_mod_eq)
    ultimately have "p = 5 * 64 + 1 \<or> p = 5 * 64 + 2" by metis
    then show "p = 321 \<or> p = 322" by simp
  qed auto
  ultimately show ?thesis by (intro set_eqI) (simp only: insert_iff empty_iff simp_thms)
qed

lemma pmm_inv_demo: "pmm_inv demo_pmm"
  using free_set_demo by (simp add: inv_defs const_defs) (simp add: demo_pmm_def)

lemma pmm_init_ready:
  assumes "memmap_ok es"
  shows "\<exists>s. pmm_init off es pmm_boot = Some s \<and> pmm_inv s \<and> g_hhdm_offset s = off \<and>
    (\<forall>p. p \<in> free_set s \<longleftrightarrow> 256 \<le> p \<and> p < npages \<and>
       (\<exists>e \<in> set es. me_type e = LIMINE_MEMMAP_USABLE \<and>
          unat (me_base e) \<le> 4096 * p \<and> 4096 * p + 4096 \<le> entry_end e))"
proof -
  let ?U = "\<Union>e \<in> set (filter usable es). entry_pages e"
  obtain s where s: "pmm_init off es pmm_boot = Some s" "free_set s = ?U - {..<256}"
    "s_free_pages s = s_free_pages pmm_boot
       + of_nat (\<Sum>e \<leftarrow> filter usable es. card (entry_pages e)) - of_nat (card (?U \<inter> {..<256}))"
    "g_hhdm_offset s = off"
    "s_total_pages s = s_total_pages (pmm_count_pass es (pmm_clear_bitmap (pmm_boot\<lparr>g_hhdm_offset := off\<rparr>)))"
    by (rule pmm_init_spec)
  have ok: "e \<in> set es \<Longrightarrow> memmap_entry_ok e" for e
    using assms by (auto simp: memmap_ok_def list_all_iff)
  have "finite ?U" by simp
  then have "card ?U = card (?U - {..<256}) + card (?U \<inter> {..<256})"
    by (subst card_Un_disjoint [symmetric]) (auto intro!: arg_cong [where f = card])
  then have sum: "(\<Sum>e \<leftarrow> filter usable es. card (entry_pages e))
      = card (free_set s) + card (?U \<inter> {..<256})"
    using s(2) card_disjoint_entries [OF memmap_ok_disjoint [OF assms]] by simp
  have "s_free_pages s = of_nat (card (free_set s))"
    unfolding s(3) sum by (simp add: pmm_boot_def)
  moreover have "free_set s \<subseteq> {256..<unat (s_total_pages s)}"
  proof
    fix p assume p: "p \<in> free_set s"
    then obtain e where e: "e \<in> set es" "p \<in> entry_pages e" "256 \<le> p" using s(2) by auto
    have "p < min npages (unat (me_base e + me_length e) div 4096)"
      using e(2) by (simp add: entry_pages_def)
    also have "\<dots> \<le> unat (s_total_pages s)" unfolding s(5) by (rule pmm_count_pass_spec(5) [OF e(1)])
    finally show "p \<in> {256..<unat (s_total_pages s)}" using e(3) by simp
  qed
  moreover have "unat (s_total_pages s) \<le> npages" by (simp add: s(5) pmm_count_pass_spec)
  ultimately have "pmm_inv s" by (simp add: inv_defs)
  with s(1,2,4) show ?thesis by (auto simp: entry_pages_iff ok usable_def)
qed

section \<open>Properties\<close>

text \<open>
  Claim C16. Initialisation from a memory map that satisfies Limine's guarantees returns, and the
  free pages are exactly the pages of the managed 4 GB that lie wholly inside a usable entry and
  above the first megabyte; the free-page counter agrees with the bitmap.
\<close>

theorem pmm_init_correct:
  assumes "memmap_ok es"
  shows "\<exists>s. pmm_init off es pmm_boot = Some s \<and> pmm_inv s \<and> g_hhdm_offset s = off \<and>
    (\<forall>p. p \<in> free_set s \<longleftrightarrow> 256 \<le> p \<and> p < npages \<and>
       (\<exists>e \<in> set es. me_type e = LIMINE_MEMMAP_USABLE \<and>
          unat (me_base e) \<le> 4096 * p \<and> 4096 * p + 4096 \<le> entry_end e))"
  by (rule pmm_init_ready [OF assms])


theorem pmm_init_correct_witness:
  "memmap_ok demo_memmap \<and> (\<exists>s. pmm_init 0xFFFF800000000000 demo_memmap pmm_boot = Some s \<and>
     pmm_inv s \<and> 256 \<in> free_set s \<and> 257 \<in> free_set s \<and> 258 \<notin> free_set s \<and> 5 \<notin> free_set s)"
proof -
  obtain s where "pmm_init 0xFFFF800000000000 demo_memmap pmm_boot = Some s" "pmm_inv s"
    "\<And>p. p \<in> free_set s \<longleftrightarrow> 256 \<le> p \<and> p < npages \<and>
       (\<exists>e \<in> set demo_memmap. me_type e = LIMINE_MEMMAP_USABLE \<and>
          unat (me_base e) \<le> 4096 * p \<and> 4096 * p + 4096 \<le> entry_end e)"
    using pmm_init_correct [OF memmap_ok_demo] by blast
  then show ?thesis
    using memmap_ok_demo by (auto simp: demo_memmap_def const_defs entry_end_def)
qed

text \<open>
  Claim C25. Allocation returns the lowest free page and takes it out of the bitmap, and it
  returns the null pointer, with the state unchanged, exactly when no page is free.
\<close>

theorem pmm_alloc_correct:
  assumes "pmm_inv s"
  shows "if free_set s = {} then pmm_alloc s = (0, s)
    else let (a, s') = pmm_alloc s; p = Min (free_set s) in
      a \<noteq> 0 \<and> unat a = 4096 * p \<and> free_set s' = free_set s - {p} \<and>
      s_free_pages s' = s_free_pages s - 1 \<and> pmm_inv s'"
proof (cases "free_set s = {}")
  case False
  then have m: "Min (free_set s) \<in> free_set s" by simp
  then have "Min (free_set s) < npages" by (simp add: free_set_def)
  with False m assms show ?thesis
    using pmm.alloc_null_iff [OF assms]
    by (simp add: pmm_alloc_eq unat_page_addr pmm_take_spec pmm_inv_take)
qed (simp add: pmm_alloc_eq)


theorem pmm_alloc_correct_witness:
  "pmm_inv demo_pmm \<and> unat (fst (pmm_alloc demo_pmm)) = 4096 * 321 \<and>
   free_set (snd (pmm_alloc demo_pmm)) = {322}"
  using pmm_alloc_correct [OF pmm_inv_demo] pmm_inv_demo
  by (auto simp: free_set_demo split: prod.splits)

text \<open>
  Freeing a page that was just allocated restores the whole allocator state, bitmap and
  counter included.
\<close>

lemma pmm_alloc_free_roundtrip:
  assumes "pmm_alloc s = (a, s')" "a \<noteq> 0"
  shows "pmm_free a s' = s"
proof -
  let ?p = "Min (free_set s)"
  have ne: "free_set s \<noteq> {}" using assms by (auto simp: pmm_alloc_eq split: if_splits)
  then have m: "?p \<in> free_set s" by simp
  then have lt: "?p < npages" by (simp add: free_set_def)
  have a: "a = of_nat ?p * 4096" "s' = pmm_take ?p s"
    using assms(1) ne by (auto simp: pmm_alloc_eq)
  have pg: "a div 4096 = of_nat ?p"
    by (rule word_unat_eq_iff [THEN iffD2]) (simp add: a(1) unat_div unat_page_addr [OF lt] unat_of_npage [OF lt])
  have lt': "\<not> of_nat (BITMAP_QWORDS * 64) \<le> (of_nat ?p :: u64)"
    using lt unat_of_nat_lt [of npages, where 'a = 64] unfolding qwords_pages
    by (simp add: word_le_nat_alt unat_of_npage) (simp add: const_defs)
  have "\<not> bit_test (of_nat ?p) s'"
    using lt by (simp add: bit_test_iff unat_of_npage a(2) pmm_take_def page_free_bit_clear)
  then have "pmm_free a s' = (bit_set (of_nat ?p) s')\<lparr>s_free_pages := s_free_pages s' + 1\<rparr>"
    using lt' by (simp add: pmm_free_def pg Let_def)
  moreover have "w AND NOT (push_bit k 1) OR push_bit k 1 = w" if "bit w k" for w :: u64 and k
    using that by (auto intro!: bit_word_eqI simp: bit_simps)
  ultimately show ?thesis
    using m lt by (auto simp: a(2) pmm_take_def bit_set_def bit_clear_def free_set_def page_free_def
        unat_div unat_mod unat_of_npage intro!: pmm.equality ext)
qed

text \<open>
  A run of successive allocations, as long as pages are left, hands out pairwise
  distinct, non-null, page-aligned addresses: no page is given out twice.
\<close>

lemma pmm_allocs_distinct:
  assumes "pmm_inv s" "n \<le> card (free_set s)"
  shows "let (as, s') = alloc_seq pmm_alloc n s in
    length as = n \<and> distinct as \<and> (\<forall>a \<in> set as. a \<noteq> 0 \<and> 4096 dvd unat a) \<and>
    card (free_set s') = card (free_set s) - n \<and> pmm_inv s'"
proof -
  let ?ps = "take n (sorted_list_of_set (free_set s))"
  note seq = pmm.alloc_seq_spec [OF assms]
  have len: "length ?ps = n" using assms(2) by simp
  have sub: "set ?ps \<subseteq> free_set s" using set_take_subset by fastforce
  have range: "0 < p \<and> p < npages" if "p \<in> set ?ps" for p
    using pmm.pages_range [OF assms(1)] sub that by blast
  have "inj_on (\<lambda>p. of_nat p * 4096 :: u64) (set ?ps)"
    by (rule inj_onI) (use range unat_page_addr in \<open>metis mult_right_cancel zero_neq_numeral\<close>)
  then have "distinct (map (\<lambda>p. of_nat p * 4096 :: u64) ?ps)" by (simp add: distinct_map)
  moreover have "(of_nat p * 4096 :: u64) \<noteq> 0 \<and> 4096 dvd unat (of_nat p * 4096 :: u64)"
    if "p \<in> set ?ps" for p
    using range [OF that] unat_page_addr [of p] by (auto simp flip: unat_eq_zero)
  moreover have "card (free_set s - set ?ps) = card (free_set s) - n"
    using sub len by (simp add: card_Diff_subset distinct_card)
  ultimately show ?thesis using seq len by (auto simp: split_beta)
qed

text \<open>
  Claim C34. No operation of the allocator writes outside the bitmap array, whatever the memory
  map, the state and the address passed to \<open>pmm_free\<close>.
\<close>

theorem pmm_in_bounds:
  "(\<forall>s'. pmm_init off es s = Some s' \<longrightarrow> in_bounds s s') \<and> pmm_init off es s \<noteq> None \<and>
   in_bounds s (snd (pmm_alloc s)) \<and> in_bounds s (pmm_free a s)"
proof -
  obtain s' where "pmm_init off es s = Some s'" "in_bounds s s'" by (rule pmm_init_spec)
  moreover have "in_bounds s (snd (pmm_alloc s))" by (simp add: pmm_alloc_eq pmm_take_spec)
  moreover have "in_bounds s (pmm_free a s)"
  proof (cases "unat a div 4096 < npages")
    case False
    then have "of_nat (BITMAP_QWORDS * 64) \<le> a div 4096"
      using unat_of_nat_lt [of npages, where 'a = 64] unfolding qwords_pages
      by (simp add: word_le_nat_alt unat_div) (simp add: const_defs)
    then show ?thesis by (simp add: pmm_free_def)
  qed (simp add: pmm_free_spec)
  ultimately show ?thesis by simp
qed

theorem pmm_in_bounds_witness:
  "\<exists>s'. pmm_init 0 demo_memmap demo_pmm = Some s' \<and> in_bounds demo_pmm s'"
  using pmm_in_bounds [of 0 demo_memmap demo_pmm 0] by auto

end
