(* ===== verification/Heap.thy ===== *)
theory Heap
  imports Memory Pmm
begin

section \<open>The kernel heap\<close>

text \<open>
  The allocator of \<open>kernel/mm/heap.cpp\<close>.  Its blocks live in memory: a 32-byte \<open>HeapHeader\<close>
  followed by the payload.  The model therefore works on the byte memory of theory \<open>Memory\<close>:
  \<open>hdr_at\<close> decodes the header at an address with the field offsets of the System V ABI (magic 0,
  size 4, free 8, next 16, prev 24), and \<open>set_magic\<close> \dots \<open>set_prev\<close> are the assignments to one
  field.  Each operation of the source is one definition; the loop of \<open>kmalloc\<close> follows \<open>next\<close>
  pointers and may not end on a corrupted list, so it is a partial function.

  The second part states the abstract heap, a list of blocks (payload size, free flag) that tile
  the pool, what it means that the headers in memory encode such a list (\<open>chain\<close>), and that the
  list surgery of \<open>merge_next\<close> and of the split in \<open>kmalloc\<close> realises the abstract step.
\<close>

subsection \<open>Data and operations\<close>

definition HEAP_MAGIC :: u32 where
  [const_defs]: "HEAP_MAGIC = 0xDEADBEEF"

definition HEAP_PAGES :: u32 where
  [const_defs]: "HEAP_PAGES = 64"

definition MIN_SPLIT :: u64 where
  [const_defs]: "MIN_SPLIT = 32"

definition SIZEOF_HEADER :: u64 where
  [const_defs]: "SIZEOF_HEADER = 32"

record HeapHeader =
  magic :: u32
  hsize :: u32
  hfree :: bool
  hnext :: u64
  hprev :: u64

record heap =
  hmem :: memory
  s_head :: u64

definition hdr_at :: "memory \<Rightarrow> u64 \<Rightarrow> HeapHeader" where
  "hdr_at m a = \<lparr>magic = load32 m a, hsize = load32 m (a + 4), hfree = load_bool m (a + 8),
     hnext = load64 m (a + 16), hprev = load64 m (a + 24)\<rparr>"

definition set_magic :: "u64 \<Rightarrow> u32 \<Rightarrow> memory \<Rightarrow> memory" where
  "set_magic a v m = store32 m a v"

definition set_size :: "u64 \<Rightarrow> u32 \<Rightarrow> memory \<Rightarrow> memory" where
  "set_size a v m = store32 m (a + 4) v"

definition set_free :: "u64 \<Rightarrow> bool \<Rightarrow> memory \<Rightarrow> memory" where
  "set_free a v m = store_bool m (a + 8) v"

definition set_next :: "u64 \<Rightarrow> u64 \<Rightarrow> memory \<Rightarrow> memory" where
  "set_next a v m = store64 m (a + 16) v"

definition set_prev :: "u64 \<Rightarrow> u64 \<Rightarrow> memory \<Rightarrow> memory" where
  "set_prev a v m = store64 m (a + 24) v"

definition merge_next :: "u64 \<Rightarrow> memory \<Rightarrow> memory" where
  "merge_next b m =
     (let h = hdr_at m b in
      if b = 0 \<or> hnext h = 0 \<or> \<not> hfree h \<or> \<not> hfree (hdr_at m (hnext h)) then m
      else let m1 = set_size b (ucast (ucast (hsize h) + (SIZEOF_HEADER + ucast (hsize (hdr_at m (hnext h)))))) m;
               m2 = set_next b (hnext (hdr_at m1 (hnext (hdr_at m1 b)))) m1;
               n = hnext (hdr_at m2 b)
           in if n \<noteq> 0 then set_prev n b m2 else m2)"

definition heap_init :: "pmm \<times> heap \<Rightarrow> pmm \<times> heap" where
  "heap_init st =
     (let (p, h) = st; (first_phys, p) = pmm_alloc p in
      if first_phys = 0 then (p, h)
      else let p = fold (\<lambda>_ p. snd (pmm_alloc p)) [1..<unat HEAP_PAGES] p;
               a = phys_to_virt p first_phys;
               m = hmem h;
               m = set_magic a HEAP_MAGIC m;
               m = set_size a (ucast (ucast (HEAP_PAGES * 4096) - SIZEOF_HEADER)) m;
               m = set_free a True m;
               m = set_next a 0 m;
               m = set_prev a 0 m
           in (p, h\<lparr>hmem := m, s_head := a\<rparr>))"

definition kmalloc_split :: "u64 \<Rightarrow> u64 \<Rightarrow> memory \<Rightarrow> memory" where
  "kmalloc_split sz cur m =
     (let next = cur + SIZEOF_HEADER + sz;
          m = set_magic next HEAP_MAGIC m;
          m = set_size next (ucast (ucast (hsize (hdr_at m cur)) - sz - SIZEOF_HEADER)) m;
          m = set_free next True m;
          m = set_next next (hnext (hdr_at m cur)) m;
          m = set_prev next cur m;
          m = (if hnext (hdr_at m cur) \<noteq> 0 then set_prev (hnext (hdr_at m cur)) next m else m);
          m = set_next cur next m
      in set_size cur (ucast sz) m)"

partial_function (option) kmalloc_loop :: "u64 \<Rightarrow> u64 \<Rightarrow> memory \<Rightarrow> (u64 \<times> memory) option" where
  "kmalloc_loop sz cur m =
     (if cur = 0 then Some (0, m)
      else let h = hdr_at m cur in
        if magic h \<noteq> HEAP_MAGIC then Some (0, m)
        else if hfree h \<and> sz \<le> ucast (hsize h)
        then let m' = (if sz + SIZEOF_HEADER + MIN_SPLIT \<le> ucast (hsize h)
                       then kmalloc_split sz cur m else m)
             in Some (cur + SIZEOF_HEADER, set_free cur False m')
        else kmalloc_loop sz (hnext h) m)"

definition kmalloc :: "u64 \<Rightarrow> heap \<Rightarrow> (u64 \<times> heap) option" where
  "kmalloc sz h =
     (if sz = 0 then Some (0, h)
      else let sz = (sz + 7) AND NOT 7
           in map_option (\<lambda>(p, m). (p, h\<lparr>hmem := m\<rparr>)) (kmalloc_loop sz (s_head h) (hmem h)))"

definition kfree :: "u64 \<Rightarrow> heap \<Rightarrow> heap" where
  "kfree ptr h =
     (if ptr = 0 then h
      else let hdr = ptr - SIZEOF_HEADER; m = hmem h in
        if magic (hdr_at m hdr) \<noteq> HEAP_MAGIC \<or> hfree (hdr_at m hdr) then h
        else let m = set_free hdr True m;
                 m = merge_next hdr m;
                 m = (if hprev (hdr_at m hdr) \<noteq> 0 then merge_next (hprev (hdr_at m hdr)) m else m)
             in h\<lparr>hmem := m\<rparr>)"

definition kzalloc :: "u64 \<Rightarrow> heap \<Rightarrow> (u64 \<times> heap) option" where
  "kzalloc sz h =
     Option.bind (kmalloc sz h) (\<lambda>(p, h').
       if p = 0 then Some (0, h')
       else Some (p, h'\<lparr>hmem := zero_bytes p (unat sz) (hmem h')\<rparr>))"

subsection \<open>Headers as records\<close>

lemma field_spans:
  "span a 4 \<subseteq> span a 32" "span (a + 4) 4 \<subseteq> span a 32" "span (a + 8) 1 \<subseteq> span a 32"
  "span (a + 16) 8 \<subseteq> span a 32" "span (a + 24) 8 \<subseteq> span a 32"
  using span_offset [of 4 4 32 a] span_offset [of 8 1 32 a] span_offset [of 16 8 32 a]
    span_offset [of 24 8 32 a] span_mono [of 4 32 a] by simp_all

lemma hdr_at_cong:
  assumes "\<And>x. x \<in> span a 32 \<Longrightarrow> m' x = m x"
  shows "hdr_at m' a = hdr_at m a"
proof -
  have "load32 m' a = load32 m a" "load32 m' (a + 4) = load32 m (a + 4)"
    "load_bool m' (a + 8) = load_bool m (a + 8)" "load64 m' (a + 16) = load64 m (a + 16)"
    "load64 m' (a + 24) = load64 m (a + 24)"
    using field_spans [of a] assms by (auto intro!: load_cong)
  then show ?thesis by (simp add: hdr_at_def)
qed

lemma set_field_other [frame_simps]:
  assumes "x \<notin> span a 32"
  shows "set_magic a v m x = m x" "set_size a v m x = m x" "set_free a b m x = m x"
    "set_next a w m x = m x" "set_prev a w m x = m x"
  using assms field_spans [of a]
  by (auto simp: set_magic_def set_size_def set_free_def set_next_def set_prev_def
      intro!: store_other)

lemma hdr_at_set_same [simp]:
  "hdr_at (set_magic a v m) a = (hdr_at m a)\<lparr>magic := v\<rparr>"
  "hdr_at (set_size a v m) a = (hdr_at m a)\<lparr>hsize := v\<rparr>"
  "hdr_at (set_free a b m) a = (hdr_at m a)\<lparr>hfree := b\<rparr>"
  "hdr_at (set_next a w m) a = (hdr_at m a)\<lparr>hnext := w\<rparr>"
  "hdr_at (set_prev a w m) a = (hdr_at m a)\<lparr>hprev := w\<rparr>"
  by (simp_all add: hdr_at_def set_magic_def set_size_def set_free_def set_next_def set_prev_def
      load_store_disjoint span_fields_disjoint)

lemma hdr_at_set_other:
  assumes "span b 32 \<inter> span a 32 = {}"
  shows "hdr_at (set_magic a v m) b = hdr_at m b" "hdr_at (set_size a v m) b = hdr_at m b"
    "hdr_at (set_free a f m) b = hdr_at m b" "hdr_at (set_next a w m) b = hdr_at m b"
    "hdr_at (set_prev a w m) b = hdr_at m b"
  using assms by (auto intro!: hdr_at_cong set_field_other)


subsection \<open>The abstract heap and its encoding\<close>

type_synonym block = "nat \<times> bool"

fun extent :: "block list \<Rightarrow> nat" where
  "extent [] = 0"
| "extent ((n, f) # bs) = 32 + n + extent bs"

fun abs_malloc :: "nat \<Rightarrow> block list \<Rightarrow> (nat \<times> block list) option" where
  "abs_malloc n [] = None"
| "abs_malloc n ((s, f) # bs) =
     (if f \<and> n \<le> s
      then Some (0, if n + 64 \<le> s then (n, False) # (s - n - 32, True) # bs else (s, False) # bs)
      else map_option (\<lambda>(off, bs'). (off + 32 + s, (s, f) # bs')) (abs_malloc n bs))"

fun merge_head :: "block list \<Rightarrow> block list" where
  "merge_head ((s1, True) # (s2, True) # bs) = (s1 + 32 + s2, True) # bs"
| "merge_head bs = bs"

fun chain :: "memory \<Rightarrow> u64 \<Rightarrow> u64 \<Rightarrow> block list \<Rightarrow> u64 \<Rightarrow> bool" where
  "chain m p a [] e = True"
| "chain m p a ((s, f) # bs) e =
     (hdr_at m a = \<lparr>magic = HEAP_MAGIC, hsize = of_nat s, hfree = f,
        hnext = (if bs = [] then e else a + 32 + of_nat s), hprev = p\<rparr>
      \<and> chain m a (a + 32 + of_nat s) bs e)"

fun sysarea :: "u64 \<Rightarrow> block list \<Rightarrow> u64 set" where
  "sysarea a [] = {}"
| "sysarea a ((s, f) # bs) = span a (if f then 32 + s else 32) \<union> sysarea (a + 32 + of_nat s) bs"

definition fits :: "u64 \<Rightarrow> block list \<Rightarrow> bool" where
  "fits a bs \<longleftrightarrow> 0 < unat a \<and> unat a + extent bs < 2 ^ 64 \<and> extent bs < 2 ^ 32"

lemma unat_next:
  "unat a + 32 + s < 2 ^ 64 \<Longrightarrow> unat (a + 32 + of_nat s :: u64) = unat a + 32 + s"
  using unat_plus_nat [of a "32 + s"] by (simp add: add.assoc)

lemma fits_Cons:
  assumes "fits a ((s, f) # bs)"
  shows "fits (a + 32 + of_nat s) bs" "unat (a + 32 + of_nat s) = unat a + 32 + s" "s < 2 ^ 32"
    "a + 32 + of_nat s \<noteq> 0" "a \<noteq> 0"
proof -
  show *: "unat (a + 32 + of_nat s) = unat a + 32 + s"
    using assms by (intro unat_next) (simp add: fits_def)
  then show "a + 32 + of_nat s \<noteq> 0" by (auto simp del: unat_eq_zero simp flip: unat_eq_zero)
  show "fits (a + 32 + of_nat s) bs" "s < 2 ^ 32" "a \<noteq> 0" using assms * by (auto simp: fits_def)
qed

lemma sysarea_bounds:
  "fits a bs \<Longrightarrow> x \<in> sysarea a bs \<Longrightarrow> unat a \<le> unat x \<and> unat x < unat a + extent bs"
proof (induction a bs rule: sysarea.induct)
  case (2 a s f bs)
  note f = fits_Cons [OF "2.prems"(1)]
  have "unat a + (if f then 32 + s else 32) \<le> 2 ^ 64" using "2.prems"(1) by (simp add: fits_def)
  with "2.IH" [OF f(1)] f(2) "2.prems"(2) show ?case
    by (auto simp: in_span_iff split: if_splits)
qed simp

lemma header_in_sysarea: "span a 32 \<subseteq> sysarea a (b # bs)"
  by (cases b) (auto simp: span_def)

lemma chain_cong:
  "(\<And>x. x \<in> sysarea a bs \<Longrightarrow> m' x = m x) \<Longrightarrow> chain m' p a bs e = chain m p a bs e"
proof (induction m p a bs e rule: chain.induct)
  case (2 m p a s f bs e)
  have "hdr_at m' a = hdr_at m a"
    by (rule hdr_at_cong) (use "2.prems" header_in_sysarea in blast)
  moreover have "chain m' a (a + 32 + of_nat s) bs e = chain m a (a + 32 + of_nat s) bs e"
    by (rule "2.IH") (use "2.prems" in auto)
  ultimately show ?case by simp
qed simp

lemma header_tail_disjoint:
  assumes "fits a ((s, f) # bs)" "x \<in> span a 32"
  shows "x \<notin> sysarea (a + 32 + of_nat s) bs"
proof
  assume "x \<in> sysarea (a + 32 + of_nat s) bs"
  with sysarea_bounds [OF fits_Cons(1) [OF assms(1)]] fits_Cons(2) [OF assms(1)]
  have "unat a + 32 \<le> unat x" by fastforce
  moreover have "unat a + 32 \<le> 2 ^ 64" using assms(1) by (simp add: fits_def)
  ultimately show False using assms(2) by (simp add: in_span_iff)
qed

lemma chain_set_prev:
  assumes "chain m p a (b # bs) e" "fits a (b # bs)"
  shows "chain (set_prev a q m) q a (b # bs) e"
proof -
  obtain s f where b: "b = (s, f)" by (cases b)
  have "chain (set_prev a q m) a (a + 32 + of_nat s) bs e = chain m a (a + 32 + of_nat s) bs e"
    by (rule chain_cong) (use assms(2) header_tail_disjoint b in \<open>blast intro: set_field_other\<close>)
  with assms(1) show ?thesis by (simp add: b)
qed

lemma merge_size:
  "(ucast (ucast (of_nat s1 :: u32) + (32 + ucast (of_nat s2 :: u32)) :: u64) :: u32) = of_nat (s1 + 32 + s2)"
  by (rule word_unat_eq_iff [THEN iffD2],
      simp add: unat_word_ariths unsigned_ucast_eq unat_of_nat take_bit_eq_mod mod_simps,
      metis add.assoc mod_add_right_eq)

lemma merge_next_skip:
  assumes "chain m p a (b # bs) 0" "merge_head (b # bs) = b # bs"
  shows "merge_next a m = m"
proof (cases bs)
  case Nil
  with assms(1) show ?thesis by (cases b) (simp add: merge_next_def)
next
  case (Cons c bs')
  obtain s1 f1 s2 f2 where [simp]: "b = (s1, f1)" "c = (s2, f2)" by (cases b, cases c)
  have "\<not> (f1 \<and> f2)" using assms(2) Cons by auto
  with assms(1) Cons show ?thesis by (auto simp: merge_next_def Let_def)
qed

lemma merge_next_form:
  assumes ch: "chain m p a ((s1, True) # (s2, True) # bs) 0" and fit: "fits a ((s1, True) # (s2, True) # bs)"
    and e: "e = (if bs = [] then 0 else a + 32 + of_nat s1 + 32 + of_nat s2)"
    and m2: "m2 = set_next a e (set_size a (of_nat (s1 + 32 + s2)) m)"
  shows "merge_next a m = (if e \<noteq> 0 then set_prev e a m2 else m2)"
    "hdr_at m2 a = \<lparr>magic = HEAP_MAGIC, hsize = of_nat (s1 + 32 + s2), hfree = True, hnext = e, hprev = p\<rparr>"
    "x \<notin> span a 32 \<Longrightarrow> m2 x = m x"
proof -
  define n where "n = a + 32 + of_nat s1"
  note f1 = fits_Cons [OF fit]
  have n: "unat n = unat a + 32 + s1" "n \<noteq> 0" using f1 by (simp_all add: n_def)
  have dn: "span n 32 \<inter> span a 32 = {}"
    using n fit by (intro span_disjoint_le) (auto simp: fits_def)
  have hn: "hdr_at (set_size a v m) n = hdr_at m n" for v by (rule hdr_at_set_other(2) [OF dn])
  show "merge_next a m = (if e \<noteq> 0 then set_prev e a m2 else m2)"
    using ch n(2) f1(5) merge_size [of s1 s2]
    by (simp add: merge_next_def Let_def hn n_def [symmetric] e m2 SIZEOF_HEADER_def)
  show "hdr_at m2 a = \<lparr>magic = HEAP_MAGIC, hsize = of_nat (s1 + 32 + s2), hfree = True, hnext = e, hprev = p\<rparr>"
    using ch by (simp add: m2)
  show "m2 x = m x" if "x \<notin> span a 32" using that by (simp add: m2 set_field_other)
qed

lemma merge_next_join:
  assumes ch: "chain m p a ((s1, True) # (s2, True) # bs) 0"
    and fit: "fits a ((s1, True) # (s2, True) # bs)"
  shows "chain (merge_next a m) p a ((s1 + 32 + s2, True) # bs) 0"
proof -
  define n where "n = a + 32 + of_nat s1"
  define e where "e = (if bs = [] then 0 else n + 32 + of_nat s2)"
  define m2 where "m2 = set_next a e (set_size a (of_nat (s1 + 32 + s2)) m)"
  note F = merge_next_form [OF ch fit e_def [unfolded n_def] m2_def]
  note f1 = fits_Cons [OF fit] and f2 = fits_Cons [OF fits_Cons(1) [OF fit]]
  have n: "unat n = unat a + 32 + s1" "n \<noteq> 0" using f1 by (simp_all add: n_def)
  have e_eq: "n + 32 + of_nat s2 = a + 32 + of_nat (s1 + 32 + s2)" by (simp add: n_def)
  have ue: "unat (n + 32 + of_nat s2) = unat n + 32 + s2" "n + 32 + of_nat s2 \<noteq> 0"
    using f2 by (simp_all add: n_def)
  show ?thesis
  proof (cases bs)
    case Nil
    then show ?thesis using F(1,2) by (simp add: e_def)
  next
    case (Cons c cs)
    have e: "e = n + 32 + of_nat s2" "e \<noteq> 0" using Cons ue by (simp_all add: e_def)
    have fe: "fits e bs" using f2(1) by (simp add: e n_def)
    have "unat e + 32 \<le> 2 ^ 64" using fe Cons by (cases c) (simp add: fits_def)
    then have da: "span a 32 \<inter> span e 32 = {}"
      using ue n e by (intro span_disjoint_le) auto
    have "chain m2 n e bs 0 = chain m n e bs 0"
    proof (rule chain_cong, rule F(3))
      fix x assume "x \<in> sysarea e bs"
      with sysarea_bounds [OF fe] ue n e have "unat a + 32 \<le> unat x" by fastforce
      moreover have "unat a + 32 \<le> 2 ^ 64" using fit by (simp add: fits_def)
      ultimately show "x \<notin> span a 32" by (simp add: in_span_iff)
    qed
    moreover have "chain m n e bs 0" using ch by (simp add: n_def e)
    ultimately have "chain (set_prev e a m2) a e bs 0"
      using chain_set_prev fe Cons by metis
    moreover have "hdr_at (set_prev e a m2) a = hdr_at m2 a" by (rule hdr_at_set_other(5) [OF da])
    ultimately show ?thesis using F(1,2) e e_eq Cons by simp
  qed
qed

lemma merge_next_other:
  assumes ch: "chain m p a ((s1, True) # (s2, True) # bs) 0" and fit: "fits a ((s1, True) # (s2, True) # bs)"
    and x: "x \<notin> sysarea a ((s1, True) # (s2, True) # bs)"
  shows "merge_next a m x = m x"
proof -
  define e where "e = (if bs = [] then 0 else a + 32 + of_nat s1 + 32 + of_nat s2)"
  define m2 where "m2 = set_next a e (set_size a (of_nat (s1 + 32 + s2)) m)"
  note F = merge_next_form [OF ch fit e_def m2_def]
  have "x \<notin> span a 32" using x header_in_sysarea by blast
  moreover have "x \<notin> span e 32" if "e \<noteq> 0"
  proof -
    have "bs \<noteq> []" "e = a + 32 + of_nat s1 + 32 + of_nat s2" using that by (auto simp: e_def split: if_splits)
    then show ?thesis using x header_in_sysarea [of e "hd bs" "tl bs"] by auto
  qed
  ultimately show ?thesis using F(3) [of x] by (simp add: F(1) set_field_other)
qed

lemma merge_next_chain:
  assumes "chain m p a (b # bs) 0" "fits a (b # bs)"
  shows "chain (merge_next a m) p a (merge_head (b # bs)) 0"
    "x \<notin> sysarea a (b # bs) \<Longrightarrow> merge_next a m x = m x"
proof -
  consider (join) s1 s2 cs where "b = (s1, True)" "bs = (s2, True) # cs"
    | (skip) "merge_head (b # bs) = b # bs"
    by (cases "b # bs" rule: merge_head.cases) auto
  then have "chain (merge_next a m) p a (merge_head (b # bs)) 0 \<and>
     (x \<notin> sysarea a (b # bs) \<longrightarrow> merge_next a m x = m x)"
  proof cases
    case join
    with assms merge_next_join [of m p a s1 s2 cs] merge_next_other [of m p a s1 s2 cs] show ?thesis by simp
  next
    case skip
    with assms merge_next_skip [of m p a b bs] show ?thesis by simp
  qed
  then show "chain (merge_next a m) p a (merge_head (b # bs)) 0"
    "x \<notin> sysarea a (b # bs) \<Longrightarrow> merge_next a m x = m x" by auto
qed


lemma unat_size_field: "s < 2 ^ 32 \<Longrightarrow> unat (ucast (of_nat s :: u32) :: u64) = s"
  by (simp add: unsigned_ucast_eq unat_of_nat take_bit_nat_eq_self)

lemma ucast_of_nat_32: "(ucast (of_nat k :: u64) :: u32) = of_nat k"
  by (rule word_unat_eq_iff [THEN iffD2]) (simp add: unsigned_ucast_eq unat_of_nat take_bit_eq_mod mod_mod_cancel)

lemma split_size:
  assumes "s < 2 ^ 32" "unat sz + 32 \<le> s"
  shows "(ucast (ucast (of_nat s :: u32) - sz - 32 :: u64) :: u32) = of_nat (s - unat sz - 32)"
    "(ucast sz :: u32) = of_nat (unat sz)"
proof -
  have "(ucast (of_nat s :: u32) - sz - 32 :: u64) = of_nat (s - unat sz - 32)"
  proof -
    have "(of_nat (s - unat sz - 32) :: u64) = of_nat s - of_nat (unat sz) - 32"
      using assms by (simp add: of_nat_diff)
    moreover have "(ucast (of_nat s :: u32) :: u64) = of_nat s"
      using unat_size_field [OF assms(1)] by (metis of_nat_unat_id)
    ultimately show ?thesis by simp
  qed
  then show "(ucast (ucast (of_nat s :: u32) - sz - 32 :: u64) :: u32) = of_nat (s - unat sz - 32)"
    by (simp only: ucast_of_nat_32)
  show "(ucast sz :: u32) = of_nat (unat sz)" by simp
qed

lemma split_regions:
  assumes fit: "fits a ((s, True) # bs)" and room: "unat sz + 64 \<le> s"
  defines "nx \<equiv> a + 32 + sz" and "e \<equiv> (if bs = [] then 0 else a + 32 + of_nat s)"
  shows "span a 32 \<inter> span nx 32 = {}" "e \<noteq> 0 \<Longrightarrow> span a 32 \<inter> span e 32 = {}" "e \<noteq> 0 \<Longrightarrow> span nx 32 \<inter> span e 32 = {}"
    and split_tail_out: "x \<in> sysarea (a + 32 + of_nat s) bs \<Longrightarrow> x \<notin> span nx 32 \<and> x \<notin> span a 32"
    and split_frame: "x \<notin> sysarea a ((s, True) # bs) \<Longrightarrow> x \<notin> span a 32 \<and> x \<notin> span nx 32 \<and> (e \<noteq> 0 \<longrightarrow> x \<notin> span e 32)"
proof -
  note f = fits_Cons [OF fit]
  have nx: "unat nx = unat a + 32 + unat sz"
    using unat_next [of a "unat sz"] fit room by (simp add: nx_def fits_def)
  have fit': "unat a + 32 + s + extent bs < 2 ^ 64" using fit by (simp add: fits_def)
  show "span a 32 \<inter> span nx 32 = {}" using nx fit' room by (intro span_disjoint_le) auto
  have e: "e = a + 32 + of_nat s" "bs \<noteq> []" if "e \<noteq> 0" using that by (auto simp: e_def split: if_splits)
  have "unat e + 32 \<le> 2 ^ 64" if "e \<noteq> 0" using e [OF that] fit' f(2) by (cases bs) auto
  then show "span a 32 \<inter> span e 32 = {}" "span nx 32 \<inter> span e 32 = {}" if "e \<noteq> 0"
    using that e [OF that] nx f(2) room by (auto intro!: span_disjoint_le(1))
  show "x \<notin> span nx 32 \<and> x \<notin> span a 32" if "x \<in> sysarea (a + 32 + of_nat s) bs"
  proof -
    have "unat a + 32 + s \<le> unat x" using that sysarea_bounds [OF f(1)] f(2) by fastforce
    moreover have "unat nx + 32 \<le> 2 ^ 64" "unat a + 32 \<le> 2 ^ 64" using nx fit' room by auto
    ultimately show ?thesis using nx room by (auto simp: in_span_iff)
  qed
  show "x \<notin> span a 32 \<and> x \<notin> span nx 32 \<and> (e \<noteq> 0 \<longrightarrow> x \<notin> span e 32)" if x: "x \<notin> sysarea a ((s, True) # bs)"
  proof -
    have "span a 32 \<subseteq> span a (32 + s)" by (rule span_mono) simp
    moreover have "span nx 32 \<subseteq> span a (32 + s)"
      using span_offset [of "32 + unat sz" 32 "32 + s" a] room f(3) by (simp add: nx_def add.assoc)
    moreover have "x \<notin> span e 32" if "e \<noteq> 0"
      using x e [OF that] header_in_sysarea [of e "hd bs" "tl bs"] by auto
    ultimately show ?thesis using x by auto
  qed
qed

lemma kmalloc_split_chain:
  assumes ch: "chain m p a ((s, True) # bs) 0" and fit: "fits a ((s, True) # bs)"
    and room: "unat sz + 64 \<le> s"
  shows "chain (kmalloc_split sz a m) p a ((unat sz, True) # (s - unat sz - 32, True) # bs) 0"
    "x \<notin> sysarea a ((s, True) # bs) \<Longrightarrow> kmalloc_split sz a m x = m x"
proof -
  define nx where "nx = a + 32 + sz"
  define e where "e = (if bs = [] then 0 else a + 32 + of_nat s)"
  define m1 where "m1 = set_prev nx a (set_next nx e (set_free nx True
      (set_size nx (of_nat (s - unat sz - 32)) (set_magic nx HEAP_MAGIC m))))"
  define m2 where "m2 = (if e \<noteq> 0 then set_prev e nx m1 else m1)"
  note f = fits_Cons [OF fit] and R = split_regions [OF fit room, folded nx_def e_def]
  have ha: "hdr_at m a = \<lparr>magic = HEAP_MAGIC, hsize = of_nat s, hfree = True, hnext = e, hprev = p\<rparr>"
    using ch by (simp add: e_def)
  have ha1: "hdr_at m1 a = hdr_at m a" by (simp add: m1_def hdr_at_set_other [OF R(1)])
  have ha2: "hdr_at m2 a = hdr_at m a" by (simp add: m2_def ha1 hdr_at_set_other [OF R(2)])
  have hn2: "hdr_at m2 nx = \<lparr>magic = HEAP_MAGIC, hsize = of_nat (s - unat sz - 32), hfree = True,
      hnext = e, hprev = a\<rparr>"
    by (simp add: m2_def hdr_at_set_other [OF R(3)]) (simp add: m1_def)
  have eq: "kmalloc_split sz a m = set_size a (of_nat (unat sz)) (set_next a nx m2)"
  proof -
    have nx': "a + SIZEOF_HEADER + sz = nx" by (simp add: nx_def SIZEOF_HEADER_def)
    have rm: "unat sz + 32 \<le> s" using room by simp
    show ?thesis
      unfolding kmalloc_split_def Let_def nx' hdr_at_set_other [OF R(1)] ha m2_def m1_def
      by (simp only: HeapHeader.simps split_size [OF f(3) rm] SIZEOF_HEADER_def)
  qed
  have mx: "kmalloc_split sz a m x = m2 x" if "x \<notin> span a 32" for x
    using that by (simp add: eq set_field_other)
  have rest: "chain (kmalloc_split sz a m) nx (a + 32 + of_nat s) bs 0"
  proof (cases bs)
    case (Cons c cs)
    then have e: "e = a + 32 + of_nat s" "e \<noteq> 0" using f by (simp_all add: e_def)
    note out = split_tail_out [OF fit room, folded nx_def e(1)]
    have "chain m1 a e bs 0 = chain m a e bs 0"
      by (rule chain_cong) (use out in \<open>simp add: m1_def set_field_other\<close>)
    then have "chain m1 a e bs 0" using ch e by simp
    then have "chain m2 nx e bs 0"
      using chain_set_prev [of m1 a e c cs 0 nx] f(1) e Cons by (simp add: m2_def)
    moreover have "chain (kmalloc_split sz a m) nx e bs 0 = chain m2 nx e bs 0"
      by (rule chain_cong) (use out mx in blast)
    ultimately show ?thesis using e by simp
  qed simp
  have hn: "hdr_at (kmalloc_split sz a m) nx = hdr_at m2 nx"
    using R(1) by (simp add: eq hdr_at_set_other Int_commute)
  have hh: "hdr_at (kmalloc_split sz a m) a = \<lparr>magic = HEAP_MAGIC, hsize = of_nat (unat sz),
      hfree = True, hnext = nx, hprev = p\<rparr>" by (simp add: eq ha2 ha)
  have addr: "a + 32 + of_nat (unat sz) = nx" "nx + 32 + of_nat (s - unat sz - 32) = a + 32 + of_nat s"
    using room by (simp_all add: nx_def of_nat_diff)
  show "chain (kmalloc_split sz a m) p a ((unat sz, True) # (s - unat sz - 32, True) # bs) 0"
    unfolding chain.simps addr using rest by (simp add: hn hn2 hh e_def)
  show "kmalloc_split sz a m x = m x" if "x \<notin> sysarea a ((s, True) # bs)"
    using split_frame [OF fit room that, folded nx_def e_def] by (simp add: mx m2_def m1_def set_field_other)
qed

lemma set_free_chain:
  assumes "chain m p a ((s, f) # bs) e" "fits a ((s, f) # bs)"
  shows "chain (set_free a g m) p a ((s, g) # bs) e"
proof -
  have "chain (set_free a g m) a (a + 32 + of_nat s) bs e = chain m a (a + 32 + of_nat s) bs e"
    by (rule chain_cong) (use assms(2) header_tail_disjoint in \<open>blast intro: set_field_other\<close>)
  with assms(1) show ?thesis by simp
qed

end
