(* ===== verification/Heap_Refine.thy ===== *)
theory Heap_Refine
  imports Heap
begin

section \<open>The heap operations refine the block list\<close>

text \<open>
  \<open>abs_free\<close> is the abstract release with coalescing; \<open>heap_rep h bs\<close> says that the headers from
  \<open>s_head\<close> on encode the block list \<open>bs\<close>.  The loop of \<open>kmalloc\<close> is shown to end and to realise
  \<open>abs_malloc\<close> (first fit with split), \<open>kfree\<close> to realise \<open>abs_free\<close>.  The last part holds the
  facts about block lists themselves: total extent, alignment, no two adjacent free blocks, which
  blocks a step keeps, and that a release undoes an allocation.
\<close>

fun block_at :: "nat \<Rightarrow> block list \<Rightarrow> block option" where
  "block_at off [] = None"
| "block_at off ((s, f) # bs) =
     (if off = 0 then Some (s, f) else if off < 32 + s then None else block_at (off - (32 + s)) bs)"

fun abs_free :: "nat \<Rightarrow> block list \<Rightarrow> block list" where
  "abs_free off [] = []"
| "abs_free off ((s, f) # bs) =
     (if off = 0 then merge_head ((s, True) # bs)
      else if off < 32 + s then (s, f) # bs
      else if off = 32 + s then merge_head ((s, f) # abs_free 0 bs)
      else (s, f) # abs_free (off - (32 + s)) bs)"

definition heap_rep :: "heap \<Rightarrow> block list \<Rightarrow> bool" where
  "heap_rep h bs \<longleftrightarrow> bs \<noteq> [] \<and> fits (s_head h) bs \<and> chain (hmem h) 0 (s_head h) bs 0"

fun no_adjacent_free :: "block list \<Rightarrow> bool" where
  "no_adjacent_free ((s1, True) # (s2, True) # bs) = False"
| "no_adjacent_free (b # bs) = no_adjacent_free bs"
| "no_adjacent_free [] = True"

definition blocks_wf :: "block list \<Rightarrow> bool" where
  "blocks_wf bs \<longleftrightarrow> extent bs = 262144 \<and> (\<forall>b \<in> set bs. 8 dvd fst b) \<and> no_adjacent_free bs"

subsection \<open>Positions in the block list\<close>

lemma extent_append [simp]: "extent (xs @ ys) = extent xs + extent ys"
  by (induction xs rule: extent.induct) auto

lemma extent_pos: "xs \<noteq> [] \<Longrightarrow> 32 \<le> extent xs"
  by (cases xs) auto

lemma merge_head_Cons: "\<exists>c cs. merge_head (b # bs) = c # cs"
  by (cases "b # bs" rule: merge_head.cases) auto

lemma extent_merge_head [simp]: "extent (merge_head bs) = extent bs"
  by (cases bs rule: merge_head.cases) auto

lemma block_at_split:
  "block_at off bs = Some (s, f) \<Longrightarrow> \<exists>xs ys. bs = xs @ (s, f) # ys \<and> off = extent xs"
proof (induction off bs rule: block_at.induct)
  case (2 off s' f' bs)
  show ?case
  proof (cases "off = 0")
    case True
    with 2 have "(s', f') # bs = [] @ (s, f) # bs \<and> off = extent []" by simp
    then show ?thesis by blast
  next
    case False
    with "2.prems" have le: "\<not> off < 32 + s'" and "block_at (off - (32 + s')) bs = Some (s, f)"
      by (auto split: if_splits)
    with False obtain xs ys where "bs = xs @ (s, f) # ys" "off - (32 + s') = extent xs"
      using "2.IH" by blast
    with le have "(s', f') # bs = ((s', f') # xs) @ (s, f) # ys \<and> off = extent ((s', f') # xs)" by simp
    then show ?thesis by blast
  qed
qed simp

lemma block_at_append [simp]: "block_at (extent xs) (xs @ (s, f) # ys) = Some (s, f)"
  by (induction xs rule: extent.induct) auto

lemma abs_free_append:
  "abs_free (extent xs) (xs @ (s, f) # ys) =
     (if xs = [] then merge_head ((s, True) # ys)
      else butlast xs @ merge_head (last xs # merge_head ((s, True) # ys)))"
proof (induction xs rule: extent.induct)
  case (2 s' f' xs)
  then show ?case using extent_pos [of xs] by (cases "xs = []") auto
qed simp

lemma abs_free_extent: "extent (abs_free off bs) = extent bs"
proof (induction off bs rule: abs_free.induct)
  case (2 off s f bs)
  then show ?case by auto
qed simp

lemma abs_malloc_extent: "abs_malloc n bs = Some (off, bs') \<Longrightarrow> extent bs' = extent bs"
  by (induction n bs arbitrary: off bs' rule: abs_malloc.induct) (auto split: if_splits)

lemma abs_malloc_nonempty: "abs_malloc n bs = Some (off, bs') \<Longrightarrow> bs' \<noteq> [] \<and> bs \<noteq> []"
  by (cases bs) (auto split: if_splits)

subsection \<open>Refinement of the loop and of the release\<close>

lemma kmalloc_hit:
  assumes ch: "chain m p a ((s, True) # bs) 0" and fit: "fits a ((s, True) # bs)" and sz: "unat sz \<le> s"
  defines "bs' \<equiv> (if unat sz + 64 \<le> s then (unat sz, False) # (s - unat sz - 32, True) # bs else (s, False) # bs)"
  shows "\<exists>m'. kmalloc_loop sz a m = Some (a + 32, m') \<and> chain m' p a bs' 0 \<and> (\<forall>x. x \<notin> sysarea a ((s, True) # bs) \<longrightarrow> m' x = m x)"
proof -
  note f = fits_Cons [OF fit]
  have h: "hdr_at m a = \<lparr>magic = HEAP_MAGIC, hsize = of_nat s, hfree = True, hnext = (if bs = [] then 0 else a + 32 + of_nat s), hprev = p\<rparr>"
    using ch by simp
  have le: "sz \<le> ucast (of_nat s :: u32)" using unat_size_field [OF f(3)] sz by (simp add: word_le_nat_alt)
  have "unat (sz + SIZEOF_HEADER + MIN_SPLIT) = unat sz + 64"
    using unat_plus_nat [of sz 64] sz f(3) by (simp add: const_defs add.assoc)
  then have room: "sz + SIZEOF_HEADER + MIN_SPLIT \<le> ucast (of_nat s :: u32) \<longleftrightarrow> unat sz + 64 \<le> s"
    using unat_size_field [OF f(3)] by (simp add: word_le_nat_alt)
  define m1 where "m1 = (if unat sz + 64 \<le> s then kmalloc_split sz a m else m)"
  define bs1 where "bs1 = (if unat sz + 64 \<le> s then (s - unat sz - 32, True) # bs else bs)"
  define k where "k = (if unat sz + 64 \<le> s then unat sz else s)"
  have "kmalloc_loop sz a m = Some (a + 32, set_free a False m1)"
    using h le room f(5) by (simp add: kmalloc_loop.simps m1_def SIZEOF_HEADER_def)
  moreover have "chain (set_free a False m1) p a ((k, False) # bs1) 0"
  proof (rule set_free_chain)
    show "chain m1 p a ((k, True) # bs1) 0" using kmalloc_split_chain(1) [OF ch fit] ch by (auto simp: m1_def bs1_def k_def)
    show "fits a ((k, True) # bs1)" using fit by (auto simp: fits_def k_def bs1_def)
  qed
  moreover have "set_free a False m1 x = m x" if x: "x \<notin> sysarea a ((s, True) # bs)" for x
  proof -
    have "x \<notin> span a 32" using x header_in_sysarea by blast
    then show ?thesis using kmalloc_split_chain(2) [OF ch fit _ x] by (simp add: m1_def set_field_other)
  qed
  moreover have "bs' = (k, False) # bs1" by (simp add: bs'_def k_def bs1_def)
  ultimately show ?thesis by blast
qed

lemma kmalloc_loop_chain:
  assumes "chain m p a bs 0" "fits a bs"
  shows "case abs_malloc (unat sz) bs of
      None \<Rightarrow> kmalloc_loop sz (if bs = [] then 0 else a) m = Some (0, m)
    | Some (off, bs') \<Rightarrow> \<exists>m'. kmalloc_loop sz (if bs = [] then 0 else a) m
          = Some (a + of_nat (off + 32), m') \<and> chain m' p a bs' 0 \<and>
          (\<forall>x. x \<notin> sysarea a bs \<longrightarrow> m' x = m x)"
  using assms
proof (induction bs arbitrary: p a)
  case Nil
  then show ?case by (simp add: kmalloc_loop.simps)
next
  case (Cons b bs)
  obtain s f where b: "b = (s, f)" by (cases b)
  note f = fits_Cons [OF Cons.prems(2) [unfolded b]]
  let ?a = "a + 32 + of_nat s"
  have h: "hdr_at m a = \<lparr>magic = HEAP_MAGIC, hsize = of_nat s, hfree = f,
      hnext = (if bs = [] then 0 else ?a), hprev = p\<rparr>" and tl: "chain m a ?a bs 0"
    using Cons.prems(1) b by auto
  have le: "sz \<le> ucast (of_nat s :: u32) \<longleftrightarrow> unat sz \<le> s"
    using unat_size_field [OF f(3)] by (simp add: word_le_nat_alt)
  show ?case
  proof (cases "f \<and> unat sz \<le> s")
    case True
    then show ?thesis
      using kmalloc_hit [of m p a s bs sz] Cons.prems by (simp add: b del: chain.simps sysarea.simps)
  next
    case miss: False
    have step: "kmalloc_loop sz a m = kmalloc_loop sz (if bs = [] then 0 else ?a) m"
      using h miss le f(5) by (subst kmalloc_loop.simps) auto
    note IH = Cons.IH [OF tl f(1)]
    show ?thesis
    proof (cases "abs_malloc (unat sz) bs")
      case None
      with IH step miss show ?thesis by (auto simp: b)
    next
      case (Some r)
      obtain off bs' where r: "r = (off, bs')" by (cases r)
      obtain m' where m': "kmalloc_loop sz (if bs = [] then 0 else ?a) m = Some (?a + of_nat (off + 32), m')"
        "chain m' a ?a bs' 0" "\<And>x. x \<notin> sysarea ?a bs \<Longrightarrow> m' x = m x"
        using IH Some r by auto
      have ne: "bs' \<noteq> []" "bs \<noteq> []" using abs_malloc_nonempty Some r by auto
      have "hdr_at m' a = hdr_at m a"
        by (rule hdr_at_cong, rule m'(3), rule header_tail_disjoint [OF Cons.prems(2) [unfolded b]])
      then have "chain m' p a ((s, f) # bs') 0" using h ne m'(2) by simp
      moreover have "?a + of_nat (off + 32) = a + of_nat (off + 32 + s + 32)" by simp
      ultimately show ?thesis using step m' miss Some r by (auto simp: b ac_simps)
    qed
  qed
qed


fun last_addr :: "u64 \<Rightarrow> u64 \<Rightarrow> block list \<Rightarrow> u64" where
  "last_addr p a [] = p"
| "last_addr p a ((s, f) # bs) = last_addr a (a + 32 + of_nat s) bs"

lemma last_addr_snoc: "last_addr p a (xs @ [(s, f)]) = a + of_nat (extent xs)"
  by (induction p a xs rule: last_addr.induct) (auto simp: ac_simps)

lemma chain_append:
  "chain m p a (xs @ ys) e \<longleftrightarrow>
     chain m p a xs (if ys = [] then e else a + of_nat (extent xs)) \<and>
     chain m (last_addr p a xs) (a + of_nat (extent xs)) ys e"
proof (induction p a xs rule: last_addr.induct)
  case (2 p a s f xs)
  have "a + of_nat (extent ((s, f) # xs)) = (a + 32 + of_nat s) + of_nat (extent xs)"
    by (simp add: ac_simps)
  with 2 show ?case by (cases "xs = []") (auto simp: add.assoc)
qed simp

lemma sysarea_append:
  "sysarea a (xs @ ys) = sysarea a xs \<union> sysarea (a + of_nat (extent xs)) ys"
  by (induction a xs rule: sysarea.induct) (auto simp: ac_simps)

lemma fits_append:
  assumes "fits a (xs @ ys)"
  shows "fits a xs" "fits (a + of_nat (extent xs)) ys"
    "unat (a + of_nat (extent xs)) = unat a + extent xs"
proof -
  show *: "unat (a + of_nat (extent xs)) = unat a + extent xs"
    using assms by (intro unat_plus_nat) (simp add: fits_def)
  show "fits a xs" "fits (a + of_nat (extent xs)) ys" using assms * by (auto simp: fits_def)
qed

lemma sysarea_merge_head: "fits a bs \<Longrightarrow> sysarea a (merge_head bs) = sysarea a bs"
proof (cases bs rule: merge_head.cases)
  case (1 s1 s2 cs)
  assume "fits a bs"
  with 1 have fit: "fits a ((s1, True) # (s2, True) # cs)" by simp
  note f = fits_Cons [OF fit]
  have "unat a + (32 + s1 + (32 + s2)) \<le> 2 ^ 64" using fit by (simp add: fits_def)
  then have "span a (32 + (s1 + 32 + s2)) = span a (32 + s1) \<union> span (a + 32 + of_nat s1) (32 + s2)"
    using f(2) by (auto simp: in_span_iff)
  moreover have "a + 32 + of_nat (s1 + 32 + s2) = a + 32 + of_nat s1 + 32 + of_nat s2" by simp
  ultimately show ?thesis using 1 by (simp add: Un_assoc ac_simps)
qed auto

lemma fits_cong: "fits a bs \<Longrightarrow> extent bs' = extent bs \<Longrightarrow> fits a bs'"
  by (simp add: fits_def)

text \<open>Work on a suffix of the chain that keeps its extent leaves the prefix alone.\<close>

lemma chain_suffix:
  assumes "chain m p a (xs @ ys) 0" "fits a (xs @ ys)" "ys \<noteq> []" "ys' \<noteq> []"
    and "chain m' (last_addr p a xs) (a + of_nat (extent xs)) ys' 0"
    and "\<And>x. x \<notin> sysarea (a + of_nat (extent xs)) zs \<Longrightarrow> m' x = m x" "extent zs = extent ys"
  shows "chain m' p a (xs @ ys') 0"
proof -
  note f = fits_append [OF assms(2)]
  have fz: "fits (a + of_nat (extent xs)) zs" using f(2) assms(7) by (rule fits_cong)
  have "chain m' p a xs (a + of_nat (extent xs)) = chain m p a xs (a + of_nat (extent xs))"
  proof (rule chain_cong, rule assms(6))
    fix x assume "x \<in> sysarea a xs"
    with sysarea_bounds [OF f(1)] f(3) have "unat x < unat (a + of_nat (extent xs))" by fastforce
    with sysarea_bounds [OF fz] show "x \<notin> sysarea (a + of_nat (extent xs)) zs" by fastforce
  qed
  with assms(1,3-5) show ?thesis by (simp add: chain_append)
qed

lemma hprev_chain: "chain m p a bs e \<Longrightarrow> bs \<noteq> [] \<Longrightarrow> hprev (hdr_at m a) = p"
  by (cases bs) auto

lemma merge_suffix:
  assumes "chain m p a (xs @ b # bs) 0" "fits a (xs @ b # bs)"
  shows "chain (merge_next (a + of_nat (extent xs)) m) p a (xs @ merge_head (b # bs)) 0"
    "x \<notin> sysarea a (xs @ b # bs) \<Longrightarrow> merge_next (a + of_nat (extent xs)) m x = m x"
proof -
  note f = fits_append [OF assms(2)]
  have c: "chain m (last_addr p a xs) (a + of_nat (extent xs)) (b # bs) 0"
    using assms(1) by (simp add: chain_append)
  note m = merge_next_chain [OF c f(2)]
  show "chain (merge_next (a + of_nat (extent xs)) m) p a (xs @ merge_head (b # bs)) 0"
    by (rule chain_suffix [OF assms(1,2) _ _ m(1), where zs = "b # bs"])
       (use m(2) merge_head_Cons [of b bs] in auto)
  show "merge_next (a + of_nat (extent xs)) m x = m x" if "x \<notin> sysarea a (xs @ b # bs)"
    using that unfolding sysarea_append by (intro m(2)) blast
qed

text \<open>The second merge of \<open>kfree\<close>: the predecessor of a block swallows it when both are free.\<close>

lemma merge_predecessor:
  assumes c: "chain m2 0 a (xs @ bs2) 0" and fit: "fits a (xs @ bs2)" and ne: "bs2 \<noteq> []"
  defines "m3 \<equiv> (if last_addr 0 a xs \<noteq> 0 then merge_next (last_addr 0 a xs) m2 else m2)"
  shows "chain m3 0 a (if xs = [] then bs2 else butlast xs @ merge_head (last xs # bs2)) 0"
    "x \<notin> sysarea a (xs @ bs2) \<Longrightarrow> m3 x = m2 x"
proof -
  have "chain m3 0 a (if xs = [] then bs2 else butlast xs @ merge_head (last xs # bs2)) 0 \<and>
      (x \<notin> sysarea a (xs @ bs2) \<longrightarrow> m3 x = m2 x)"
  proof (cases xs rule: rev_cases)
    case Nil
    then show ?thesis using c by (simp add: m3_def)
  next
    case (snoc zs z)
    obtain s0 f0 where z: "z = (s0, f0)" by (cases z)
    have la: "last_addr 0 a xs = a + of_nat (extent zs)" by (simp add: snoc z last_addr_snoc)
    have "0 < unat (a + of_nat (extent zs))"
      using fits_append(2) [of a zs "z # bs2"] fit snoc by (simp add: fits_def)
    then have "last_addr 0 a xs \<noteq> 0" unfolding la by (metis less_irrefl unat_0)
    then have m3: "m3 = merge_next (a + of_nat (extent zs)) m2" by (simp add: m3_def la)
    have c': "chain m2 0 a (zs @ z # bs2) 0" and ft: "fits a (zs @ z # bs2)" using c fit snoc by simp_all
    show ?thesis using merge_suffix [OF c' ft] snoc by (simp add: m3 del: chain.simps sysarea.simps)
  qed
  then show "chain m3 0 a (if xs = [] then bs2 else butlast xs @ merge_head (last xs # bs2)) 0"
    "x \<notin> sysarea a (xs @ bs2) \<Longrightarrow> m3 x = m2 x" by blast+
qed

lemma kfree_chain:
  assumes rep: "heap_rep h (xs @ (s, False) # ys)"
  defines "q \<equiv> s_head h + of_nat (extent xs) + 32"
  shows "heap_rep (kfree q h) (abs_free (extent xs) (xs @ (s, False) # ys)) \<and>
     s_head (kfree q h) = s_head h \<and>
     (\<forall>x. x \<notin> sysarea (s_head h) (xs @ (s, True) # ys) \<longrightarrow> hmem (kfree q h) x = hmem h x)"
proof -
  define a where "a = s_head h"
  define hd where "hd = a + of_nat (extent xs)"
  define m where "m = hmem h"
  define m1 where "m1 = set_free hd True m"
  define m2 where "m2 = merge_next hd m1"
  have ch: "chain m 0 a (xs @ (s, False) # ys) 0" and fit: "fits a (xs @ (s, False) # ys)"
    using rep by (auto simp: heap_rep_def a_def m_def)
  have fit1: "fits a (xs @ (s, True) # ys)" using fit by (rule fits_cong) simp
  note f = fits_append [OF fit]
  have suf: "chain m (last_addr 0 a xs) hd ((s, False) # ys) 0"
    using ch by (simp add: chain_append hd_def)
  have hdr: "magic (hdr_at m hd) = HEAP_MAGIC" "\<not> hfree (hdr_at m hd)" using suf by auto
  have "chain m1 (last_addr 0 a xs) hd ((s, True) # ys) 0"
    unfolding m1_def by (rule set_free_chain [OF suf]) (use f(2) hd_def in simp)
  moreover have m1x: "m1 x = m x" if "x \<notin> sysarea hd ((s, True) # ys)" for x
    using that header_in_sysarea [of hd "(s, True)" ys] by (auto simp: m1_def intro: set_field_other)
  ultimately have c1: "chain m1 0 a (xs @ (s, True) # ys) 0"
    by (intro chain_suffix [OF ch fit, where zs = "(s, True) # ys"]) (auto simp: hd_def)
  have m1x': "m1 x = m x" if "x \<notin> sysarea a (xs @ (s, True) # ys)" for x
    using that unfolding sysarea_append hd_def [symmetric] by (intro m1x) blast
  define bs2 where "bs2 = merge_head ((s, True) # ys)"
  have c2: "chain m2 0 a (xs @ bs2) 0" and m2x: "\<And>x. x \<notin> sysarea a (xs @ (s, True) # ys) \<Longrightarrow> m2 x = m x"
    using merge_suffix [OF c1 fit1] m1x' by (auto simp: m2_def hd_def bs2_def)
  have ne2: "bs2 \<noteq> []" using merge_head_Cons by (metis bs2_def list.distinct(1))
  have fit2: "fits a (xs @ bs2)" using fit1 by (rule fits_cong) (simp add: bs2_def)
  have prev: "hprev (hdr_at m2 hd) = last_addr 0 a xs"
    using c2 ne2 hprev_chain by (fastforce simp: chain_append hd_def)
  define m3 where "m3 = (if last_addr 0 a xs \<noteq> 0 then merge_next (last_addr 0 a xs) m2 else m2)"
  have uq: "unat q = unat a + extent xs + 32"
    using f(3) unat_plus_nat [of hd 32] fit by (simp add: q_def a_def hd_def fits_def)
  then have "q \<noteq> 0" by auto
  moreover have "q - SIZEOF_HEADER = hd" by (simp add: q_def hd_def a_def SIZEOF_HEADER_def)
  ultimately have kf: "kfree q h = h\<lparr>hmem := m3\<rparr>"
    using hdr prev by (simp add: kfree_def Let_def m3_def m2_def m1_def m_def)
  note P = merge_predecessor [OF c2 fit2 ne2, folded m3_def]
  have "sysarea hd bs2 = sysarea hd ((s, True) # ys)"
    unfolding bs2_def by (rule sysarea_merge_head) (use fits_append(2) [OF fit1] hd_def in simp)
  then have area: "sysarea a (xs @ bs2) = sysarea a (xs @ (s, True) # ys)" by (simp add: sysarea_append hd_def del: sysarea.simps)
  have "abs_free (extent xs) (xs @ (s, False) # ys) = (if xs = [] then bs2 else butlast xs @ merge_head (last xs # bs2))"
    unfolding abs_free_append bs2_def ..
  then have "chain m3 0 a (abs_free (extent xs) (xs @ (s, False) # ys)) 0 \<and>
     (\<forall>x. x \<notin> sysarea a (xs @ (s, True) # ys) \<longrightarrow> m3 x = m x)"
    using P m2x unfolding area by simp
  moreover have "fits a (abs_free (extent xs) (xs @ (s, False) # ys))"
    using fit by (rule fits_cong) (rule abs_free_extent)
  moreover have "abs_free (extent xs) (xs @ (s, False) # ys) \<noteq> []"
    using abs_free_extent [of "extent xs" "xs @ (s, False) # ys"] by auto
  ultimately show ?thesis by (simp add: heap_rep_def kf a_def m_def)
qed


subsection \<open>Facts about the block list\<close>

definition hd_free :: "block list \<Rightarrow> bool" where
  "hd_free bs \<longleftrightarrow> (case bs of [] \<Rightarrow> False | b # _ \<Rightarrow> snd b)"

lemma hd_free_simps [simp]: "\<not> hd_free []" "hd_free ((s, f) # bs) = f"
  by (simp_all add: hd_free_def)

lemma no_adjacent_free_Cons:
  "no_adjacent_free ((s, f) # bs) \<longleftrightarrow> \<not> (f \<and> hd_free bs) \<and> no_adjacent_free bs"
  by (cases "(s, f) # bs" rule: no_adjacent_free.cases) auto

lemma no_adjacent_free_append:
  "no_adjacent_free (xs @ ys) \<longleftrightarrow>
     no_adjacent_free xs \<and> no_adjacent_free ys \<and> \<not> (xs \<noteq> [] \<and> snd (last xs) \<and> hd_free ys)"
proof (induction xs rule: extent.induct)
  case (2 s f xs)
  have "hd_free (xs @ ys) = (if xs = [] then hd_free ys else hd_free xs)"
    by (cases xs) (auto simp: hd_free_def)
  with 2 show ?case by (auto simp: no_adjacent_free_Cons)
qed simp

lemma hd_free_merge_head [simp]: "hd_free (merge_head bs) = hd_free bs"
  by (cases bs rule: merge_head.cases) auto

lemma no_adjacent_free_merge:
  "no_adjacent_free bs \<Longrightarrow> no_adjacent_free (merge_head ((s, f) # bs))"
  by (cases "(s, f) # bs" rule: merge_head.cases) (auto simp: no_adjacent_free_Cons hd_free_def split: list.splits)

lemma merge_head_id: "no_adjacent_free bs \<Longrightarrow> merge_head bs = bs"
  by (cases bs rule: merge_head.cases) auto

lemma abs_malloc_hd_free: "abs_malloc n bs = Some (off, bs') \<Longrightarrow> hd_free bs' \<Longrightarrow> hd_free bs"
  by (cases bs) (auto split: if_splits)

lemma abs_malloc_no_adjacent:
  "no_adjacent_free bs \<Longrightarrow> abs_malloc n bs = Some (off, bs') \<Longrightarrow> no_adjacent_free bs'"
proof (induction n bs arbitrary: off bs' rule: abs_malloc.induct)
  case (2 n s f bs)
  show ?case
  proof (cases "f \<and> n \<le> s")
    case True
    with 2 show ?thesis by (auto simp: no_adjacent_free_Cons split: if_splits)
  next
    case False
    with "2.prems" obtain o2 b2 where r: "abs_malloc n bs = Some (o2, b2)" "bs' = (s, f) # b2"
      by (auto split: if_splits)
    have "no_adjacent_free b2" by (rule "2.IH" [OF False _ r(1)]) (use "2.prems" no_adjacent_free_Cons in auto)
    with r "2.prems"(1) abs_malloc_hd_free [OF r(1)] show ?thesis by (auto simp: no_adjacent_free_Cons)
  qed
qed simp

lemma abs_free_no_adjacent:
  assumes "no_adjacent_free (xs @ (s, f) # ys)"
  shows "no_adjacent_free (abs_free (extent xs) (xs @ (s, f) # ys))"
proof -
  have ys: "no_adjacent_free (merge_head ((s, True) # ys))"
    using assms by (intro no_adjacent_free_merge) (simp add: no_adjacent_free_append no_adjacent_free_Cons)
  show ?thesis
  proof (cases xs rule: rev_cases)
    case Nil
    with ys show ?thesis by (simp add: abs_free_append)
  next
    case (snoc zs z)
    obtain s0 f0 where z: "z = (s0, f0)" by (cases z)
    have "no_adjacent_free (zs @ [z])" using assms snoc z by (simp add: no_adjacent_free_append)
    then have "no_adjacent_free zs" "\<not> (zs \<noteq> [] \<and> snd (last zs) \<and> f0)"
      using z by (simp_all add: no_adjacent_free_append)
    moreover have "no_adjacent_free (merge_head (z # merge_head ((s, True) # ys)))"
      unfolding z by (rule no_adjacent_free_merge) (rule ys)
    ultimately show ?thesis
      unfolding abs_free_append by (simp add: snoc no_adjacent_free_append z)
  qed
qed

lemma abs_malloc_free_roundtrip:
  "no_adjacent_free bs \<Longrightarrow> abs_malloc n bs = Some (off, bs') \<Longrightarrow> abs_free off bs' = bs"
proof (induction n bs arbitrary: off bs' rule: abs_malloc.induct)
  case (2 n s f bs)
  show ?case
  proof (cases "f \<and> n \<le> s")
    case True
    with "2.prems" show ?thesis
      using merge_head_id [OF "2.prems"(1)] by (auto split: if_splits)
  next
    case False
    with "2.prems" obtain o2 b2 where r: "abs_malloc n bs = Some (o2, b2)" "bs' = (s, f) # b2"
        "off = o2 + 32 + s" by (auto split: if_splits)
    have "abs_free o2 b2 = bs"
      by (rule "2.IH" [OF False _ r(1)]) (use "2.prems" no_adjacent_free_Cons in auto)
    then show ?thesis using r merge_head_id [OF "2.prems"(1)] by (auto simp: algebra_simps)
  qed
qed simp

definition sizes_aligned :: "block list \<Rightarrow> bool" where
  "sizes_aligned bs \<longleftrightarrow> (\<forall>b \<in> set bs. 8 dvd fst b)"

lemma sizes_aligned_simps [simp]:
  "sizes_aligned []" "sizes_aligned ((s, f) # bs) \<longleftrightarrow> 8 dvd s \<and> sizes_aligned bs"
  by (simp_all add: sizes_aligned_def)

lemma abs_malloc_aligned:
  "sizes_aligned bs \<Longrightarrow> 8 dvd n \<Longrightarrow> abs_malloc n bs = Some (off, bs') \<Longrightarrow> sizes_aligned bs'"
  by (induction n bs arbitrary: off bs' rule: abs_malloc.induct) (auto split: if_splits)

lemma merge_head_aligned: "sizes_aligned bs \<Longrightarrow> sizes_aligned (merge_head bs)"
  by (cases bs rule: merge_head.cases) auto

lemma abs_free_aligned: "sizes_aligned bs \<Longrightarrow> sizes_aligned (abs_free off bs)"
  by (induction off bs rule: abs_free.induct) (auto intro!: merge_head_aligned)

lemma block_at_bound: "block_at off bs = Some (s, f) \<Longrightarrow> off + 32 + s \<le> extent bs"
  by (induction off bs rule: block_at.induct) (auto split: if_splits)

lemma block_at_disjoint:
  "block_at o1 bs = Some (s1, f1) \<Longrightarrow> block_at o2 bs = Some (s2, f2) \<Longrightarrow> o1 < o2 \<Longrightarrow> o1 + 32 + s1 \<le> o2"
proof (induction o1 bs arbitrary: o2 rule: block_at.induct)
  case (2 o1 s f bs)
  show ?case
  proof (cases "o1 = 0")
    case True
    with "2.prems" show ?thesis by (auto split: if_splits)
  next
    case False
    with "2.prems" have ge: "\<not> o1 < 32 + s" and b: "block_at (o1 - (32 + s)) bs = Some (s1, f1)"
        "block_at (o2 - (32 + s)) bs = Some (s2, f2)" by (auto split: if_splits)
    have "o1 - (32 + s) + 32 + s1 \<le> o2 - (32 + s)"
      by (rule "2.IH" [OF False ge b]) (use ge "2.prems"(3) in auto)
    with ge "2.prems"(3) show ?thesis by linarith
  qed
qed simp

lemma abs_malloc_block:
  "abs_malloc n bs = Some (off, bs') \<Longrightarrow>
     (\<exists>s. block_at off bs = Some (s, True)) \<and> (\<exists>k. n \<le> k \<and> block_at off bs' = Some (k, False))"
proof (induction n bs arbitrary: off bs' rule: abs_malloc.induct)
  case (2 n s f bs)
  then show ?case by (fastforce split: if_splits)
qed simp

lemma abs_malloc_keeps:
  "abs_malloc n bs = Some (off, bs') \<Longrightarrow> block_at o1 bs = Some (s1, False) \<Longrightarrow> block_at o1 bs' = Some (s1, False)"
proof (induction n bs arbitrary: off bs' o1 rule: abs_malloc.induct)
  case (2 n s f bs)
  then show ?case by (fastforce split: if_splits)
qed simp


lemma merge_head_keeps:
  "block_at o1 bs = Some (s1, False) \<Longrightarrow> block_at o1 (merge_head bs) = Some (s1, False)"
  by (cases bs rule: merge_head.cases) (auto split: if_splits)

lemma abs_free_keeps:
  "block_at o1 bs = Some (s1, False) \<Longrightarrow> o1 \<noteq> off \<Longrightarrow> block_at o1 (abs_free off bs) = Some (s1, False)"
proof (induction off bs arbitrary: o1 rule: abs_free.induct)
  case (2 off s f bs)
  consider "off = 0" | "off = 32 + s" | "off \<noteq> 0" "off < 32 + s" | "32 + s < off" by linarith
  then show ?case
  proof cases
    case 1
    with "2.prems" show ?thesis by (auto intro!: merge_head_keeps split: if_splits)
  next
    case 2
    with "2.prems" "2.IH"(1) [of "o1 - (32 + s)"] show ?thesis
      by (auto intro!: merge_head_keeps split: if_splits)
  next
    case 3
    with "2.prems" show ?thesis by simp
  next
    case 4
    with "2.prems" "2.IH"(2) [of "o1 - (32 + s)"] show ?thesis by (auto split: if_splits)
  qed
qed simp


lemma abs_malloc_only:
  "abs_malloc n bs = Some (off, bs') \<Longrightarrow> block_at o1 bs' = Some (s1, False) \<Longrightarrow>
     o1 = off \<or> block_at o1 bs = Some (s1, False)"
proof (induction n bs arbitrary: off bs' o1 rule: abs_malloc.induct)
  case (2 n s f bs)
  show ?case
  proof (cases "f \<and> n \<le> s")
    case True
    with "2.prems" show ?thesis by (auto split: if_splits)
  next
    case False
    with "2.prems" obtain o2 b2 where r: "abs_malloc n bs = Some (o2, b2)" "bs' = (s, f) # b2"
        "off = o2 + 32 + s" by (auto split: if_splits)
    with "2.prems"(2) "2.IH" [OF False r(1), of "o1 - (32 + s)"] show ?thesis
      by (auto split: if_splits)
  qed
qed simp

lemma merge_head_only:
  "block_at o1 (merge_head bs) = Some (s1, False) \<Longrightarrow> block_at o1 bs = Some (s1, False)"
  by (cases bs rule: merge_head.cases) (auto split: if_splits)

lemma abs_free_only:
  assumes "block_at o1 (abs_free (extent xs) (xs @ (s, f) # ys)) = Some (s1, False)"
  shows "o1 \<noteq> extent xs \<and> block_at o1 (xs @ (s, f) # ys) = Some (s1, False)"
  using assms
proof (induction xs arbitrary: o1 rule: extent.induct)
  case 1
  from merge_head_only [of o1 "(s, True) # ys"] 1 show ?case by (auto split: if_splits)
next
  case (2 s' f' xs)
  show ?case
  proof (cases "xs = []")
    case True
    then have "block_at o1 (merge_head ((s', f') # merge_head ((s, True) # ys))) = Some (s1, False)"
      using "2.prems" by simp
    then have "block_at o1 ((s', f') # merge_head ((s, True) # ys)) = Some (s1, False)"
      by (rule merge_head_only)
    with True show ?thesis
      using merge_head_only [of "o1 - (32 + s')" "(s, True) # ys"] by (auto split: if_splits)
  next
    case False
    then have "32 \<le> extent xs" by (rule extent_pos)
    with "2.prems" "2.IH" [of "o1 - (32 + s')"] show ?thesis by (auto split: if_splits)
  qed
qed

lemma abs_malloc_None: "abs_malloc n bs = None \<longleftrightarrow> (\<forall>b \<in> set bs. snd b \<longrightarrow> fst b < n)"
  by (induction n bs rule: abs_malloc.induct) auto

lemma payload_not_sysarea:
  assumes "block_at off bs = Some (s, False)" "fits a bs" "x \<in> span (a + of_nat (off + 32)) s"
  shows "x \<notin> sysarea a bs"
proof -
  obtain xs ys where bs: "bs = xs @ (s, False) # ys" and off: "off = extent xs"
    using block_at_split [OF assms(1)] by blast
  have fit: "fits a (xs @ (s, False) # ys)" using assms(2) bs by simp
  note f = fits_append [OF fit]
  note g = fits_Cons [OF f(2)]
  have up: "unat (a + of_nat (off + 32)) = unat a + extent xs + 32"
    using unat_plus_nat [of a "off + 32"] fit off by (simp add: fits_def)
  have le: "unat (a + of_nat (off + 32)) + s \<le> 2 ^ 64" unfolding up using fit by (simp add: fits_def)
  have x: "unat a + extent xs + 32 \<le> unat x" "unat x < unat a + extent xs + 32 + s"
    using assms(3) in_span_iff [OF le, of x] unfolding up by auto
  have "x \<notin> sysarea a xs" using sysarea_bounds [OF f(1), of x] x by auto
  moreover have "x \<notin> span (a + of_nat (extent xs)) 32"
    using x fit f(3) by (auto simp: in_span_iff fits_def)
  moreover have "x \<notin> sysarea (a + of_nat (extent xs) + 32 + of_nat s) ys"
    using sysarea_bounds [OF g(1), of x] g(2) f(3) x by auto
  ultimately show ?thesis by (simp add: bs sysarea_append)
qed

lemma sysarea_free_block:
  assumes "fits a (xs @ (s, False) # ys)"
  shows "sysarea a (xs @ (s, True) # ys)
    \<subseteq> sysarea a (xs @ (s, False) # ys) \<union> span (a + of_nat (extent xs + 32)) s"
proof -
  let ?h = "a + of_nat (extent xs)"
  note f = fits_append [OF assms]
  have "unat ?h + (32 + s) \<le> 2 ^ 64" using f(2) by (simp add: fits_def)
  moreover have "unat (?h + 32) = unat ?h + 32"
    using f(2) unat_plus_nat [of ?h 32] by (simp add: fits_def)
  ultimately have "span ?h (32 + s) \<subseteq> span ?h 32 \<union> span (?h + 32) s"
    by (auto simp: in_span_iff)
  moreover have e: "a + of_nat (extent xs + 32) = ?h + 32" by simp
  ultimately show ?thesis unfolding e by (auto simp: sysarea_append)
qed

lemma chain_unique:
  "chain m p a bs 0 \<Longrightarrow> chain m p a cs 0 \<Longrightarrow> fits a bs \<Longrightarrow> fits a cs \<Longrightarrow> bs \<noteq> [] \<Longrightarrow> cs \<noteq> [] \<Longrightarrow> bs = cs"
proof (induction m p a bs "0 :: u64" arbitrary: cs rule: chain.induct)
  case (2 m p a s f bs)
  obtain s' f' cs' where cs: "cs = (s', f') # cs'" using "2.prems"(6) by (cases cs) auto
  note fb = fits_Cons [OF "2.prems"(3)]
  have fc: "s' < 2 ^ 32" "a + 32 + of_nat s' \<noteq> 0" "fits (a + 32 + of_nat s') cs'"
    using fits_Cons [of a s' f' cs'] "2.prems"(4) cs by auto
  have hd: "(of_nat s :: u32) = of_nat s'" "f = f'"
    "(if bs = [] then 0 else a + 32 + of_nat s) = (if cs' = [] then 0 else a + 32 + of_nat s')"
    using "2.prems"(1,2) cs by auto
  have "unat (of_nat s :: u32) = s" "unat (of_nat s' :: u32) = s'"
    using fb(3) fc(1) by (auto intro!: unat_of_nat_lt)
  then have s: "s = s'" using hd(1) by metis
  show ?case
  proof (cases "bs = []")
    case True
    then have "cs' = []" using hd(3) fc(2) by (auto split: if_splits)
    with True s hd(2) cs show ?thesis by simp
  next
    case False
    then have "cs' \<noteq> []" using hd(3) fb(4) by (auto split: if_splits)
    with False "2.hyps" [of cs'] "2.prems"(1,2) fb(1) fc(3) s cs have "bs = cs'" by auto
    with s hd(2) cs show ?thesis by simp
  qed
qed simp

lemma heap_rep_unique: "heap_rep h bs \<Longrightarrow> heap_rep h cs \<Longrightarrow> bs = cs"
  unfolding heap_rep_def using chain_unique by blast

end
