(* ===== verification/Heap_Correct.thy ===== *)
theory Heap_Correct
  imports Heap_Refine
begin

section \<open>Correctness of the heap\<close>

text \<open>
  The specification of \<open>kmalloc\<close> and \<open>kfree\<close> over \<open>heap_rep\<close>, the interface \<open>block_allocator\<close> that
  a client of the heap relies on (exclusive, disjoint blocks whose bytes only their owner changes)
  with its interpretation on the heap operations, the construction of the pool by \<open>heap_init\<close>,
  reachable heaps, and the properties of the component.
\<close>

subsection \<open>Specifications of the operations\<close>

lemma kmalloc_spec:
  assumes rep: "heap_rep h bs" and sz: "sz \<noteq> 0"
  shows "case abs_malloc (unat ((sz + 7) AND NOT 7)) bs of
      None \<Rightarrow> kmalloc sz h = Some (0, h)
    | Some (off, bs') \<Rightarrow> \<exists>h'. kmalloc sz h = Some (s_head h + of_nat (off + 32), h') \<and>
        heap_rep h' bs' \<and> s_head h' = s_head h \<and>
        (\<forall>x. x \<notin> sysarea (s_head h) bs \<longrightarrow> hmem h' x = hmem h x)"
proof -
  define z where "z = (sz + 7) AND NOT 7"
  have c: "chain (hmem h) 0 (s_head h) bs 0" "fits (s_head h) bs" "bs \<noteq> []"
    using rep by (auto simp: heap_rep_def)
  have k: "kmalloc sz h = map_option (\<lambda>(p, m). (p, h\<lparr>hmem := m\<rparr>)) (kmalloc_loop z (s_head h) (hmem h))"
    using sz by (simp add: kmalloc_def z_def)
  show ?thesis
  proof (cases "abs_malloc (unat z) bs")
    case None
    then show ?thesis
      unfolding z_def [symmetric] using kmalloc_loop_chain [OF c(1,2), of z] c(3) k by simp
  next
    case (Some r)
    obtain off bs' where r: "r = (off, bs')" by (cases r)
    obtain m' where m': "kmalloc_loop z (s_head h) (hmem h) = Some (s_head h + of_nat (off + 32), m')"
      "chain m' 0 (s_head h) bs' 0" "\<forall>x. x \<notin> sysarea (s_head h) bs \<longrightarrow> m' x = hmem h x"
      using kmalloc_loop_chain [OF c(1,2), of z] c(3) Some r by auto
    have "heap_rep (h\<lparr>hmem := m'\<rparr>) bs'"
      using m'(2) abs_malloc_nonempty abs_malloc_extent fits_cong [OF c(2)] Some r
      by (auto simp: heap_rep_def)
    with m' Some r k show ?thesis unfolding z_def [symmetric] by simp
  qed
qed

lemma round_up_8:
  assumes "unat (sz :: u64) + 7 < 2 ^ 64"
  shows "unat ((sz + 7) AND NOT 7) = (unat sz + 7) div 8 * 8"
  unfolding unat_align_8 using assms unat_plus_nat [of sz 7] by simp

lemma round_up_8_wrap:
  assumes "2 ^ 64 \<le> unat (sz :: u64) + 7"
  shows "unat ((sz + 7) AND NOT 7) = 0"
proof -
  have "unat (sz + 7) = unat sz + 7 - 2 ^ 64" "unat sz + 7 - 2 ^ 64 < 8"
    using assms unat_lt_exp64 [of sz] by (auto simp: unat_word_ariths mod_if)
  then show ?thesis unfolding unat_align_8 by simp
qed

lemma round_up_cases:
  "unat (((sz :: u64) + 7) AND NOT 7) = (if unat sz + 7 < 2 ^ 64 then (unat sz + 7) div 8 * 8 else 0)"
  using round_up_8 round_up_8_wrap by (simp add: not_less)

lemma round_up_8_dvd: "8 dvd unat ((sz :: u64) AND NOT 7)"
  unfolding unat_align_8 by simp

text \<open>
  The invariant, the blocks in use, and a store of one byte by a client.
\<close>

definition pool_ok :: "heap \<Rightarrow> bool" where
  [inv_defs]: "pool_ok h \<longleftrightarrow> (\<exists>bs. heap_rep h bs \<and> blocks_wf bs)"

definition live :: "heap \<Rightarrow> (u64 \<times> nat) set" where
  "live h = {(p, s). \<exists>bs off. heap_rep h bs \<and> block_at off bs = Some (s, False) \<and>
     p = s_head h + of_nat (off + 32)}"

definition poke :: "u64 \<Rightarrow> u8 \<Rightarrow> heap \<Rightarrow> heap" where
  "poke x v h = h\<lparr>hmem := (hmem h)(x := v)\<rparr>"

lemma blocks_wf_iff: "blocks_wf bs \<longleftrightarrow> extent bs = 262144 \<and> sizes_aligned bs \<and> no_adjacent_free bs"
  by (simp add: blocks_wf_def sizes_aligned_def)

lemma blocks_wf_malloc:
  "blocks_wf bs \<Longrightarrow> 8 dvd n \<Longrightarrow> abs_malloc n bs = Some (off, bs') \<Longrightarrow> blocks_wf bs'"
  using abs_malloc_extent abs_malloc_aligned abs_malloc_no_adjacent by (simp add: blocks_wf_iff) blast

lemma blocks_wf_free:
  "blocks_wf bs \<Longrightarrow> block_at off bs = Some (s, f) \<Longrightarrow> blocks_wf (abs_free off bs)"
  using block_at_split [of off bs s f] abs_free_no_adjacent
  by (auto simp: blocks_wf_iff abs_free_extent abs_free_aligned)

lemma live_rep:
  "heap_rep h bs \<Longrightarrow> (p, s) \<in> live h \<longleftrightarrow>
     (\<exists>off. block_at off bs = Some (s, False) \<and> p = s_head h + of_nat (off + 32))"
  using heap_rep_unique by (auto simp: live_def)

lemma unat_payload:
  assumes "heap_rep h bs" "block_at off bs = Some (s, f)"
  shows "unat (s_head h + of_nat (off + 32)) = unat (s_head h) + off + 32"
    "unat (s_head h) + off + 32 + s < 2 ^ 64"
  using assms block_at_bound [OF assms(2)] unat_plus_nat [of "s_head h" "off + 32"]
  by (auto simp: heap_rep_def fits_def)

lemma payload_disjoint:
  assumes "heap_rep h bs" "block_at o1 bs = Some (s1, f1)" "block_at o2 bs = Some (s2, f2)" "o1 < o2"
  shows "span (s_head h + of_nat (o1 + 32)) s1 \<inter> span (s_head h + of_nat (o2 + 32)) s2 = {}"
proof (rule span_disjoint_le(1))
  show "unat (s_head h + of_nat (o1 + 32)) + s1 \<le> unat (s_head h + of_nat (o2 + 32))"
    using block_at_disjoint [OF assms(2-4)]
    unfolding unat_payload(1) [OF assms(1,2)] unat_payload(1) [OF assms(1,3)] by simp
  show "unat (s_head h + of_nat (o2 + 32)) + s2 \<le> 2 ^ 64"
    using unat_payload(2) [OF assms(1,3)] unfolding unat_payload(1) [OF assms(1,3)] by simp
qed

lemma payload_inj:
  assumes "heap_rep h bs" "block_at o1 bs = Some (s1, f1)" "block_at o2 bs = Some (s2, f2)"
    "s_head h + of_nat (o1 + 32) = s_head h + of_nat (o2 + 32)"
  shows "o1 = o2"
proof -
  have "unat (s_head h) + o1 + 32 = unat (s_head h) + o2 + 32"
    using unat_payload(1) [OF assms(1,2)] unat_payload(1) [OF assms(1,3)] assms(4) by (simp only:)
  then show ?thesis by simp
qed

lemma kfree_spec:
  assumes "heap_rep h bs" "block_at off bs = Some (s, False)"
  shows "heap_rep (kfree (s_head h + of_nat (off + 32)) h) (abs_free off bs)"
    "s_head (kfree (s_head h + of_nat (off + 32)) h) = s_head h"
    "block_at o1 bs = Some (s1, False) \<Longrightarrow> o1 \<noteq> off \<Longrightarrow> x \<in> span (s_head h + of_nat (o1 + 32)) s1 \<Longrightarrow>
       hmem (kfree (s_head h + of_nat (off + 32)) h) x = hmem h x"
proof -
  obtain xs ys where bs: "bs = xs @ (s, False) # ys" and off: "off = extent xs"
    using block_at_split [OF assms(2)] by blast
  have q: "s_head h + of_nat (extent xs) + 32 = s_head h + of_nat (off + 32)" by (simp add: off)
  note k = kfree_chain [OF assms(1) [unfolded bs], unfolded q]
  show "heap_rep (kfree (s_head h + of_nat (off + 32)) h) (abs_free off bs)"
    "s_head (kfree (s_head h + of_nat (off + 32)) h) = s_head h"
    using k by (simp_all add: bs off)
  show "hmem (kfree (s_head h + of_nat (off + 32)) h) x = hmem h x"
    if b: "block_at o1 bs = Some (s1, False)" "o1 \<noteq> off" "x \<in> span (s_head h + of_nat (o1 + 32)) s1"
  proof -
    have fit: "fits (s_head h) bs" using assms(1) by (simp add: heap_rep_def)
    have "x \<notin> sysarea (s_head h) bs" by (rule payload_not_sysarea [OF b(1) fit b(3)])
    moreover have "x \<notin> span (s_head h + of_nat (off + 32)) s"
      using payload_disjoint [OF assms(1) b(1) assms(2)] payload_disjoint [OF assms(1,2) b(1)] b(2,3)
      by (cases "o1 < off") auto
    ultimately have "x \<notin> sysarea (s_head h) (xs @ (s, True) # ys)"
      using sysarea_free_block [of "s_head h" xs s ys] fit bs off by blast
    with k show ?thesis by blast
  qed
qed


lemma heap_rep_poke:
  assumes "heap_rep h bs" "block_at off bs = Some (s, False)" "x \<in> span (s_head h + of_nat (off + 32)) s"
  shows "heap_rep (poke x v h) bs"
proof -
  have fit: "fits (s_head h) bs" using assms(1) by (simp add: heap_rep_def)
  have "chain ((hmem h)(x := v)) 0 (s_head h) bs 0 = chain (hmem h) 0 (s_head h) bs 0"
    by (rule chain_cong) (use payload_not_sysarea [OF assms(2) fit assms(3)] in auto)
  with assms(1) show ?thesis by (simp add: heap_rep_def poke_def)
qed

subsection \<open>The interface of a block allocator\<close>

text \<open>
  \<open>blocks\<close> is the set of blocks in use (address, payload size), \<open>bytes\<close> the memory they live in and
  \<open>store\<close> a client's write into a block it owns.
\<close>

primrec alloc_list :: "(u64 \<Rightarrow> 'h \<Rightarrow> (u64 \<times> 'h) option) \<Rightarrow> u64 list \<Rightarrow> 'h \<Rightarrow> (u64 list \<times> 'h) option" where
  "alloc_list alloc [] h = Some ([], h)"
| "alloc_list alloc (n # ns) h =
     Option.bind (alloc n h) (\<lambda>(p, h1).
       Option.bind (alloc_list alloc ns h1) (\<lambda>(ps, h2). Some (p # ps, h2)))"

definition size_ok :: "u64 \<Rightarrow> bool" where
  "size_ok n \<longleftrightarrow> 0 < unat n \<and> unat n + 7 < 2 ^ 64"

locale block_allocator =
  fixes alloc :: "u64 \<Rightarrow> 'h \<Rightarrow> (u64 \<times> 'h) option"
    and release :: "u64 \<Rightarrow> 'h \<Rightarrow> 'h"
    and store :: "u64 \<Rightarrow> u8 \<Rightarrow> 'h \<Rightarrow> 'h"
    and bytes :: "'h \<Rightarrow> memory"
    and blocks :: "'h \<Rightarrow> (u64 \<times> nat) set"
    and inv :: "'h \<Rightarrow> bool"
  assumes alloc_returns: "inv h \<Longrightarrow> \<exists>p h'. alloc n h = Some (p, h') \<and> inv h'"
    and alloc_fails: "inv h \<Longrightarrow> alloc n h = Some (0, h') \<Longrightarrow> h' = h"
    and alloc_adds: "inv h \<Longrightarrow> alloc n h = Some (p, h') \<Longrightarrow> p \<noteq> 0 \<Longrightarrow> size_ok n \<Longrightarrow>
       \<exists>s. unat n \<le> s \<and> blocks h' = insert (p, s) (blocks h) \<and> p \<notin> fst ` blocks h"
    and alloc_bytes: "inv h \<Longrightarrow> alloc n h = Some (p, h') \<Longrightarrow> (q, t) \<in> blocks h \<Longrightarrow> x \<in> span q t \<Longrightarrow>
       bytes h' x = bytes h x"
    and blocks_disjoint: "inv h \<Longrightarrow> (p, s) \<in> blocks h \<Longrightarrow> (q, t) \<in> blocks h \<Longrightarrow> p \<noteq> q \<Longrightarrow>
       span p s \<inter> span q t = {}"
    and blocks_fun: "inv h \<Longrightarrow> (p, s) \<in> blocks h \<Longrightarrow> (p, t) \<in> blocks h \<Longrightarrow> s = t"
    and release_inv: "inv h \<Longrightarrow> (p, s) \<in> blocks h \<Longrightarrow>
       inv (release p h) \<and> blocks (release p h) = blocks h - {(p, s)}"
    and release_bytes: "inv h \<Longrightarrow> (p, s) \<in> blocks h \<Longrightarrow> (q, t) \<in> blocks h \<Longrightarrow> q \<noteq> p \<Longrightarrow>
       x \<in> span q t \<Longrightarrow> bytes (release p h) x = bytes h x"
    and store_inv: "inv h \<Longrightarrow> (p, s) \<in> blocks h \<Longrightarrow> x \<in> span p s \<Longrightarrow>
       inv (store x v h) \<and> blocks (store x v h) = blocks h"
begin

lemma alloc_list_blocks:
  assumes "inv h" "alloc_list alloc ns h = Some (ps, h')" "0 \<notin> set ps" "list_all size_ok ns"
  shows "inv h' \<and> blocks h \<subseteq> blocks h' \<and> distinct ps \<and> fst ` blocks h \<inter> set ps = {} \<and>
    list_all2 (\<lambda>p n. \<exists>s. unat n \<le> s \<and> (p, s) \<in> blocks h') ps ns"
  using assms
proof (induction ns arbitrary: h ps)
  case (Cons n ns)
  obtain p h1 qs where a: "alloc n h = Some (p, h1)" "alloc_list alloc ns h1 = Some (qs, h')" "ps = p # qs"
    using Cons.prems(2) by (auto split: Option.bind_splits)
  have inv1: "inv h1" using alloc_returns [OF Cons.prems(1), of n] a(1) by auto
  obtain s where s: "unat n \<le> s" "blocks h1 = insert (p, s) (blocks h)" "p \<notin> fst ` blocks h"
    using alloc_adds [OF Cons.prems(1) a(1)] Cons.prems(3,4) a(3) by auto
  note IH = Cons.IH [OF inv1 a(2)]
  have "inv h'" "blocks h1 \<subseteq> blocks h'" "distinct qs" "fst ` blocks h1 \<inter> set qs = {}"
    "list_all2 (\<lambda>p n. \<exists>s. unat n \<le> s \<and> (p, s) \<in> blocks h') qs ns"
    using IH Cons.prems(3,4) a(3) by auto
  with s a(3) show ?case by auto
qed auto

lemma alloc_list_disjoint:
  assumes "inv h" "alloc_list alloc ns h = Some (ps, h')" "0 \<notin> set ps" "list_all size_ok ns"
    and "i < length ns" "j < length ns" "i \<noteq> j"
  shows "span (ps ! i) (unat (ns ! i)) \<inter> span (ps ! j) (unat (ns ! j)) = {}"
proof -
  note A = alloc_list_blocks [OF assms(1-4)]
  then have len: "length ps = length ns" by (auto dest: list_all2_lengthD)
  have nth: "\<exists>s. unat (ns ! k) \<le> s \<and> (ps ! k, s) \<in> blocks h'" if "k < length ns" for k
    using A that by (auto simp: list_all2_conv_all_nth)
  obtain s t where s: "unat (ns ! i) \<le> s" "(ps ! i, s) \<in> blocks h'"
    and t: "unat (ns ! j) \<le> t" "(ps ! j, t) \<in> blocks h'"
    using nth [OF assms(5)] nth [OF assms(6)] by blast
  have d: "distinct ps" and i: "inv h'" using A by simp_all
  have "ps ! i \<noteq> ps ! j" using nth_eq_iff_index_eq [OF d] assms(5-7) unfolding len [symmetric] by blast
  then have "span (ps ! i) s \<inter> span (ps ! j) t = {}" by (rule blocks_disjoint [OF i s(2) t(2)])
  with span_mono [OF s(1), of "ps ! i"] span_mono [OF t(1), of "ps ! j"] show ?thesis by blast
qed

lemma alloc_list_bytes:
  assumes "inv h" "alloc_list alloc ns h = Some (ps, h')" "0 \<notin> set ps" "list_all size_ok ns"
    and "(q, t) \<in> blocks h" "x \<in> span q t"
  shows "bytes h' x = bytes h x"
  using assms
proof (induction ns arbitrary: h ps)
  case (Cons n ns)
  obtain p h1 qs where a: "alloc n h = Some (p, h1)" "alloc_list alloc ns h1 = Some (qs, h')" "ps = p # qs"
    using Cons.prems(2) by (auto split: Option.bind_splits)
  have inv1: "inv h1" using alloc_returns [OF Cons.prems(1), of n] a(1) by auto
  have "(q, t) \<in> blocks h1" using alloc_adds [OF Cons.prems(1) a(1)] Cons.prems(3-5) a(3) by auto
  then have "bytes h' x = bytes h1 x" using Cons.IH [OF inv1 a(2)] Cons.prems(3,4,6) a(3) by auto
  then show ?case using alloc_bytes [OF Cons.prems(1) a(1) Cons.prems(5,6)] by simp
qed simp

lemma alloc_list_old:
  assumes "inv h" "alloc_list alloc ns h = Some (ps, h')" "0 \<notin> set ps" "list_all size_ok ns"
    and "(q, t) \<in> blocks h"
  shows "(q, t) \<in> blocks h' \<and> q \<notin> set ps \<and> (\<forall>x \<in> span q t. bytes h' x = bytes h x) \<and>
    (\<forall>i < length ns. span (ps ! i) (unat (ns ! i)) \<inter> span q t = {})"
proof -
  note A = alloc_list_blocks [OF assms(1-4)]
  then have len: "length ps = length ns" by (auto dest: list_all2_lengthD)
  have q: "(q, t) \<in> blocks h'" "q \<notin> set ps" using A assms(5) by force+
  have "span (ps ! i) (unat (ns ! i)) \<inter> span q t = {}" if i: "i < length ns" for i
  proof -
    obtain s where s: "unat (ns ! i) \<le> s" "(ps ! i, s) \<in> blocks h'"
      using A i by (auto simp: list_all2_conv_all_nth)
    have "ps ! i \<noteq> q" using q(2) i len by (metis nth_mem)
    then have "span (ps ! i) s \<inter> span q t = {}" using blocks_disjoint [OF _ s(2) q(1)] A by simp
    with span_mono [OF s(1), of "ps ! i"] show ?thesis by blast
  qed
  then show ?thesis using q alloc_list_bytes [OF assms] by blast
qed

end

lemma alloc_nonnull:
  assumes "heap_rep h bs" "block_at off bs = Some (s, f)"
  shows "s_head h + of_nat (off + 32) \<noteq> 0"
  using unat_payload(1) [OF assms] by (metis add_is_0 unat_0 zero_neq_numeral)

lemma kmalloc_cases:
  assumes rep: "heap_rep h bs" and wf: "blocks_wf bs" and k: "kmalloc n h = Some (p, h')"
  obtains (fail) "p = 0" "h' = h"
  | (ok) off bs' s where "n \<noteq> 0" "abs_malloc (unat ((n + 7) AND NOT 7)) bs = Some (off, bs')"
      "p = s_head h + of_nat (off + 32)" "p \<noteq> 0" "heap_rep h' bs'" "blocks_wf bs'" "s_head h' = s_head h"
      "block_at off bs' = Some (s, False)" "unat ((n + 7) AND NOT 7) \<le> s"
      "\<forall>x. x \<notin> sysarea (s_head h) bs \<longrightarrow> hmem h' x = hmem h x"
proof (cases "n = 0")
  case True
  with k show ?thesis by (intro fail) (auto simp: kmalloc_def)
next
  case False
  show ?thesis
  proof (cases "abs_malloc (unat ((n + 7) AND NOT 7)) bs")
    case None
    then show ?thesis using kmalloc_spec [OF rep False] k by (intro fail) (simp_all only: option.case option.inject prod.inject)
  next
    case (Some r)
    obtain off bs' where r: "r = (off, bs')" by (cases r)
    have h': "kmalloc n h = Some (s_head h + of_nat (off + 32), h')" "heap_rep h' bs'" "s_head h' = s_head h"
      "\<forall>x. x \<notin> sysarea (s_head h) bs \<longrightarrow> hmem h' x = hmem h x"
      and p: "p = s_head h + of_nat (off + 32)"
      using kmalloc_spec [OF rep False] k unfolding Some r by auto
    obtain s where s: "unat ((n + 7) AND NOT 7) \<le> s" "block_at off bs' = Some (s, False)"
      using abs_malloc_block [OF Some [unfolded r]] by blast
    have "p \<noteq> 0" using alloc_nonnull [OF h'(2) s(2)] p h'(3) by simp
    with h' p s show ?thesis
      using ok False Some r blocks_wf_malloc [OF wf round_up_8_dvd] by blast
  qed
qed

lemma set_eqI_pair: "(\<And>q t. (q, t) \<in> A \<longleftrightarrow> (q, t) \<in> B) \<Longrightarrow> A = B"
  by (rule set_eqI) (metis surj_pair)

lemma live_kmalloc:
  assumes "heap_rep h bs" "heap_rep h' bs'" "s_head h' = s_head h"
    "abs_malloc n bs = Some (off, bs')" "block_at off bs' = Some (s, False)"
  shows "live h' = insert (s_head h + of_nat (off + 32), s) (live h)"
proof -
  have C: "block_at o1 bs' = Some (t, False) \<longleftrightarrow> o1 = off \<and> t = s \<or> block_at o1 bs = Some (t, False)" for o1 t
    using abs_malloc_keeps [OF assms(4), of o1 t] abs_malloc_only [OF assms(4), of o1 t] assms(5)
    by (cases "o1 = off") auto
  have "(q, t) \<in> live h' \<longleftrightarrow> (q, t) \<in> insert (s_head h + of_nat (off + 32), s) (live h)" for q t
    unfolding live_rep [OF assms(2)] insert_iff live_rep [OF assms(1)] assms(3) C prod.inject by blast
  then show ?thesis by (rule set_eqI_pair)
qed

lemma live_blockE:
  assumes "heap_rep h bs" "(p, s) \<in> live h"
  obtains off where "block_at off bs = Some (s, False)" "p = s_head h + of_nat (off + 32)"
  using assms(2) unfolding live_rep [OF assms(1)] by blast

lemma kmalloc_adds:
  assumes rep: "heap_rep h bs" and wf: "blocks_wf bs" and k: "kmalloc n h = Some (p, h')" "p \<noteq> 0" "size_ok n"
  shows "\<exists>s. unat n \<le> s \<and> live h' = insert (p, s) (live h) \<and> p \<notin> fst ` live h"
proof (rule kmalloc_cases [OF rep wf k(1)])
  fix off bs' s
  assume a: "abs_malloc (unat ((n + 7) AND NOT 7)) bs = Some (off, bs')"
    "p = s_head h + of_nat (off + 32)" "heap_rep h' bs'" "s_head h' = s_head h"
    "block_at off bs' = Some (s, False)" "unat ((n + 7) AND NOT 7) \<le> s"
  have "unat n \<le> unat ((n + 7) AND NOT 7)"
    using k(3) round_up_8 [of n] unfolding size_ok_def by linarith
  then have n: "unat n \<le> s" using a(6) by (rule order_trans)
  obtain u where u: "block_at off bs = Some (u, True)" using abs_malloc_block [OF a(1)] by blast
  have "(p, t) \<notin> live h" for t
  proof
    assume "(p, t) \<in> live h"
    then obtain o1 where o1: "block_at o1 bs = Some (t, False)" "p = s_head h + of_nat (o1 + 32)" by (rule live_blockE [OF rep])
    with payload_inj [OF rep u o1(1)] a(2) u show False by simp
  qed
  then have "p \<notin> fst ` live h" by (metis imageE prod.collapse)
  with n show ?thesis using live_kmalloc [OF rep a(3,4,1,5), folded a(2)] by blast
qed (use k(2) in auto)

lemma live_payload_kept:
  assumes rep: "heap_rep h bs" "blocks_wf bs" and k: "kmalloc n h = Some (p, h')" and b: "(q, t) \<in> live h" "x \<in> span q t"
  shows "hmem h' x = hmem h x"
proof -
  have "fits (s_head h) bs" using rep by (simp add: heap_rep_def)
  then have "x \<notin> sysarea (s_head h) bs" using b payload_not_sysarea by (auto simp: live_rep [OF rep(1)])
  then have "(h' = h \<Longrightarrow> ?thesis)" "(\<forall>x. x \<notin> sysarea (s_head h) bs \<longrightarrow> hmem h' x = hmem h x \<Longrightarrow> ?thesis)" by blast+
  then show ?thesis by (rule kmalloc_cases [OF rep k])
qed

lemma live_disjoint:
  assumes rep: "heap_rep h bs" and l: "(p, s) \<in> live h" "(q, t) \<in> live h"
  shows "p \<noteq> q \<Longrightarrow> span p s \<inter> span q t = {}" "p = q \<Longrightarrow> s = t"
proof -
  obtain o1 where 1: "block_at o1 bs = Some (s, False)" "p = s_head h + of_nat (o1 + 32)" by (rule live_blockE [OF rep l(1)])
  obtain o2 where 2: "block_at o2 bs = Some (t, False)" "q = s_head h + of_nat (o2 + 32)" by (rule live_blockE [OF rep l(2)])
  show "span p s \<inter> span q t = {}" if "p \<noteq> q"
  proof -
    have "o1 < o2 \<or> o2 < o1" using 1(2) 2(2) that by (metis linorder_neqE_nat)
    then show ?thesis using payload_disjoint [OF rep 1(1) 2(1)] payload_disjoint [OF rep 2(1) 1(1)] 1(2) 2(2) by blast
  qed
  show "s = t" if "p = q" using payload_inj [OF rep 1(1) 2(1)] 1 2 that by simp
qed

lemma live_kfree:
  assumes rep: "heap_rep h bs" and wf: "blocks_wf bs" and l: "(p, s) \<in> live h"
  shows "pool_ok (kfree p h) \<and> live (kfree p h) = live h - {(p, s)}"
proof -
  obtain off where b: "block_at off bs = Some (s, False)" "p = s_head h + of_nat (off + 32)" by (rule live_blockE [OF rep l])
  note k = kfree_spec [OF rep b(1), folded b(2)]
  obtain xs ys where bs: "bs = xs @ (s, False) # ys" "off = extent xs"
    using block_at_split [OF b(1)] by blast
  have "(q, t) \<in> live (kfree p h) \<longleftrightarrow> (q, t) \<in> live h - {(p, s)}" for q t
  proof -
    have C: "block_at o1 (abs_free off bs) = Some (t, False) \<longleftrightarrow> o1 \<noteq> off \<and> block_at o1 bs = Some (t, False)" for o1
      using abs_free_keeps [of o1 bs t off] abs_free_only [of o1 xs s False ys t] bs by blast
    have D: "(q, t) \<noteq> (p, s) \<longleftrightarrow> o1 \<noteq> off"
      if "block_at o1 bs = Some (t, False)" "q = s_head h + of_nat (o1 + 32)" for o1
      using payload_inj [OF rep b(1) that(1)] that b by (cases "o1 = off") auto
    show ?thesis
      unfolding live_rep [OF k(1)] Diff_iff singleton_iff live_rep [OF rep] k(2) C using D by blast
  qed
  then have "live (kfree p h) = live h - {(p, s)}" by (rule set_eqI_pair)
  moreover have "pool_ok (kfree p h)" using k(1) blocks_wf_free [OF wf b(1)] by (auto simp: inv_defs)
  ultimately show ?thesis by blast
qed

lemma live_poke:
  assumes rep: "heap_rep h bs" and wf: "blocks_wf bs" and "(p, s) \<in> live h" "x \<in> span p s"
  shows "pool_ok (poke x v h) \<and> live (poke x v h) = live h"
proof -
  have r: "heap_rep (poke x v h) bs"
    using assms(3,4) heap_rep_poke [OF rep] unfolding live_rep [OF rep] by blast
  moreover have "s_head (poke x v h) = s_head h" by (simp add: poke_def)
  ultimately have "(q, t) \<in> live (poke x v h) \<longleftrightarrow> (q, t) \<in> live h" for q t
    unfolding live_rep [OF rep] live_rep [OF r] by simp
  then show ?thesis using wf r set_eqI_pair [of "live (poke x v h)"] by (auto simp: inv_defs)
qed

interpretation kheap: block_allocator kmalloc kfree poke hmem live pool_ok
proof
  fix h :: heap and n p h' q t x s v
  assume ok: "pool_ok h"
  then obtain bs where rep: "heap_rep h bs" and wf: "blocks_wf bs" by (auto simp: inv_defs)
  show "\<exists>p h'. kmalloc n h = Some (p, h') \<and> pool_ok h'"
  proof (cases "n = 0")
    case True
    then show ?thesis using ok by (simp add: kmalloc_def)
  next
    case False
    then obtain p h' where k: "kmalloc n h = Some (p, h')"
      using kmalloc_spec [OF rep False] by (cases "abs_malloc (unat ((n + 7) AND NOT 7)) bs") auto
    moreover have "pool_ok h'"
      by (rule kmalloc_cases [OF rep wf k]) (use ok in \<open>auto simp: inv_defs\<close>)
    ultimately show ?thesis by blast
  qed
  show "h' = h" if "kmalloc n h = Some (0, h')"
    by (rule kmalloc_cases [OF rep wf that]) auto
  show "hmem (kfree p h) x = hmem h x"
    if "(p, s) \<in> live h" "(q, t) \<in> live h" "q \<noteq> p" "x \<in> span q t"
    using that(1,2,4) that(3) kfree_spec(3) [OF rep] unfolding live_rep [OF rep] by blast
  note laws = kmalloc_adds [OF rep wf] live_payload_kept [OF rep wf] live_disjoint [OF rep] live_kfree [OF rep wf] live_poke [OF rep wf]
  show "kmalloc n h = Some (p, h') \<Longrightarrow> p \<noteq> 0 \<Longrightarrow> size_ok n \<Longrightarrow>
      \<exists>s. unat n \<le> s \<and> live h' = insert (p, s) (live h) \<and> p \<notin> fst ` live h"
    "kmalloc n h = Some (p, h') \<Longrightarrow> (q, t) \<in> live h \<Longrightarrow> x \<in> span q t \<Longrightarrow> hmem h' x = hmem h x"
    "(p, s) \<in> live h \<Longrightarrow> (q, t) \<in> live h \<Longrightarrow> p \<noteq> q \<Longrightarrow> span p s \<inter> span q t = {}"
    "(p, s) \<in> live h \<Longrightarrow> (p, t) \<in> live h \<Longrightarrow> s = t"
    "(p, s) \<in> live h \<Longrightarrow> pool_ok (kfree p h) \<and> live (kfree p h) = live h - {(p, s)}"
    "(p, s) \<in> live h \<Longrightarrow> x \<in> span p s \<Longrightarrow> pool_ok (poke x v h) \<and> live (poke x v h) = live h"
    by (use laws in \<open>blast intro!: laws\<close>)+
qed

text \<open>
  A change of memory that spares the headers and the free blocks is invisible to the heap; bytes
  outside the pool and bytes of blocks in use are such.
\<close>

lemma pool_frame:
  assumes "heap_rep h bs" "blocks_wf bs" "\<And>x. x \<in> sysarea (s_head h) bs \<Longrightarrow> m x = hmem h x"
  shows "pool_ok (h\<lparr>hmem := m\<rparr>) \<and> live (h\<lparr>hmem := m\<rparr>) = live h"
proof -
  have r: "heap_rep (h\<lparr>hmem := m\<rparr>) bs"
    using assms(1) chain_cong [OF assms(3)] by (simp add: heap_rep_def)
  then have "(q, t) \<in> live (h\<lparr>hmem := m\<rparr>) \<longleftrightarrow> (q, t) \<in> live h" for q t
    unfolding live_rep [OF r] live_rep [OF assms(1)] by simp
  then show ?thesis using assms(2) r set_eqI_pair [of "live (h\<lparr>hmem := m\<rparr>)"] by (auto simp: inv_defs)
qed

lemma payload_write_keeps:
  assumes "pool_ok h" "(p, s) \<in> live h" "\<And>x. x \<notin> span p s \<Longrightarrow> m x = hmem h x"
  shows "pool_ok (h\<lparr>hmem := m\<rparr>) \<and> live (h\<lparr>hmem := m\<rparr>) = live h"
proof -
  obtain bs where rep: "heap_rep h bs" and wf: "blocks_wf bs" using assms(1) by (auto simp: inv_defs)
  have fit: "fits (s_head h) bs" using rep by (simp add: heap_rep_def)
  obtain off where off: "block_at off bs = Some (s, False)" "p = s_head h + of_nat (off + 32)"
    using assms(2) unfolding live_rep [OF rep] by blast
  show ?thesis
    by (rule pool_frame [OF rep wf]) (use assms(3) payload_not_sysarea [OF off(1) fit] off(2) in blast)
qed

definition pool_span :: "heap \<Rightarrow> u64 set" where
  "pool_span h = span (s_head h) 262144"

lemma pool_bounds:
  assumes "heap_rep h bs" "blocks_wf bs"
  shows "unat (s_head h) + 262144 < 2 ^ 64"
    "x \<in> pool_span h \<longleftrightarrow> unat (s_head h) \<le> unat x \<and> unat x < unat (s_head h) + 262144"
proof -
  show *: "unat (s_head h) + 262144 < 2 ^ 64"
    using assms by (simp add: heap_rep_def fits_def blocks_wf_def)
  show "x \<in> pool_span h \<longleftrightarrow> unat (s_head h) \<le> unat x \<and> unat x < unat (s_head h) + 262144"
    unfolding pool_span_def by (rule in_span_iff) (use * in simp)
qed

lemma outside_pool_keeps:
  assumes "pool_ok h" "\<And>x. x \<in> pool_span h \<Longrightarrow> m x = hmem h x"
  shows "pool_ok (h\<lparr>hmem := m\<rparr>) \<and> live (h\<lparr>hmem := m\<rparr>) = live h"
proof -
  obtain bs where rep: "heap_rep h bs" and wf: "blocks_wf bs" using assms(1) by (auto simp: inv_defs)
  have "x \<in> pool_span h" if "x \<in> sysarea (s_head h) bs" for x
    using sysarea_bounds [OF _ that] rep wf pool_bounds(2) [OF rep wf, of x]
    by (auto simp: heap_rep_def blocks_wf_def)
  then show ?thesis using assms(2) by (intro pool_frame [OF rep wf]) blast
qed

lemma span_payload_bound:
  assumes "pool_ok h" "(p, s) \<in> live h"
  shows "unat p + s < 2 ^ 64"
proof -
  obtain bs where rep: "heap_rep h bs" using assms(1) by (auto simp: inv_defs)
  obtain off where "block_at off bs = Some (s, False)" "p = s_head h + of_nat (off + 32)"
    using assms(2) unfolding live_rep [OF rep] by blast
  then show ?thesis using unat_payload [OF rep] by metis
qed

lemma live_in_pool:
  assumes "pool_ok h" "(p, s) \<in> live h"
  shows "span p s \<subseteq> pool_span h" "0 < unat p"
proof -
  obtain bs where rep: "heap_rep h bs" and wf: "blocks_wf bs" using assms(1) by (auto simp: inv_defs)
  obtain off where off: "block_at off bs = Some (s, False)" "p = s_head h + of_nat (off + 32)"
    using assms(2) unfolding live_rep [OF rep] by blast
  have p: "unat p = unat (s_head h) + off + 32" using unat_payload(1) [OF rep off(1)] off(2) by simp
  then show "0 < unat p" by simp
  have e: "off + 32 + s \<le> 262144" using block_at_bound [OF off(1)] wf by (simp add: blocks_wf_def)
  show "span p s \<subseteq> pool_span h"
  proof
    fix x assume "x \<in> span p s"
    then have "unat p \<le> unat x" "unat x < unat p + s"
      using in_span_iff [of p s x] span_payload_bound [OF assms] by auto
    then show "x \<in> pool_span h" using p e pool_bounds(2) [OF rep wf, of x] by auto
  qed
qed

subsection \<open>Building the pool\<close>

definition fresh_pool :: "block list" where
  "fresh_pool = [(262112, True)]"

definition write_header :: "u64 \<Rightarrow> memory \<Rightarrow> memory" where
  "write_header a m = set_prev a 0 (set_next a 0 (set_free a True
     (set_size a (ucast (ucast (HEAP_PAGES * 4096) - SIZEOF_HEADER)) (set_magic a HEAP_MAGIC m))))"

lemma fresh_size: "ucast (ucast (HEAP_PAGES * 4096) - SIZEOF_HEADER :: u64) = (262112 :: u32)"
  by (simp add: const_defs)

lemma heap_rep_fresh:
  assumes "0 < unat a" "unat a + 262144 < 2 ^ 64"
  shows "heap_rep (h\<lparr>hmem := write_header a m, s_head := a\<rparr>) fresh_pool"
  using assms by (simp add: heap_rep_def fresh_pool_def fits_def write_header_def fresh_size)

lemma blocks_wf_fresh: "blocks_wf fresh_pool"
  by (simp add: blocks_wf_def fresh_pool_def)

lemma heap_init_eq:
  "heap_init (p, h) =
     (let (first_phys, p1) = pmm_alloc p in
      if first_phys = 0 then (p1, h)
      else let p2 = fold (\<lambda>_ p. snd (pmm_alloc p)) [1..<unat HEAP_PAGES] p1;
               a = phys_to_virt p2 first_phys
           in (p2, h\<lparr>hmem := write_header a (hmem h), s_head := a\<rparr>))"
  by (simp add: heap_init_def write_header_def Let_def split: prod.splits)

lemma pmm_alloc_hhdm: "g_hhdm_offset (snd (pmm_alloc p)) = g_hhdm_offset p"
  by (cases "free_set p = {}") (simp_all add: pmm_alloc_eq pmm_take_spec)

lemma pmm_allocs_hhdm: "g_hhdm_offset (fold (\<lambda>_ p. snd (pmm_alloc p)) xs p) = g_hhdm_offset p"
  by (induction xs arbitrary: p) (simp_all add: pmm_alloc_hhdm)

lemma pool_address:
  assumes "P < npages" "unat (g_hhdm_offset s) + P * 4096 + 262144 < 2 ^ 64"
  shows "unat (phys_to_virt s (of_nat P * 4096)) = unat (g_hhdm_offset s) + P * 4096"
  using unat_add_lt [of "of_nat P * 4096" "g_hhdm_offset s"] unat_page_addr [OF assms(1)] assms(2)
  by (simp add: phys_to_virt_def)

lemma heap_init_pool:
  fixes p :: pmm and h :: heap
  assumes inv: "pmm_inv p" and P: "P \<in> free_set p" "\<And>q. q \<in> free_set p \<Longrightarrow> P \<le> q"
    and room: "unat (g_hhdm_offset p) + P * 4096 + 262144 < 2 ^ 64"
  defines "st \<equiv> heap_init (p, h)"
  shows "heap_rep (snd st) fresh_pool" "unat (s_head (snd st)) = unat (g_hhdm_offset p) + P * 4096"
    "fst st = fold (\<lambda>_ p. snd (pmm_alloc p)) [0..<64] p"
    "x \<notin> span (s_head (snd st)) 32 \<Longrightarrow> hmem (snd st) x = hmem h x"
proof -
  have m: "Min (free_set p) = P" using P by (intro Min_eqI) auto
  have r: "P < npages" "0 < P" using pmm.pages_range [OF inv P(1)] by simp_all
  have a: "fst (pmm_alloc p) = of_nat P * 4096" using pmm.alloc_least [OF inv] P(1) m by auto
  have nz: "fst (pmm_alloc p) \<noteq> 0" using pmm.alloc_null_iff [OF inv] P(1) by auto
  let ?p2 = "fold (\<lambda>_ p. snd (pmm_alloc p)) [1..<unat HEAP_PAGES] (snd (pmm_alloc p))"
  have off: "g_hhdm_offset ?p2 = g_hhdm_offset p" by (simp add: pmm_allocs_hhdm pmm_alloc_hhdm)
  let ?v = "phys_to_virt ?p2 (of_nat P * 4096)"
  have v: "unat ?v = unat (g_hhdm_offset p) + P * 4096"
    using pool_address [OF r(1), of ?p2] off room by simp
  have st: "st = (?p2, h\<lparr>hmem := write_header ?v (hmem h), s_head := ?v\<rparr>)"
    unfolding st_def heap_init_eq using a nz by (simp add: split_beta Let_def)
  show "heap_rep (snd st) fresh_pool" using heap_rep_fresh [of ?v] v r(2) room st by simp
  show "unat (s_head (snd st)) = unat (g_hhdm_offset p) + P * 4096" using v st by simp
  have "[0..<64] = 0 # [1..<unat HEAP_PAGES]" by (simp add: const_defs upt_conv_Cons)
  then show "fst st = fold (\<lambda>_ p. snd (pmm_alloc p)) [0..<64] p" using st by simp
  show "hmem (snd st) x = hmem h x" if "x \<notin> span (s_head (snd st)) 32"
    using that by (simp add: st write_header_def set_field_other)
qed

lemma heap_init_ready:
  assumes "pmm_inv p" "{P..<P + 64} \<subseteq> free_set p" "\<forall>q \<in> free_set p. P \<le> q"
    and "unat (g_hhdm_offset p) + P * 4096 + 262144 < 2 ^ 64"
  shows "case heap_init (p, h) of (p', h') \<Rightarrow>
    pmm_inv p' \<and> free_set p' = free_set p - {P..<P + 64} \<and>
    unat (s_head h') = unat (g_hhdm_offset p) + P * 4096 \<and> heap_rep h' fresh_pool \<and>
    (\<forall>x. x \<notin> span (s_head h') 32 \<longrightarrow> hmem h' x = hmem h x)"
proof -
  have P: "P \<in> free_set p" "\<And>q. q \<in> free_set p \<Longrightarrow> P \<le> q" using assms(2,3) by auto
  note init = heap_init_pool [OF assms(1) P assms(4), where h = h]
  have "pmm_inv (fst (heap_init (p, h))) \<and> free_set (fst (heap_init (p, h))) = free_set p - {P..<P + 64}"
    using pmm.allocs_contiguous [OF assms(1), of P "[0..<64]"] assms(2) P init(3) by simp
  with init show ?thesis by (auto simp: split_beta)
qed

subsection \<open>Reachable heaps\<close>

text \<open>A run of the heap: requests of any size, releases of and stores into blocks in use.\<close>

inductive heap_run :: "heap \<Rightarrow> heap \<Rightarrow> bool" for h0 where
  init: "heap_run h0 h0"
| malloc: "heap_run h0 h \<Longrightarrow> kmalloc n h = Some (p, h') \<Longrightarrow> heap_run h0 h'"
| free: "heap_run h0 h \<Longrightarrow> (p, s) \<in> live h \<Longrightarrow> heap_run h0 (kfree p h)"
| store: "heap_run h0 h \<Longrightarrow> (p, s) \<in> live h \<Longrightarrow> x \<in> span p s \<Longrightarrow> heap_run h0 (poke x v h)"

lemma heap_run_ok: "heap_run h0 h \<Longrightarrow> pool_ok h0 \<Longrightarrow> pool_ok h"
proof (induction rule: heap_run.induct)
  case (malloc h n p h')
  then show ?case using kheap.alloc_returns [of h n] by auto
next
  case (free h p s)
  then show ?case using kheap.release_inv by blast
next
  case (store h p s x v)
  then show ?case using kheap.store_inv by blast
qed

definition zero_heap :: heap where
  "zero_heap = \<lparr>hmem = (\<lambda>_. 0), s_head = 0\<rparr>"

definition demo_heap :: heap where
  "demo_heap = zero_heap\<lparr>hmem := write_header 0x100000 (hmem zero_heap), s_head := 0x100000\<rparr>"

lemma heap_rep_demo: "heap_rep demo_heap fresh_pool"
  unfolding demo_heap_def by (rule heap_rep_fresh) simp_all

lemma pool_ok_demo: "pool_ok demo_heap"
  using heap_rep_demo blocks_wf_fresh by (auto simp: inv_defs)

definition demo_heap2 :: heap where
  "demo_heap2 = snd (the (kmalloc 100 demo_heap))"

definition demo_blocks2 :: "block list" where
  "demo_blocks2 = [(104, False), (261976, True)]"

lemma kmalloc_demo: "kmalloc 100 demo_heap = Some (0x100020, demo_heap2)"
  and heap_rep_demo2: "heap_rep demo_heap2 demo_blocks2" "s_head demo_heap2 = 0x100000"
proof -
  have n: "unat (((100 :: u64) + 7) AND NOT 7) = 104" by (subst round_up_8) simp_all
  have a: "abs_malloc 104 fresh_pool = Some (0, demo_blocks2)"
    by (simp add: fresh_pool_def demo_blocks2_def)
  have s: "s_head demo_heap = 0x100000" by (simp add: demo_heap_def)
  obtain h' where h': "kmalloc 100 demo_heap = Some (0x100020, h')" "heap_rep h' demo_blocks2"
    "s_head h' = 0x100000"
    using kmalloc_spec [OF heap_rep_demo, of 100] unfolding n a s by auto
  then have "demo_heap2 = h'" by (simp add: demo_heap2_def)
  with h' show "kmalloc 100 demo_heap = Some (0x100020, demo_heap2)"
    "heap_rep demo_heap2 demo_blocks2" "s_head demo_heap2 = 0x100000" by simp_all
qed

definition heap_demo_pmm :: pmm where
  "heap_demo_pmm = \<lparr>bitmap = (\<lambda>_. 0)(5 := - 1), s_total_pages = 400, s_free_pages = 64, g_hhdm_offset = 0\<rparr>"

definition heap_demo_pmm1 :: pmm where
  "heap_demo_pmm1 = \<lparr>bitmap = (\<lambda>_. 0)(5 := 1), s_total_pages = 400, s_free_pages = 1, g_hhdm_offset = 0\<rparr>"

lemma heap_demo_pmm_ok: "pmm_inv heap_demo_pmm" "free_set heap_demo_pmm = {320..<384}"
proof -
  have "p \<in> free_set heap_demo_pmm \<longleftrightarrow> p div 64 = 5" for p
    by (auto simp: free_set_def page_free_def heap_demo_pmm_def const_defs)
  moreover have "p div 64 = 5 \<longleftrightarrow> p \<in> {320..<384}" for p :: nat by auto
  ultimately show *: "free_set heap_demo_pmm = {320..<384}" by blast
  then show "pmm_inv heap_demo_pmm"
    unfolding pmm_inv_def by (simp add: const_defs) (simp add: heap_demo_pmm_def)
qed

lemma heap_demo_pmm1_ok: "pmm_inv heap_demo_pmm1" "free_set heap_demo_pmm1 = {320}"
proof -
  have "p \<in> free_set heap_demo_pmm1 \<longleftrightarrow> p div 64 = 5 \<and> p mod 64 = 0" for p
    by (auto simp: free_set_def page_free_def heap_demo_pmm1_def const_defs bit_1_iff)
  moreover have "p div 64 = 5 \<and> p mod 64 = 0 \<longleftrightarrow> p = 320" for p :: nat by auto
  ultimately show *: "free_set heap_demo_pmm1 = {320}" by blast
  then show "pmm_inv heap_demo_pmm1"
    unfolding pmm_inv_def by (simp add: const_defs) (simp add: heap_demo_pmm1_def)
qed

subsection \<open>Properties\<close>

text \<open>
  Claim C4. \<open>kmalloc\<close> is first fit on the block list that the headers encode, for the request rounded up to a
  multiple of 8 bytes. A request of zero bytes, or one whose rounded size no free block has, returns a null
  pointer and changes nothing. Any other takes the first free block that is large enough, splits it when the
  rest can hold a header and 32 bytes, and leaves every byte outside the headers and the free blocks alone; the
  pointer is not null and its block has at least the rounded size, so at least the requested one, for every request
  below \<open>2\<^sup>6\<^sup>4 - 7\<close>. A larger request does not fail as \<open>heap.hpp\<close> promises: the rounding wraps around, the rounded
  size is 0 and the first free block of any size is taken, which leaves a non-null pointer to a block that may
  have no payload at all (\<open>kmalloc_size_wrap\<close>).
\<close>

theorem kmalloc_first_fit:
  assumes "heap_rep h bs"
  shows "let n = (if unat sz + 7 < 2 ^ 64 then (unat sz + 7) div 8 * 8 else 0) in
    if sz = 0 \<or> (\<forall>(s, f) \<in> set bs. f \<longrightarrow> s < n) then kmalloc sz h = Some (0, h)
    else \<exists>off bs' h' s. abs_malloc n bs = Some (off, bs') \<and>
      kmalloc sz h = Some (s_head h + of_nat (off + 32), h') \<and> s_head h + of_nat (off + 32) \<noteq> 0 \<and>
      block_at off bs' = Some (s, False) \<and> n \<le> s \<and>
      heap_rep h' bs' \<and> s_head h' = s_head h \<and>
      (\<forall>x. x \<notin> sysarea (s_head h) bs \<longrightarrow> hmem h' x = hmem h x)"
proof (cases "sz = 0")
  case False
  define n where "n = unat ((sz + 7) AND NOT 7)"
  note K = kmalloc_spec [OF assms(1) False, folded n_def]
  have "if \<forall>(s, f) \<in> set bs. f \<longrightarrow> s < n then kmalloc sz h = Some (0, h)
    else \<exists>off bs' h' s. abs_malloc n bs = Some (off, bs') \<and>
      kmalloc sz h = Some (s_head h + of_nat (off + 32), h') \<and> s_head h + of_nat (off + 32) \<noteq> 0 \<and>
      block_at off bs' = Some (s, False) \<and> n \<le> s \<and>
      heap_rep h' bs' \<and> s_head h' = s_head h \<and>
      (\<forall>x. x \<notin> sysarea (s_head h) bs \<longrightarrow> hmem h' x = hmem h x)"
  proof (cases "abs_malloc n bs")
    case None
    moreover from this have "\<forall>(s, f) \<in> set bs. f \<longrightarrow> s < n" by (auto simp: abs_malloc_None)
    ultimately show ?thesis using K by simp
  next
    case (Some r)
    obtain off bs' where r: "r = (off, bs')" by (cases r)
    obtain h' where h': "kmalloc sz h = Some (s_head h + of_nat (off + 32), h')" "heap_rep h' bs'"
      "s_head h' = s_head h" "\<forall>x. x \<notin> sysarea (s_head h) bs \<longrightarrow> hmem h' x = hmem h x"
      using K unfolding Some r by auto
    obtain s where s: "n \<le> s" "block_at off bs' = Some (s, False)"
      using abs_malloc_block [OF Some [unfolded r]] by blast
    have nz: "s_head h + of_nat (off + 32) \<noteq> 0" using alloc_nonnull [OF h'(2) s(2)] h'(3) by simp
    have "\<not> (\<forall>(s, f) \<in> set bs. f \<longrightarrow> s < n)"
      using Some abs_malloc_None [of n bs] by (auto simp: split_beta)
    then show ?thesis using nz s h' Some [unfolded r] by (simp only: if_False) blast
  qed
  with False show ?thesis unfolding n_def round_up_cases Let_def by (simp only: simp_thms)
qed (simp add: kmalloc_def)

theorem kmalloc_first_fit_witness:
  "\<exists>h'. kmalloc 100 demo_heap = Some (0x100020, h') \<and> heap_rep h' [(104, False), (261976, True)]"
proof -
  have n: "(if unat (100 :: u64) + 7 < 2 ^ 64 then (unat (100 :: u64) + 7) div 8 * 8 else 0) = 104" by simp
  have a: "abs_malloc 104 fresh_pool = Some (0, [(104, False), (261976, True)])"
    by (simp add: fresh_pool_def)
  have f: "(\<forall>(s, f) \<in> set fresh_pool. f \<longrightarrow> s < 104) = False" by (simp add: fresh_pool_def)
  have s: "s_head demo_heap = 0x100000" by (simp add: demo_heap_def)
  show ?thesis
    using kmalloc_first_fit [OF heap_rep_demo, of 100] unfolding n Let_def f a s by auto
qed

text \<open>
  Claim C5. \<open>kfree\<close> of a block in use marks it free and merges it with a free neighbour on either
  side, so that the headers encode the abstract heap with that block released; the payloads of all
  other blocks in use are untouched.
\<close>

theorem kfree_coalesces:
  assumes "heap_rep h bs" "block_at off bs = Some (s, False)"
  shows "let h' = kfree (s_head h + of_nat (off + 32)) h; bs' = abs_free off bs in
    heap_rep h' bs' \<and> s_head h' = s_head h \<and>
    (no_adjacent_free bs \<longrightarrow> no_adjacent_free bs') \<and> extent bs' = extent bs \<and>
    (\<forall>o1 s1. o1 \<noteq> off \<and> block_at o1 bs = Some (s1, False) \<longrightarrow>
       block_at o1 bs' = Some (s1, False) \<and>
       (\<forall>x \<in> span (s_head h + of_nat (o1 + 32)) s1. hmem h' x = hmem h x))"
proof -
  obtain xs ys where "bs = xs @ (s, False) # ys" "off = extent xs" using block_at_split [OF assms(2)] by blast
  then have "no_adjacent_free bs \<longrightarrow> no_adjacent_free (abs_free off bs)" using abs_free_no_adjacent by blast
  then show ?thesis
    unfolding Let_def using kfree_spec [OF assms] abs_free_keeps abs_free_extent by blast
qed

theorem kfree_coalesces_witness:
  "heap_rep (kfree 0x100020 demo_heap2) fresh_pool"
proof -
  have "abs_free 0 demo_blocks2 = fresh_pool" by (simp add: demo_blocks2_def fresh_pool_def)
  moreover have "block_at 0 demo_blocks2 = Some (104, False)" by (simp add: demo_blocks2_def)
  moreover have "s_head demo_heap2 = 0x100000" using heap_rep_demo2 by simp
  ultimately show ?thesis
    using kfree_coalesces [OF heap_rep_demo2(1), of 0 104] by (simp add: Let_def)
qed

text \<open>
  Claim C14. From a fresh pool, whatever sequence of allocations of any size, releases of blocks in
  use and stores into blocks in use is run, the headers keep describing a doubly linked list of
  blocks that tile the 256 KB pool, with payload sizes that are multiples of 8 and no two adjacent
  free blocks; and every further allocation returns.
\<close>

theorem heap_run_invariant:
  assumes "heap_rep h0 fresh_pool" "heap_run h0 h"
  shows "(\<exists>bs. heap_rep h bs \<and> blocks_wf bs) \<and> (\<forall>n. \<exists>p h'. kmalloc n h = Some (p, h'))"
proof -
  have "pool_ok h0" using assms(1) blocks_wf_fresh unfolding pool_ok_def by blast
  then have "pool_ok h" by (rule heap_run_ok [OF assms(2)])
  then show ?thesis using kheap.alloc_returns [of h] unfolding pool_ok_def by blast
qed

theorem heap_run_invariant_witness:
  "heap_run demo_heap demo_heap2 \<and> (\<exists>bs. heap_rep demo_heap2 bs \<and> blocks_wf bs)"
proof -
  have r: "heap_run demo_heap demo_heap2"
    by (rule heap_run.malloc [OF heap_run.init kmalloc_demo])
  with heap_run_invariant [OF heap_rep_demo r] show ?thesis by blast
qed

text \<open>
  Claim C31. Allocating and releasing at once restores the block list: a \<open>kfree\<close> of what
  \<open>kmalloc\<close> returned undoes its split.
\<close>

theorem kmalloc_kfree_roundtrip:
  assumes "heap_rep h bs" "blocks_wf bs" "kmalloc n h = Some (p, h')" "p \<noteq> 0"
  shows "heap_rep (kfree p h') bs"
proof (rule kmalloc_cases [OF assms(1-3)])
  fix off bs' s
  assume a: "abs_malloc (unat ((n + 7) AND NOT 7)) bs = Some (off, bs')" "p = s_head h + of_nat (off + 32)"
    "heap_rep h' bs'" "s_head h' = s_head h" "block_at off bs' = Some (s, False)"
  have "abs_free off bs' = bs"
    using abs_malloc_free_roundtrip [OF _ a(1)] assms(2) by (simp add: blocks_wf_def)
  then show ?thesis using kfree_spec(1) [OF a(3,5)] a(2,4) by simp
qed (use assms(4) in simp)

theorem kmalloc_kfree_roundtrip_witness:
  "kmalloc 100 demo_heap = Some (0x100020, demo_heap2) \<and> heap_rep (kfree 0x100020 demo_heap2) fresh_pool"
  using kmalloc_kfree_roundtrip [OF heap_rep_demo blocks_wf_fresh kmalloc_demo] kmalloc_demo by simp

lemma alloc_list_nonzero:
  "alloc_list kmalloc ns h = Some (ps, h') \<Longrightarrow> 0 \<notin> set ps \<Longrightarrow> 0 \<notin> set ns"
proof (induction ns arbitrary: h ps h')
  case (Cons n ns)
  obtain p h1 qs where p: "kmalloc n h = Some (p, h1)" "alloc_list kmalloc ns h1 = Some (qs, h')" "ps = p # qs"
    using Cons.prems(1) by (auto simp: bind_eq_Some_conv)
  then have "n \<noteq> 0" using Cons.prems(2) by (auto simp: kmalloc_def)
  moreover have "0 \<notin> set ns" using Cons.IH [OF p(2)] Cons.prems(2) p(3) by simp
  ultimately show ?case by simp
qed simp

text \<open>
  Claim C26. Successive allocations that succeed, each of fewer than \<open>2\<^sup>6\<^sup>4 - 7\<close> bytes, own disjoint byte ranges of at
  least the sizes asked for, none of which overlaps a block that was in use before, and they change no byte of a
  block that was in use before. The bound on the sizes is needed: a larger request also succeeds, but as its
  rounded size is 0 its range is not its own (\<open>kmalloc_size_wrap\<close>).
\<close>

theorem kmalloc_exclusive:
  assumes "pool_ok h" "alloc_list kmalloc ns h = Some (ps, h')" "0 \<notin> set ps" "\<forall>n \<in> set ns. unat n + 7 < 2 ^ 64"
  shows "pool_ok h' \<and> length ps = length ns \<and>
    (\<forall>i < length ns. \<forall>j < length ns. i \<noteq> j \<longrightarrow>
       span (ps ! i) (unat (ns ! i)) \<inter> span (ps ! j) (unat (ns ! j)) = {}) \<and>
    (\<forall>(q, t) \<in> live h. (q, t) \<in> live h' \<and> q \<notin> set ps \<and> (\<forall>x \<in> span q t. hmem h' x = hmem h x) \<and>
       (\<forall>i < length ns. span (ps ! i) (unat (ns ! i)) \<inter> span q t = {}))"
proof (intro conjI allI impI ballI)
  have "list_all size_ok ns" using alloc_list_nonzero [OF assms(2,3)] assms(4) by (auto simp: list_all_iff size_ok_def unat_gt_0)
  note ok = assms(1-3) this
  note A = kheap.alloc_list_blocks [OF ok]
  then show "pool_ok h'" "length ps = length ns" by (auto dest: list_all2_lengthD)
  show "span (ps ! i) (unat (ns ! i)) \<inter> span (ps ! j) (unat (ns ! j)) = {}"
    if "i < length ns" "j < length ns" "i \<noteq> j" for i j
    using that by (rule kheap.alloc_list_disjoint [OF ok])
  show "case b of (q, t) \<Rightarrow> (q, t) \<in> live h' \<and> q \<notin> set ps \<and> (\<forall>x \<in> span q t. hmem h' x = hmem h x) \<and>
       (\<forall>i < length ns. span (ps ! i) (unat (ns ! i)) \<inter> span q t = {})" if "b \<in> live h" for b
    using that kheap.alloc_list_old [OF ok] by (cases b) simp
qed

theorem kmalloc_exclusive_witness:
  "\<exists>q h'. alloc_list kmalloc [100, 24] demo_heap = Some ([0x100020, q], h') \<and> pool_ok h' \<and>
     span 0x100020 100 \<inter> span q 24 = {}"
proof -
  have n: "unat (((24 :: u64) + 7) AND NOT 7) = 24" by (subst round_up_8) simp_all
  have a: "abs_malloc 24 demo_blocks2 = Some (136, [(104, False), (24, False), (261920, True)])"
    by (simp add: demo_blocks2_def)
  obtain q h' where q: "kmalloc 24 demo_heap2 = Some (q, h')" "q \<noteq> 0"
    using kmalloc_spec [OF heap_rep_demo2(1), of 24] unfolding n a heap_rep_demo2(2) by auto
  have l: "alloc_list kmalloc [100, 24] demo_heap = Some ([0x100020, q], h')"
    by (simp add: kmalloc_demo q)
  have "\<forall>n \<in> set [100, 24 :: u64]. unat n + 7 < 2 ^ 64" by simp
  with kmalloc_exclusive [OF pool_ok_demo l] l q(2) show ?thesis by (auto simp: All_less_Suc)
qed

text \<open>
  \<open>kzalloc\<close> returns what \<open>kmalloc\<close> would, with every requested byte zero: the block is in
  use afterwards, the heap invariant is kept, and no byte of another block in use changes.
\<close>

lemma kzalloc_zeroed:
  assumes "pool_ok h" "kmalloc n h = Some (p, h')" "p \<noteq> 0" "size_ok n"
  shows "\<exists>h''. kzalloc n h = Some (p, h'') \<and> pool_ok h'' \<and> live h'' = live h' \<and>
    (\<forall>x \<in> span p (unat n). hmem h'' x = 0) \<and>
    (\<forall>(q, t) \<in> live h. \<forall>x \<in> span q t. hmem h'' x = hmem h x)"
proof -
  define h'' where "h'' = h'\<lparr>hmem := zero_bytes p (unat n) (hmem h')\<rparr>"
  have inv': "pool_ok h'" using kheap.alloc_returns [OF assms(1), of n] assms(2) by auto
  obtain s where s: "unat n \<le> s" "live h' = insert (p, s) (live h)" "p \<notin> fst ` live h"
    using kheap.alloc_adds [OF assms] by blast
  have z: "zero_bytes p (unat n) (hmem h') = (\<lambda>x. if x \<in> span p (unat n) then 0 else hmem h' x)"
    by (rule zero_bytes_eq) (use unat_lt_exp64 [of n] in simp)
  have "pool_ok h'' \<and> live h'' = live h'"
    unfolding h''_def
  proof (rule payload_write_keeps [OF inv', of p s])
    show "(p, s) \<in> live h'" by (simp add: s(2))
    show "zero_bytes p (unat n) (hmem h') x = hmem h' x" if "x \<notin> span p s" for x
      using that span_mono [OF s(1), of p] by (auto simp: z)
  qed
  moreover have "kzalloc n h = Some (p, h'')" using assms(2,3) by (simp add: kzalloc_def h''_def)
  moreover have "hmem h'' x = hmem h x" if q: "(q, t) \<in> live h" "x \<in> span q t" for q t x
  proof -
    have "q \<noteq> p" using q(1) s(3) by force
    then have "span p s \<inter> span q t = {}"
      using kheap.blocks_disjoint [OF inv', of p s q t] q(1) s(2) by blast
    with q(2) span_mono [OF s(1), of p] have "x \<notin> span p (unat n)" by blast
    then show ?thesis
      using kheap.alloc_bytes [OF assms(1,2) q] by (simp add: h''_def z)
  qed
  moreover have "\<forall>x \<in> span p (unat n). hmem h'' x = 0" by (simp add: h''_def z)
  ultimately show ?thesis by (intro exI [of _ h'']) auto
qed

text \<open>
  Claim C27. When the 64 lowest free pages are contiguous, \<open>heap_init\<close> takes exactly these pages
  from the physical allocator, places the pool at their address in the direct map, and the pool is
  one free block of 256 KB less a header; it writes nothing but that header.
\<close>

theorem heap_init_correct:
  assumes "pmm_inv p" "{P..<P + 64} \<subseteq> free_set p" "\<forall>q \<in> free_set p. P \<le> q"
    and "unat (g_hhdm_offset p) + P * 4096 + 262144 < 2 ^ 64"
  shows "case heap_init (p, h) of (p', h') \<Rightarrow>
    pmm_inv p' \<and> free_set p' = free_set p - {P..<P + 64} \<and>
    unat (s_head h') = unat (g_hhdm_offset p) + P * 4096 \<and> heap_rep h' fresh_pool \<and>
    (\<forall>x. x \<notin> span (s_head h') 32 \<longrightarrow> hmem h' x = hmem h x)"
  by (rule heap_init_ready [OF assms])

theorem heap_init_correct_witness:
  "heap_rep (snd (heap_init (heap_demo_pmm, zero_heap))) fresh_pool \<and>
   free_set (fst (heap_init (heap_demo_pmm, zero_heap))) = {}"
  using heap_init_correct [OF heap_demo_pmm_ok(1), of 320 zero_heap] heap_demo_pmm_ok(2)
  by (auto simp: split_beta heap_demo_pmm_def)

text \<open>
  Claim C40. \<open>heap_init\<close> does not look at the results of the 63 further page allocations: with a
  single free page left the pool is still declared to be 256 KB long, and a later \<open>kmalloc\<close> of two
  pages succeeds although the heap owns only one.
\<close>

theorem heap_init_ignores_oom:
  assumes "pmm_inv p" "free_set p = {P}" "unat (g_hhdm_offset p) + P * 4096 + 262144 < 2 ^ 64"
  shows "let h' = snd (heap_init (p, h)) in
    heap_rep h' fresh_pool \<and> (\<exists>q h''. kmalloc 8192 h' = Some (q, h'') \<and> q \<noteq> 0)"
proof -
  have P: "P \<in> free_set p" "\<And>q. q \<in> free_set p \<Longrightarrow> P \<le> q" using assms(2) by auto
  define h' where "h' = snd (heap_init (p, h))"
  have rep: "heap_rep h' fresh_pool" unfolding h'_def by (rule heap_init_pool(1) [OF assms(1) P assms(3)])
  have n: "unat (((8192 :: u64) + 7) AND NOT 7) = 8192" by (subst round_up_8) simp_all
  have a: "abs_malloc 8192 fresh_pool = Some (0, [(8192, False), (253888, True)])"
    by (simp add: fresh_pool_def)
  obtain h'' where k: "kmalloc 8192 h' = Some (s_head h' + of_nat (0 + 32), h'')"
    using kmalloc_spec [OF rep, of 8192] unfolding n a by auto
  have "block_at 0 fresh_pool = Some (262112, True)" by (simp add: fresh_pool_def)
  note nz = alloc_nonnull [OF rep this]
  show ?thesis unfolding Let_def h'_def [symmetric] using rep k nz by blast
qed

theorem heap_init_ignores_oom_witness:
  "heap_rep (snd (heap_init (heap_demo_pmm1, zero_heap))) fresh_pool"
  using heap_init_ignores_oom [OF heap_demo_pmm1_ok(1,2), of zero_heap]
  by (simp add: heap_demo_pmm1_def Let_def)

text \<open>
  The rounding of the request wraps around: for a size within seven bytes of
  \<open>2\<^sup>6\<^sup>4\<close> the rounded size is 0, so \<open>kmalloc\<close> returns a non-null pointer to a block with no
  payload instead of failing.
\<close>

lemma kmalloc_size_wrap:
  assumes "heap_rep h fresh_pool" "unat (sz :: u64) > 2 ^ 64 - 8"
  shows "\<exists>h'. kmalloc sz h = Some (s_head h + 32, h') \<and> s_head h + 32 \<noteq> 0 \<and>
    heap_rep h' [(0, False), (262080, True)]"
proof -
  have n: "unat ((sz + 7) AND NOT 7) = 0" using assms(2) by (intro round_up_8_wrap) simp
  have nz: "sz \<noteq> 0" using assms(2) by auto
  have a: "abs_malloc 0 fresh_pool = Some (0, [(0, False), (262080, True)])"
    by (simp add: fresh_pool_def)
  have "block_at 0 fresh_pool = Some (262112, True)" by (simp add: fresh_pool_def)
  note alloc_nonnull [OF assms(1) this]
  then show ?thesis using kmalloc_spec [OF assms(1) nz] unfolding n a by auto
qed

end
