(* ===== verification/Sched.thy ===== *)
theory Sched
  imports Heap_Correct Cpu CString
begin

section \<open>The round-robin scheduler\<close>

text \<open>
  \<open>kernel/sched/scheduler.cpp\<close> and \<open>task.hpp\<close>.  The task table is the list of its sixteen entries
  and the counters keep their 32 bits.  Task stacks come from the heap, so creating a task works on
  the heap state; \<open>sched_tick\<close> works on the table and on the processor with its memory, and calls
  \<open>context_switch\<close> of theory \<open>Cpu\<close>.  The registers of the processor are those at the call, with
  \<open>rip\<close> at the instruction after it.
\<close>

subsection \<open>Data\<close>

definition MAX_TASKS :: u32 where
  [const_defs]: "MAX_TASKS = 16"

definition SCHED_SLICE :: u32 where
  [const_defs]: "SCHED_SLICE = 2"

definition TASK_STACK_PAGES :: u64 where
  [const_defs]: "TASK_STACK_PAGES = 4"

datatype TaskState = READY | RUNNING | BLOCKED | DEAD

record Task =
  t_rsp :: u64
  t_stack_base :: u64
  t_state :: TaskState
  t_id :: u32
  t_name :: string

record sched =
  s_tasks :: "Task list"
  s_count :: u32
  s_current :: u32
  s_ticks :: u32

text \<open>Static storage starts zeroed.\<close>

definition sched_boot :: sched where
  "sched_boot =
     \<lparr>s_tasks = replicate (unat MAX_TASKS)
        \<lparr>t_rsp = 0, t_stack_base = 0, t_state = READY, t_id = 0, t_name = replicate 24 NUL\<rparr>,
      s_count = 0, s_current = 0, s_ticks = 0\<rparr>"

abbreviation task :: "sched \<Rightarrow> u32 \<Rightarrow> Task" where
  "task s i \<equiv> s_tasks s ! unat i"

definition upd_task :: "u32 \<Rightarrow> (Task \<Rightarrow> Task) \<Rightarrow> sched \<Rightarrow> sched" where
  "upd_task i f s = s\<lparr>s_tasks := (s_tasks s)[unat i := f (task s i)]\<rparr>"

subsection \<open>Operations\<close>

definition zero_mem :: "u64 \<Rightarrow> u64 \<Rightarrow> memory \<Rightarrow> memory" where
  "zero_mem p n = zero_bytes p (unat n)"

definition push_word :: "u64 \<Rightarrow> u64 \<times> memory \<Rightarrow> u64 \<times> memory" where
  "push_word v st = (let (sp, m) = st in (sp - 8, store64 m (sp - 8) v))"

definition setup_initial_stack :: "Task \<Rightarrow> u64 \<Rightarrow> heap \<Rightarrow> (Task \<times> heap) option" where
  "setup_initial_stack t entry h =
     Option.bind (kmalloc (TASK_STACK_PAGES * 4096) h) (\<lambda>(p, h).
       let t = t\<lparr>t_stack_base := p\<rparr> in
       if p = 0 then Some (t, h)
       else let m = zero_mem p (TASK_STACK_PAGES * 4096) (hmem h);
                st = push_word entry (p + TASK_STACK_PAGES * 4096, m);
                st = push_word 0 st;
                st = push_word 0 st;
                st = push_word 0 st;
                st = push_word 0 st;
                st = push_word 0 st;
                (sp, m) = push_word 0 st
            in Some (t\<lparr>t_rsp := sp\<rparr>, h\<lparr>hmem := m\<rparr>))"

definition sched_init :: "sched \<Rightarrow> sched" where
  "sched_init s =
     (upd_task 0 (\<lambda>idle. idle\<lparr>t_id := 0, t_state := RUNNING, t_stack_base := 0, t_rsp := 0,
        t_name := copy_str (t_name idle) ''idle'' 24\<rparr>) s)\<lparr>s_count := 1, s_current := 0\<rparr>"

definition sched_create_task ::
  "u64 \<Rightarrow> string \<Rightarrow> sched \<times> heap \<Rightarrow> (u32 \<times> sched \<times> heap) option" where
  "sched_create_task entry_fn name st =
     (let (s, h) = st in
      if MAX_TASKS \<le> s_count s then Some (0xFFFFFFFF, s, h)
      else let t = (task s (s_count s))\<lparr>t_id := s_count s, t_state := READY,
                      t_name := copy_str (t_name (task s (s_count s))) name 24\<rparr>
           in Option.bind (setup_initial_stack t entry_fn h) (\<lambda>(t, h).
                let s = upd_task (s_count s) (\<lambda>_. t) s in
                if t_stack_base t = 0 then Some (0xFFFFFFFF, s, h)
                else Some (s_count s, s\<lparr>s_count := s_count s + 1\<rparr>, h)))"

primrec find_ready :: "nat \<Rightarrow> u32 \<Rightarrow> sched \<Rightarrow> u32" where
  "find_ready 0 next s = next"
| "find_ready (Suc k) next s =
     (if t_state (task s next) = READY then next
      else find_ready k ((next + 1) mod s_count s) s)"

definition call_context_switch :: "u64 \<Rightarrow> mstate \<Rightarrow> u64 \<times> mstate" where
  "call_context_switch new_rsp st = context_switch new_rsp (push (rip (fst st)) st)"

definition sched_tick :: "sched \<times> mstate \<Rightarrow> sched \<times> mstate" where
  "sched_tick st =
     (let (s, cm) = st; s = s\<lparr>s_ticks := s_ticks s + 1\<rparr> in
      if s_ticks s mod SCHED_SLICE \<noteq> 0 then (s, cm)
      else if s_count s \<le> 1 then (s, cm)
      else let s = (if t_state (task s (s_current s)) = RUNNING
                    then upd_task (s_current s) (\<lambda>t. t\<lparr>t_state := READY\<rparr>) s else s);
               next = find_ready (unat (s_count s)) ((s_current s + 1) mod s_count s) s
           in if next = s_current s
              then (upd_task (s_current s) (\<lambda>t. t\<lparr>t_state := RUNNING\<rparr>) s, cm)
              else let prev = s_current s;
                       s = s\<lparr>s_current := next\<rparr>;
                       s = upd_task next (\<lambda>t. t\<lparr>t_state := RUNNING\<rparr>) s;
                       (old, cm) = call_context_switch (t_rsp (task s next)) cm
                   in (upd_task prev (\<lambda>t. t\<lparr>t_rsp := old\<rparr>) s, cm))"

definition sched_current_id :: "sched \<Rightarrow> u32" where
  "sched_current_id s = s_current s"

definition sched_task_count :: "sched \<Rightarrow> u32" where
  "sched_task_count s = s_count s"

subsection \<open>The invariant\<close>

text \<open>
  The tasks below \<open>s_count\<close> carry their own number, the current one is running and all others are
  ready.
\<close>

definition sched_inv :: "sched \<Rightarrow> bool" where
  [inv_defs]: "sched_inv s \<longleftrightarrow> length (s_tasks s) = 16 \<and> 1 \<le> unat (s_count s) \<and> unat (s_count s) \<le> 16 \<and>
     unat (s_current s) < unat (s_count s) \<and>
     (\<forall>i < unat (s_count s). unat (t_id (s_tasks s ! i)) = i \<and>
        t_state (s_tasks s ! i) = (if i = unat (s_current s) then RUNNING else READY)) \<and>
     (\<forall>i < 16. length (t_name (s_tasks s ! i)) = 24)"

lemma copy_name [simp]: "length nm = 24 \<Longrightarrow> length (copy_str nm src 24) = 24"
  using copy_str_spec [of nm 24 src] by simp

lemma sched_inv_init:
  "length (s_tasks s) = 16 \<Longrightarrow> \<forall>i < 16. length (t_name (s_tasks s ! i)) = 24 \<Longrightarrow> sched_inv (sched_init s)"
  by (simp add: sched_init_def upd_task_def inv_defs nth_list_update)

lemma sched_inv_boot: "sched_inv (sched_init sched_boot)"
  by (rule sched_inv_init) (simp_all add: sched_boot_def const_defs)

lemma length_sched_boot [simp]: "length (s_tasks sched_boot) = 16"
  by (simp add: sched_boot_def const_defs)

lemma unat_next_task:
  assumes "unat (i :: u32) < unat n" "unat n \<le> 16"
  shows "unat ((i + 1) mod n) = (unat i + 1) mod unat n"
proof -
  have "unat (i + 1) = unat i + 1" using assms by (subst unat_add_lt) simp_all
  then show ?thesis by (simp add: unat_mod)
qed

lemma next_neq:
  assumes "unat (i :: u32) < unat n" "1 < unat n" "unat n \<le> 16"
  shows "(i + 1) mod n \<noteq> i"
proof
  assume "(i + 1) mod n = i"
  then have "(unat i + 1) mod unat n = unat i" using unat_next_task [OF assms(1,3)] by simp
  then show False using assms(1,2) by (cases "unat i + 1 = unat n") auto
qed

text \<open>Under the invariant the tick takes the next task in the cyclic order, or nothing happens.\<close>

definition switches :: "sched \<Rightarrow> bool" where
  "switches s \<longleftrightarrow> (s_ticks s + 1) mod SCHED_SLICE = 0 \<and> 1 < s_count s"

lemma sched_tick_idle:
  "\<not> switches s \<Longrightarrow> sched_tick (s, cm) = (s\<lparr>s_ticks := s_ticks s + 1\<rparr>, cm)"
  by (auto simp: sched_tick_def switches_def Let_def not_less)

lemma sched_tick_switch:
  assumes inv: "sched_inv s" and sw: "switches s"
    and cs: "call_context_switch (t_rsp (task s ((s_current s + 1) mod s_count s))) cm = (old, cm')"
  shows "sched_tick (s, cm) =
    (s\<lparr>s_ticks := s_ticks s + 1, s_current := (s_current s + 1) mod s_count s,
       s_tasks := (s_tasks s)
         [unat (s_current s) := (task s (s_current s))\<lparr>t_state := READY, t_rsp := old\<rparr>,
          unat ((s_current s + 1) mod s_count s) :=
            (task s ((s_current s + 1) mod s_count s))\<lparr>t_state := RUNNING\<rparr>]\<rparr>, cm')"
proof -
  let ?n = "(s_current s + 1) mod s_count s"
  have c: "unat (s_current s) < unat (s_count s)" "unat (s_count s) \<le> 16" "1 < unat (s_count s)"
    "length (s_tasks s) = 16"
    using inv sw by (auto simp: inv_defs switches_def word_less_nat_alt)
  have n: "unat ?n < unat (s_count s)" "?n \<noteq> s_current s" "unat ?n \<noteq> unat (s_current s)"
    using c unat_next_task [OF c(1,2)] next_neq [OF c(1,3,2)] by (auto simp: word_unat_eq_iff)
  have st: "t_state (task s (s_current s)) = RUNNING" "t_state (task s ?n) = READY"
    using inv n c by (auto simp: inv_defs)
  obtain k where k: "unat (s_count s) = Suc k" using c by (cases "unat (s_count s)") auto
  show ?thesis
    using sw cs st n c
    by (auto simp: sched_tick_def Let_def switches_def upd_task_def k not_le list_update_swap
        split: prod.splits)
qed

end
