(* ===== verification/Sched_Correct.thy ===== *)
theory Sched_Correct
  imports Sched
begin

section \<open>Correctness of the scheduler\<close>

text \<open>
  Which task runs: the invariant of the task table over every reachable state, the cyclic order
  and its fairness.  What it runs with: contexts of tasks, on a system state of task table, heap
  and processor that share the memory; every task but the running one has its context in a frame
  on its own stack, and stacks do not overlap since the heap hands out disjoint blocks.
\<close>

subsection \<open>Preservation of the invariant\<close>

lemma sched_tick_fields:
  assumes inv: "sched_inv s"
  shows "s_count (fst (sched_tick (s, cm))) = s_count s"
    "s_ticks (fst (sched_tick (s, cm))) = s_ticks s + 1"
    "s_current (fst (sched_tick (s, cm))) = (if switches s then (s_current s + 1) mod s_count s else s_current s)"
    "i < unat (s_count s) \<Longrightarrow> t_stack_base (s_tasks (fst (sched_tick (s, cm))) ! i) = t_stack_base (s_tasks s ! i)"
    "i < unat (s_count s) \<Longrightarrow> t_id (s_tasks (fst (sched_tick (s, cm))) ! i) = t_id (s_tasks s ! i)"
    "sched_inv (fst (sched_tick (s, cm)))"
proof -
  let ?s = "fst (sched_tick (s, cm))" and ?n = "(s_current s + 1) mod s_count s"
  have c: "unat (s_current s) < unat (s_count s)" "unat (s_count s) \<le> 16" "length (s_tasks s) = 16"
    using inv by (auto simp: inv_defs)
  obtain old cm' where cs: "call_context_switch (t_rsp (task s ?n)) cm = (old, cm')"
    by (cases "call_context_switch (t_rsp (task s ?n)) cm") auto
  have n: "unat ?n < unat (s_count s)" using unat_next_task [OF c(1,2)] c(1) by simp
  have eq: "?s = (if switches s then
      s\<lparr>s_ticks := s_ticks s + 1, s_current := ?n,
       s_tasks := (s_tasks s)[unat (s_current s) := (task s (s_current s))\<lparr>t_state := READY, t_rsp := old\<rparr>,
          unat ?n := (task s ?n)\<lparr>t_state := RUNNING\<rparr>]\<rparr> else s\<lparr>s_ticks := s_ticks s + 1\<rparr>)"
    using sched_tick_switch [OF inv _ cs] sched_tick_idle by auto
  show "s_count ?s = s_count s" "s_ticks ?s = s_ticks s + 1"
    "s_current ?s = (if switches s then ?n else s_current s)"
    by (simp_all add: eq)
  show "t_stack_base (s_tasks ?s ! i) = t_stack_base (s_tasks s ! i)"
    "t_id (s_tasks ?s ! i) = t_id (s_tasks s ! i)" if "i < unat (s_count s)"
    using c that n by (auto simp: eq nth_list_update)
  show "sched_inv ?s" using inv c n by (auto simp: eq inv_defs nth_list_update)
qed

lemma fresh_frame:
  fixes sp e :: u64 and m :: memory
  defines "m' \<equiv> store64 (store64 (store64 (store64 (store64 (store64 (store64 m (sp + 48) e) (sp + 40) 0)
    (sp + 32) 0) (sp + 24) 0) (sp + 16) 0) (sp + 8) 0) sp 0"
  shows "frame_ctx m' sp = \<lparr>ctx_regs = replicate 6 0, ctx_rip = e, ctx_rsp = sp + 56\<rparr>"
    "x \<notin> span sp 56 \<Longrightarrow> m' x = m x"
proof -
  show "frame_ctx m' sp = \<lparr>ctx_regs = replicate 6 0, ctx_rip = e, ctx_rsp = sp + 56\<rparr>"
    unfolding frame_ctx_def m'_def
    by (simp add: upt_rec numeral_eq_Suc del: of_nat_Suc) (simp add: load_store_disjoint span_fields_disjoint)
  show "m' x = m x" if "x \<notin> span sp 56"
  proof -
    have "x \<notin> span (sp + of_nat k) 8" if "k + 8 \<le> 56" for k
      using span_offset [of k 8 56 sp] that \<open>x \<notin> span sp 56\<close> by auto
    from this [of 0] this [of 8] this [of 16] this [of 24] this [of 32] this [of 40] this [of 48]
    show ?thesis by (simp add: m'_def store_other)
  qed
qed

lemma setup_initial_stack_spec:
  assumes "kmalloc 16384 h = Some (p, h1)" "p \<noteq> 0"
  shows "\<exists>m. setup_initial_stack t e h = Some (t\<lparr>t_stack_base := p, t_rsp := p + 16328\<rparr>, h1\<lparr>hmem := m\<rparr>) \<and>
    frame_ctx m (p + 16328) = \<lparr>ctx_regs = replicate 6 0, ctx_rip = e, ctx_rsp = p + 16384\<rparr> \<and>
    (\<forall>x. x \<notin> span p 16384 \<longrightarrow> m x = hmem h1 x)"
proof -
  let ?z = "zero_mem p 16384 (hmem h1)"
  let ?m = "store64 (store64 (store64 (store64 (store64 (store64 (store64 ?z (p + 16376) e) (p + 16368) 0)
    (p + 16360) 0) (p + 16352) 0) (p + 16344) 0) (p + 16336) 0) (p + 16328) 0"
  note f = fresh_frame [where m = ?z and sp = "p + 16328" and e = e, unfolded add.assoc, simplified]
  have "setup_initial_stack t e h = Some (t\<lparr>t_stack_base := p, t_rsp := p + 16328\<rparr>, h1\<lparr>hmem := ?m\<rparr>)"
    using assms by (simp add: setup_initial_stack_def push_word_def Let_def const_defs add.commute)
  moreover have "?m x = hmem h1 x" if "x \<notin> span p 16384" for x
  proof -
    have "x \<notin> span (p + 16328) 56" using span_offset [of 16328 56 16384 p] that by auto
    then have "?m x = ?z x" by (rule f(2))
    also have "\<dots> = hmem h1 x" using that by (simp add: zero_mem_def zero_bytes_eq)
    finally show ?thesis .
  qed
  ultimately show ?thesis using f(1) by blast
qed

lemma sched_create_returns:
  assumes "sched_inv s" "pool_ok h"
  obtains (full) "s_count s = 16" "sched_create_task e n (s, h) = Some (0xFFFFFFFF, s, h)"
  | (oom) t where "unat (s_count s) < 16" "kmalloc 16384 h = Some (0, h)" "length (t_name t) = 24"
      "sched_create_task e n (s, h) =
         Some (0xFFFFFFFF, s\<lparr>s_tasks := (s_tasks s)[unat (s_count s) := t]\<rparr>, h)"
  | (ok) p h1 m where "unat (s_count s) < 16" "kmalloc 16384 h = Some (p, h1)" "p \<noteq> 0"
      "sched_create_task e n (s, h) = Some (s_count s,
         s\<lparr>s_tasks := (s_tasks s)[unat (s_count s) := \<lparr>t_rsp = p + 16328, t_stack_base = p, t_state = READY,
             t_id = s_count s, t_name = copy_str (t_name (task s (s_count s))) n 24\<rparr>],
           s_count := s_count s + 1\<rparr>, h1\<lparr>hmem := m\<rparr>)"
      "frame_ctx m (p + 16328) = \<lparr>ctx_regs = replicate 6 0, ctx_rip = e, ctx_rsp = p + 16384\<rparr>"
      "\<And>x. x \<notin> span p 16384 \<Longrightarrow> m x = hmem h1 x"
proof (cases "s_count s = 16")
  case True
  then show ?thesis by (intro full) (simp_all add: sched_create_task_def const_defs)
next
  case False
  then have "unat (s_count s) \<noteq> 16" by (simp add: word_unat_eq_iff)
  with assms(1) have lt: "unat (s_count s) < 16" by (simp add: sched_inv_def)
  then have nf: "\<not> MAX_TASKS \<le> s_count s" by (simp add: const_defs word_le_nat_alt)
  obtain p h1 where k: "kmalloc 16384 h = Some (p, h1)" using kheap.alloc_returns [OF assms(2), of 16384] by blast
  let ?t = "(task s (s_count s))\<lparr>t_id := s_count s, t_state := READY,
    t_name := copy_str (t_name (task s (s_count s))) n 24\<rparr>"
  show ?thesis
  proof (cases "p = 0")
    case True
    then have "h1 = h" using kheap.alloc_fails [OF assms(2)] k by simp
    moreover have "length (t_name ?t) = 24" using assms(1) lt by (simp add: inv_defs)
    ultimately show ?thesis using True k lt nf
      by (intro oom [of "?t\<lparr>t_stack_base := 0\<rparr>"])
        (simp_all add: sched_create_task_def setup_initial_stack_def upd_task_def Let_def TASK_STACK_PAGES_def)
  next
    case False
    obtain m where m: "setup_initial_stack ?t e h = Some (?t\<lparr>t_stack_base := p, t_rsp := p + 16328\<rparr>, h1\<lparr>hmem := m\<rparr>)"
      "frame_ctx m (p + 16328) = \<lparr>ctx_regs = replicate 6 0, ctx_rip = e, ctx_rsp = p + 16384\<rparr>"
      "\<forall>x. x \<notin> span p 16384 \<longrightarrow> m x = hmem h1 x"
      using setup_initial_stack_spec [OF k False, of ?t e] by blast
    have "?t\<lparr>t_stack_base := p, t_rsp := p + 16328\<rparr> = \<lparr>t_rsp = p + 16328, t_stack_base = p, t_state = READY,
             t_id = s_count s, t_name = copy_str (t_name (task s (s_count s))) n 24\<rparr>" by simp
    with False m nf k lt show ?thesis
      by (intro ok [of p h1 m]) (simp_all add: sched_create_task_def upd_task_def Let_def)
  qed
qed

lemma sched_create_inv:
  assumes "sched_inv s" "pool_ok h" "sched_create_task e n (s, h) = Some (r, s', h')"
  shows "sched_inv s'"
proof (rule sched_create_returns [OF assms(1,2), of e n])
  fix p h1 m
  assume c: "unat (s_count s) < 16" and eq: "sched_create_task e n (s, h) = Some (s_count s,
         s\<lparr>s_tasks := (s_tasks s)[unat (s_count s) := \<lparr>t_rsp = p + 16328, t_stack_base = p, t_state = READY,
             t_id = s_count s, t_name = copy_str (t_name (task s (s_count s))) n 24\<rparr>],
           s_count := s_count s + 1\<rparr>, h1\<lparr>hmem := m\<rparr>)"
  have "unat (s_count s + 1) = unat (s_count s) + 1" using c by (subst unat_add_lt) simp_all
  with assms(1,3) c eq show ?thesis by (auto simp: inv_defs nth_list_update less_Suc_eq)
qed (use assms in \<open>auto simp: inv_defs nth_list_update\<close>)

subsection \<open>Reachable task tables\<close>

text \<open>
  From boot on, tasks are created with any entry and name on any sound heap, and ticks arrive at
  any time with the processor in any state.
\<close>

inductive sched_reach :: "sched \<Rightarrow> bool" where
  init: "sched_reach (sched_init sched_boot)"
| create: "sched_reach s \<Longrightarrow> pool_ok h \<Longrightarrow> sched_create_task e n (s, h) = Some (r, s', h') \<Longrightarrow> sched_reach s'"
| tick: "sched_reach s \<Longrightarrow> sched_tick (s, cm) = (s', cm') \<Longrightarrow> sched_reach s'"

lemma sched_reach_inv: "sched_reach s \<Longrightarrow> sched_inv s"
proof (induction rule: sched_reach.induct)
  case (create s h e n r s' h')
  then show ?case using sched_create_inv by blast
next
  case (tick s cm s' cm')
  then show ?case using sched_tick_fields(6) [where s = s and cm = cm] by simp
qed (rule sched_inv_boot)

subsection \<open>The cyclic order\<close>

definition run_ticks :: "mstate list \<Rightarrow> sched \<Rightarrow> sched" where
  "run_ticks cms s = fold (\<lambda>cm s. fst (sched_tick (s, cm))) cms s"

lemma tick_parity: "(w + 1) mod SCHED_SLICE = 0 \<longleftrightarrow> w mod SCHED_SLICE \<noteq> 0"
proof -
  have "unat ((w + 1) mod 2) = (unat w + 1) mod 2"
    by (simp add: unat_mod unat_word_ariths mod_mod_cancel)
  then show ?thesis
    unfolding SCHED_SLICE_def word_unat_eq_iff by (simp add: unat_mod) presburger
qed

lemma run_ticks_pairs:
  assumes "sched_inv s" "s_ticks s mod SCHED_SLICE = 0" "length cms = 2 * k"
  shows "sched_inv (run_ticks cms s) \<and> s_count (run_ticks cms s) = s_count s \<and>
    s_ticks (run_ticks cms s) mod SCHED_SLICE = 0 \<and>
    unat (s_current (run_ticks cms s)) = (unat (s_current s) + k) mod unat (s_count s)"
  using assms
proof (induction k arbitrary: cms s)
  case 0
  then show ?case by (simp add: run_ticks_def inv_defs)
next
  case (Suc k)
  obtain a b cms' where cms: "cms = a # b # cms'" "length cms' = 2 * k"
    using Suc.prems(3) by (cases cms; cases "tl cms") auto
  define s1 where "s1 = fst (sched_tick (s, a))"
  define s2 where "s2 = fst (sched_tick (s1, b))"
  note t1 = sched_tick_fields [OF Suc.prems(1), where cm = a, folded s1_def]
  note t2 = sched_tick_fields [OF t1(6), where cm = b, folded s2_def]
  have "\<not> switches s" using Suc.prems(2) by (simp add: switches_def tick_parity)
  then have c1: "s_current s1 = s_current s" by (simp add: t1(3))
  have odd: "s_ticks s1 mod SCHED_SLICE \<noteq> 0" using Suc.prems(2) t1(2) tick_parity [of "s_ticks s"] by simp
  have even: "s_ticks s2 mod SCHED_SLICE = 0" using odd t2(2) tick_parity [of "s_ticks s1"] by simp
  have lt: "unat (s_current s) < unat (s_count s)" "unat (s_count s) \<le> 16"
    using Suc.prems(1) by (simp_all add: inv_defs)
  have c2: "unat (s_current s2) = (unat (s_current s) + 1) mod unat (s_count s)"
  proof (cases "1 < s_count s")
    case True
    then have "switches s1" using odd t1(1) by (simp add: switches_def tick_parity)
    then show ?thesis using t2(3) c1 t1(1) unat_next_task [OF lt] by simp
  next
    case False
    then have one: "unat (s_count s) = 1" using lt by (simp add: word_less_nat_alt)
    then have "\<not> switches s1" using t1(1) False by (simp add: switches_def)
    then show ?thesis using t2(3) c1 lt one by simp
  qed
  have "run_ticks cms s = run_ticks cms' s2" by (simp add: run_ticks_def cms s1_def s2_def)
  with Suc.IH [OF t2(6) even cms(2)] c2 t1(1) t2(1) show ?case by (simp add: mod_simps)
qed

subsection \<open>Contexts of tasks\<close>

lemma call_context_switch_spec:
  fixes c :: cpu
  obtains c' m' where "call_context_switch new (c, m) = (rsp c - 56, c', m')"
    "frame_ctx m' (rsp c - 56) = running_ctx c" "running_ctx c' = frame_ctx m' new"
    "rflags c' = rflags c" "\<And>x. x \<notin> span (rsp c - 56) 56 \<Longrightarrow> m' x = m x"
proof -
  let ?c = "c\<lparr>rsp := rsp c - 8\<rparr>" and ?m = "store64 m (rsp c - 8) (rip c)"
  obtain c' m' where s: "context_switch new (?c, ?m) = (rsp ?c - 48, c', m')"
    "frame_ctx m' (rsp ?c - 48) = caller_ctx (?c, ?m)" "running_ctx c' = frame_ctx m' new"
    "rflags c' = rflags ?c" "\<And>x. x \<notin> span (rsp ?c - 48) 48 \<Longrightarrow> m' x = ?m x"
    using context_switch_spec [of new ?c ?m] by blast
  have b: "rsp ?c - 48 = rsp c - 56" by simp
  have "caller_ctx (?c, ?m) = running_ctx c" by (simp add: caller_ctx_def running_ctx_def)
  moreover have "m' x = m x" if x: "x \<notin> span (rsp c - 56) 56" for x
  proof -
    have "x \<notin> span (rsp c - 56 + of_nat 48) 8" "x \<notin> span (rsp c - 56) 48"
      using x span_offset [of 48 8 56 "rsp c - 56"] span_mono [of 48 56 "rsp c - 56"] by auto
    then show ?thesis using s(5) [of x] by (simp add: store_other)
  qed
  ultimately show thesis
    using that [of c' m'] s unfolding b by (simp add: call_context_switch_def push_def)
qed

text \<open>
  The system: task table, heap and processor.  \<open>stack_area\<close> is the stack of a task, for task 0 the
  boot stack \<open>B\<close> that the firmware provides.
\<close>

type_synonym sys = "sched \<times> heap \<times> cpu"

definition sys_tick :: "sys \<Rightarrow> sys" where
  "sys_tick st = (let (s, h, c) = st; (s, c, m) = sched_tick (s, c, hmem h) in (s, h\<lparr>hmem := m\<rparr>, c))"

definition task_ctx :: "sys \<Rightarrow> nat \<Rightarrow> ctx" where
  "task_ctx st i = (let (s, h, c) = st in
     if i = unat (s_current s) then running_ctx c else frame_ctx (hmem h) (t_rsp (s_tasks s ! i)))"

definition stack_area :: "u64 set \<Rightarrow> sched \<Rightarrow> nat \<Rightarrow> u64 set" where
  "stack_area B s i = (if i = 0 then B else span (t_stack_base (s_tasks s ! i)) 16384)"

definition stacks_ok :: "u64 set \<Rightarrow> sched \<Rightarrow> heap \<Rightarrow> bool" where
  "stacks_ok B s h \<longleftrightarrow> B \<inter> pool_span h = {} \<and>
     (\<forall>i < unat (s_count s). 0 < i \<longrightarrow> (\<exists>t \<ge> 16384. (t_stack_base (s_tasks s ! i), t) \<in> live h)) \<and>
     (\<forall>i < unat (s_count s). \<forall>j < unat (s_count s). i \<noteq> j \<longrightarrow> stack_area B s i \<inter> stack_area B s j = {}) \<and>
     (\<forall>i < unat (s_count s). i \<noteq> unat (s_current s) \<longrightarrow> span (t_rsp (s_tasks s ! i)) 56 \<subseteq> stack_area B s i)"

lemma stacks_ok_ticks [simp]: "stacks_ok B (s\<lparr>s_ticks := t\<rparr>) h = stacks_ok B s h"
proof -
  have "stack_area B (s\<lparr>s_ticks := t\<rparr>) i = stack_area B s i" for i by (simp add: stack_area_def)
  then show ?thesis by (simp add: stacks_ok_def)
qed

definition sys_ok :: "u64 set \<Rightarrow> sys \<Rightarrow> bool" where
  "sys_ok B st \<longleftrightarrow> (let (s, h, c) = st in sched_inv s \<and> pool_ok h \<and> stacks_ok B s h)"

text \<open>The running task has room for the return address and the six saved registers.\<close>

definition stack_room :: "u64 set \<Rightarrow> sys \<Rightarrow> bool" where
  "stack_room B st \<longleftrightarrow> (let (s, h, c) = st in span (rsp c - 56) 56 \<subseteq> stack_area B s (unat (s_current s)))"

lemma stack_write_keeps:
  assumes "sys_ok B (s, h, c)" "i < unat (s_count s)" "\<And>x. x \<notin> stack_area B s i \<Longrightarrow> m x = hmem h x"
  shows "pool_ok (h\<lparr>hmem := m\<rparr>) \<and> live (h\<lparr>hmem := m\<rparr>) = live h"
proof (cases "i = 0")
  case True
  with assms show ?thesis
    by (intro outside_pool_keeps) (auto simp: sys_ok_def stacks_ok_def stack_area_def)
next
  case False
  with assms(1,2) obtain t where t: "16384 \<le> t" "(t_stack_base (s_tasks s ! i), t) \<in> live h"
    by (auto simp: sys_ok_def stacks_ok_def)
  show ?thesis
  proof (rule payload_write_keeps [OF _ t(2)])
    show "pool_ok h" using assms(1) by (simp add: sys_ok_def)
    show "m x = hmem h x" if "x \<notin> span (t_stack_base (s_tasks s ! i)) t" for x
      using that assms(3) span_mono [OF t(1)] False by (auto simp: stack_area_def)
  qed
qed

text \<open>A write to the stack of the running task leaves the saved frames of the others alone.\<close>

lemma other_frame_kept:
  assumes "stacks_ok B s h" "unat (s_current s) < unat (s_count s)" "i < unat (s_count s)" "i \<noteq> unat (s_current s)"
    and "\<And>x. x \<notin> stack_area B s (unat (s_current s)) \<Longrightarrow> m x = hmem h x"
  shows "frame_ctx m (t_rsp (s_tasks s ! i)) = frame_ctx (hmem h) (t_rsp (s_tasks s ! i))"
proof (rule frame_ctx_cong, rule assms(5))
  fix x assume "x \<in> span (t_rsp (s_tasks s ! i)) 56"
  then have "x \<in> stack_area B s i" using assms(1,3,4) by (auto simp: stacks_ok_def)
  moreover have "stack_area B s i \<inter> stack_area B s (unat (s_current s)) = {}"
    using assms(1-4) unfolding stacks_ok_def by blast
  ultimately show "x \<notin> stack_area B s (unat (s_current s))" by blast
qed

lemma sys_switch_step:
  assumes ok: "sys_ok B (s, h, c)" and room: "stack_room B (s, h, c)" and sw: "switches s"
    and tick: "sched_tick (s, c, hmem h) = (s', c', m')"
  shows "sys_ok B (s', h\<lparr>hmem := m'\<rparr>, c')"
    "i < unat (s_count s) \<Longrightarrow> task_ctx (s', h\<lparr>hmem := m'\<rparr>, c') i = task_ctx (s, h, c) i" "rflags c' = rflags c"
proof -
  have inv: "sched_inv s" and st: "stacks_ok B s h" using ok by (simp_all add: sys_ok_def)
  let ?n = "(s_current s + 1) mod s_count s"
  define k where "k = unat (s_current s)"
  note F = sched_tick_fields [OF inv, where cm = "(c, hmem h)", unfolded tick fst_conv]
  have area: "stack_area B s' i = stack_area B s i" if "i < unat (s_count s)" for i
    using F(4) [OF that] by (simp add: stack_area_def)
  have k: "k < unat (s_count s)" "unat (s_count s) \<le> 16" "length (s_tasks s) = 16"
    using inv by (simp_all add: inv_defs k_def)
  obtain c2 m2 where C: "call_context_switch (t_rsp (task s ?n)) (c, hmem h) = (rsp c - 56, c2, m2)"
    "frame_ctx m2 (rsp c - 56) = running_ctx c" "running_ctx c2 = frame_ctx m2 (t_rsp (task s ?n))"
    "rflags c2 = rflags c" "\<And>x. x \<notin> span (rsp c - 56) 56 \<Longrightarrow> m2 x = hmem h x"
    using call_context_switch_spec [of "t_rsp (task s ?n)" c "hmem h"] by blast
  have S: "call_context_switch (t_rsp (task s ?n)) (c, hmem h) = (rsp c - 56, c', m')"
    "frame_ctx m' (rsp c - 56) = running_ctx c" "running_ctx c' = frame_ctx m' (t_rsp (task s ?n))"
    "rflags c' = rflags c" "\<And>x. x \<notin> span (rsp c - 56) 56 \<Longrightarrow> m' x = hmem h x"
    using C sched_tick_switch [OF inv sw C(1), unfolded tick] by auto
  note T = sched_tick_switch [OF inv sw S(1), unfolded tick]
  have n: "unat ?n < unat (s_count s)" "unat ?n \<noteq> k"
    using unat_next_task [of "s_current s" "s_count s"] next_neq [of "s_current s" "s_count s"] k sw
    by (auto simp: k_def switches_def word_less_nat_alt word_unat_eq_iff)
  have cur: "unat (s_current s') = unat ?n" using F(3) sw by simp
  have rsp: "t_rsp (s_tasks s' ! i) = (if i = k then rsp c - 56 else t_rsp (s_tasks s ! i))"
    if "i < unat (s_count s)" for i
    using T k n that by (auto simp: k_def nth_list_update)
  have room': "span (rsp c - 56) 56 \<subseteq> stack_area B s k" using room by (simp add: stack_room_def k_def)
  have wr: "m' x = hmem h x" if "x \<notin> stack_area B s k" for x using S(5) room' that by blast
  note fr = other_frame_kept [OF st k(1) [unfolded k_def], of _ m', OF _ _ wr [unfolded k_def]]
  note keep = stack_write_keeps [OF ok k(1), of m', OF wr]
  have "stacks_ok B s' (h\<lparr>hmem := m'\<rparr>)"
    unfolding stacks_ok_def F(1) cur
  proof (intro conjI allI impI)
    show "B \<inter> pool_span (h\<lparr>hmem := m'\<rparr>) = {}" using st by (simp add: stacks_ok_def pool_span_def)
    show "\<exists>t \<ge> 16384. (t_stack_base (s_tasks s' ! i), t) \<in> live (h\<lparr>hmem := m'\<rparr>)"
      if "i < unat (s_count s)" "0 < i" for i
      using st that keep F(4) [OF that(1)] by (simp add: stacks_ok_def)
    show "stack_area B s' i \<inter> stack_area B s' j = {}"
      if "i < unat (s_count s)" "j < unat (s_count s)" "i \<noteq> j" for i j
      using st that area by (simp add: stacks_ok_def)
    show "span (t_rsp (s_tasks s' ! i)) 56 \<subseteq> stack_area B s' i"
      if "i < unat (s_count s)" "i \<noteq> unat ?n" for i
      using st that area rsp room' by (auto simp: stacks_ok_def k_def)
  qed
  then show "sys_ok B (s', h\<lparr>hmem := m'\<rparr>, c')" using keep F(6) by (simp add: sys_ok_def)
  show "task_ctx (s', h\<lparr>hmem := m'\<rparr>, c') i = task_ctx (s, h, c) i" if "i < unat (s_count s)"
    using that cur rsp S(2,3) fr n by (auto simp: task_ctx_def k_def)
  show "rflags c' = rflags c" by (rule S(4))
qed

lemma sys_tick_step:
  assumes ok: "sys_ok B (s, h, c)" and room: "stack_room B (s, h, c)"
  shows "sys_ok B (sys_tick (s, h, c))"
    "i < unat (s_count s) \<Longrightarrow> task_ctx (sys_tick (s, h, c)) i = task_ctx (s, h, c) i"
    "rflags (snd (snd (sys_tick (s, h, c)))) = rflags c"
proof -
  have inv: "sched_inv s" using ok by (simp add: sys_ok_def)
  obtain s' c' m' where tick: "sched_tick (s, c, hmem h) = (s', c', m')" by (metis prod_cases3)
  have sys: "sys_tick (s, h, c) = (s', h\<lparr>hmem := m'\<rparr>, c')" by (simp add: sys_tick_def tick)
  have "sys_ok B (sys_tick (s, h, c)) \<and>
    (\<forall>i < unat (s_count s). task_ctx (sys_tick (s, h, c)) i = task_ctx (s, h, c) i) \<and>
    rflags (snd (snd (sys_tick (s, h, c)))) = rflags c"
  proof (cases "switches s")
    case False
    then have e: "s' = s\<lparr>s_ticks := s_ticks s + 1\<rparr>" "c' = c" "m' = hmem h"
      using tick sched_tick_idle by auto
    show ?thesis
      using ok sched_tick_fields(6) [OF inv, where cm = "(c, hmem h)", unfolded tick fst_conv] unfolding sys e
      by (simp_all add: sys_ok_def task_ctx_def)
  next
    case True
    from sys_switch_step [OF ok room True tick] show ?thesis unfolding sys by simp
  qed
  then show "sys_ok B (sys_tick (s, h, c))"
    "i < unat (s_count s) \<Longrightarrow> task_ctx (sys_tick (s, h, c)) i = task_ctx (s, h, c) i"
    "rflags (snd (snd (sys_tick (s, h, c)))) = rflags c"
    by blast+
qed

subsection \<open>New tasks\<close>

lemma kmalloc_outside_pool:
  assumes "pool_ok h" "kmalloc n h = Some (p, h1)"
  shows "s_head h1 = s_head h \<and> (\<forall>x. x \<notin> pool_span h \<longrightarrow> hmem h1 x = hmem h x)"
proof -
  obtain bs where rep: "heap_rep h bs" and wf: "blocks_wf bs" using assms(1) by (auto simp: inv_defs)
  have "x \<in> pool_span h" if "x \<in> sysarea (s_head h) bs" for x
    using sysarea_bounds [OF _ that] rep wf pool_bounds(2) [OF rep wf, of x]
    by (auto simp: heap_rep_def blocks_wf_def)
  then have "(h1 = h \<Longrightarrow> ?thesis)"
    "s_head h1 = s_head h \<Longrightarrow> \<forall>x. x \<notin> sysarea (s_head h) bs \<longrightarrow> hmem h1 x = hmem h x \<Longrightarrow> ?thesis"
    by blast+
  then show ?thesis by (rule kmalloc_cases [OF rep wf assms(2)])
qed

lemma new_stack:
  assumes "pool_ok h" "kmalloc 16384 h = Some (p, h1)" "p \<noteq> 0"
    "\<And>x. x \<notin> span p 16384 \<Longrightarrow> m x = hmem h1 x"
  defines "h' \<equiv> h1\<lparr>hmem := m\<rparr>"
  obtains t where "16384 \<le> t" "live h' = insert (p, t) (live h)" "pool_ok h'" "pool_span h' = pool_span h"
    "span p 16384 \<subseteq> pool_span h"
    "\<And>q u x. (q, u) \<in> live h \<Longrightarrow> span p 16384 \<inter> span q u = {}"
    "\<And>q u x. (q, u) \<in> live h \<Longrightarrow> x \<in> span q u \<Longrightarrow> m x = hmem h x"
    "\<And>x. x \<notin> pool_span h \<Longrightarrow> m x = hmem h x"
proof -
  obtain t where t: "16384 \<le> t" "live h1 = insert (p, t) (live h)" "p \<notin> fst ` live h"
    using kheap.alloc_adds [OF assms(1-3)] by (auto simp: size_ok_def)
  have inv1: "pool_ok h1" using kheap.alloc_returns [OF assms(1), of 16384] assms(2) by auto
  have sub: "span p 16384 \<subseteq> span p t" by (rule span_mono [OF t(1)])
  have keep: "pool_ok h' \<and> live h' = live h1"
    unfolding h'_def by (rule payload_write_keeps [OF inv1, of p t]) (use assms(4) sub t(2) in blast)+
  note out = kmalloc_outside_pool [OF assms(1,2)]
  have ps: "pool_span h1 = pool_span h" using out by (simp add: pool_span_def)
  have pool: "span p 16384 \<subseteq> pool_span h"
    using live_in_pool(1) [OF inv1, of p t] t(2) sub ps by blast
  have dis: "span p 16384 \<inter> span q u = {}" if "(q, u) \<in> live h" for q u
  proof -
    have "p \<noteq> q" using t(3) that by force
    then have "span p t \<inter> span q u = {}"
      using kheap.blocks_disjoint [OF inv1, of p t q u] t(2) that by blast
    with sub show ?thesis by blast
  qed
  show thesis
  proof
    show "16384 \<le> t" "live h' = insert (p, t) (live h)" "pool_ok h'" using t keep by simp_all
    show "pool_span h' = pool_span h" using ps by (simp add: h'_def pool_span_def)
    show "span p 16384 \<subseteq> pool_span h" by (rule pool)
    show "span p 16384 \<inter> span q u = {}" if "(q, u) \<in> live h" for q u by (rule dis [OF that])
    show "m x = hmem h x" if "(q, u) \<in> live h" "x \<in> span q u" for q u x
      using dis [OF that(1)] that(2) assms(4) [of x] kheap.alloc_bytes [OF assms(1,2) that] by auto
    show "m x = hmem h x" if "x \<notin> pool_span h" for x
      using that pool assms(4) [of x] out by auto
  qed
qed

lemma old_area_kept:
  assumes st: "stacks_ok B s h" and i: "i < unat (s_count s)" and new: "span p n \<subseteq> pool_span h"
    and dis: "\<And>q u. (q, u) \<in> live h \<Longrightarrow> span p n \<inter> span q u = {}"
    and mem: "\<And>q u x. (q, u) \<in> live h \<Longrightarrow> x \<in> span q u \<Longrightarrow> m x = hmem h x" "\<And>x. x \<notin> pool_span h \<Longrightarrow> m x = hmem h x"
  shows "stack_area B s i \<inter> span p n = {} \<and> (\<forall>x \<in> stack_area B s i. m x = hmem h x)"
proof (cases "i = 0")
  case True
  have "B \<inter> pool_span h = {}" using st by (simp add: stacks_ok_def)
  then show ?thesis using True new mem(2) by (auto simp: stack_area_def)
next
  case False
  then obtain v where v: "16384 \<le> v" "(t_stack_base (s_tasks s ! i), v) \<in> live h"
    using st i by (auto simp: stacks_ok_def)
  have "stack_area B s i \<subseteq> span (t_stack_base (s_tasks s ! i)) v"
    using False span_mono [OF v(1)] by (simp add: stack_area_def)
  then show ?thesis using dis [OF v(2)] mem(1) [OF v(2)] by blast
qed

text \<open>One more task, on a stack of its own.\<close>

lemma stacks_ok_create:
  assumes st: "stacks_ok B s h" and n: "unat (s_count s) = n" "unat (s_count s') = Suc n"
    and cur: "unat (s_current s') = unat (s_current s)" "unat (s_current s) < n"
    and tasks: "\<And>i. i < Suc n \<Longrightarrow> s_tasks s' ! i = (if i = n then t else s_tasks s ! i)"
    and t: "t_stack_base t = p" "t_rsp t = p + 16328"
    and live: "live h' = insert (p, u) (live h)" "16384 \<le> u" "pool_span h' = pool_span h"
    and old: "\<And>i. i < n \<Longrightarrow> stack_area B s i \<inter> span p 16384 = {}"
  shows "stacks_ok B s' h'"
  unfolding stacks_ok_def n(2) cur(1)
proof (intro conjI allI impI)
  have area_old: "stack_area B s' i = stack_area B s i" if "i < n" for i
    using that tasks [of i] by (simp add: stack_area_def)
  have area_new: "stack_area B s' n = span p 16384"
    using tasks [of n] t cur(2) by (simp add: stack_area_def)
  show "B \<inter> pool_span h' = {}" using st live(3) by (simp add: stacks_ok_def)
  show "\<exists>v \<ge> 16384. (t_stack_base (s_tasks s' ! i), v) \<in> live h'" if "i < Suc n" "0 < i" for i
  proof (cases "i = n")
    case True
    then show ?thesis using live(1,2) tasks [of i] t by auto
  next
    case False
    then have "\<exists>v \<ge> 16384. (t_stack_base (s_tasks s ! i), v) \<in> live h"
      using st that n(1) unfolding stacks_ok_def by (metis less_SucE)
    then show ?thesis using live(1) tasks [OF that(1)] False by auto
  qed
  show "stack_area B s' i \<inter> stack_area B s' j = {}" if ij: "i < Suc n" "j < Suc n" "i \<noteq> j" for i j
  proof -
    have "i < n \<and> j < n \<or> i = n \<and> j < n \<or> i < n \<and> j = n" using ij by linarith
    moreover have "stack_area B s i \<inter> stack_area B s j = {}" if "i < n" "j < n"
      using st ij(3) that n(1) unfolding stacks_ok_def by blast
    ultimately show ?thesis using area_old area_new old [of i] old [of j] by auto
  qed
  show "span (t_rsp (s_tasks s' ! i)) 56 \<subseteq> stack_area B s' i" if "i < Suc n" "i \<noteq> unat (s_current s)" for i
  proof (cases "i = n")
    case True
    then show ?thesis using tasks [of n] t area_new span_offset [of 16328 56 16384 p] by simp
  next
    case False
    then show ?thesis using that st tasks [of i] area_old [of i] n(1) by (simp add: stacks_ok_def)
  qed
qed

lemma sys_create_ok:
  assumes ok: "sys_ok B (s, h, c)" and c: "unat (s_count s) < 16"
    and k: "kmalloc 16384 h = Some (p, h1)" "p \<noteq> 0"
    and m: "frame_ctx m (p + 16328) = f" "\<And>x. x \<notin> span p 16384 \<Longrightarrow> m x = hmem h1 x"
    and s': "s' = s\<lparr>s_tasks := (s_tasks s)[unat (s_count s) := t], s_count := s_count s + 1\<rparr>"
    and t: "t_stack_base t = p" "t_rsp t = p + 16328" and inv': "sched_inv s'"
  defines "h' \<equiv> h1\<lparr>hmem := m\<rparr>"
  shows "sys_ok B (s', h', c)" "i < unat (s_count s) \<Longrightarrow> task_ctx (s', h', c) i = task_ctx (s, h, c) i"
    "task_ctx (s', h', c) (unat (s_count s)) = f"
proof -
  define n where "n = unat (s_count s)"
  have inv: "sched_inv s" and pool: "pool_ok h" and st: "stacks_ok B s h"
    using ok by (simp_all add: sys_ok_def)
  have n': "unat (s_count s') = Suc n" unfolding s' n_def using c by (simp, subst unat_add_lt) simp_all
  have cur: "unat (s_current s') = unat (s_current s)" "unat (s_current s) < n" "length (s_tasks s) = 16"
    using inv by (simp_all add: s' inv_defs n_def)
  have tasks: "s_tasks s' ! i = (if i = n then t else s_tasks s ! i)" if "i < Suc n" for i
    using that cur(3) c by (auto simp: s' n_def nth_list_update)
  obtain u where u: "16384 \<le> u" "live h' = insert (p, u) (live h)" "pool_ok h'" "pool_span h' = pool_span h"
    "span p 16384 \<subseteq> pool_span h" and dis: "\<And>q u. (q, u) \<in> live h \<Longrightarrow> span p 16384 \<inter> span q u = {}"
    and bl: "\<And>q u x. (q, u) \<in> live h \<Longrightarrow> x \<in> span q u \<Longrightarrow> m x = hmem h x"
    and out: "\<And>x. x \<notin> pool_span h \<Longrightarrow> m x = hmem h x"
    using new_stack [OF pool k m(2)] unfolding h'_def by metis
  have old: "stack_area B s i \<inter> span p 16384 = {} \<and> (\<forall>x \<in> stack_area B s i. m x = hmem h x)" if "i < n" for i
    using old_area_kept [OF st _ u(5) dis bl out] that by (simp add: n_def)
  have "stacks_ok B s' h'"
    using stacks_ok_create [OF st n_def [symmetric] n' cur(1,2) tasks t u(2,1,4)] old by blast
  then show "sys_ok B (s', h', c)" using inv' u(3) by (simp add: sys_ok_def)
  show "task_ctx (s', h', c) i = task_ctx (s, h, c) i" if i: "i < unat (s_count s)"
  proof (cases "i = unat (s_current s)")
    case False
    have "span (t_rsp (s_tasks s ! i)) 56 \<subseteq> stack_area B s i" using st i False by (simp add: stacks_ok_def)
    then have "frame_ctx m (t_rsp (s_tasks s ! i)) = frame_ctx (hmem h) (t_rsp (s_tasks s ! i))"
      using old [of i] i by (intro frame_ctx_cong) (auto simp: n_def)
    then show ?thesis using False i tasks [of i] cur(1) by (simp add: task_ctx_def h'_def n_def)
  qed (simp add: task_ctx_def cur(1))
  show "task_ctx (s', h', c) (unat (s_count s)) = f"
    using tasks [of n] cur t m(1) by (simp add: task_ctx_def h'_def n_def [symmetric])
qed

subsection \<open>The search for a ready task\<close>

lemma find_ready_step:
  "unat (n :: u32) \<le> 16 \<Longrightarrow> unat i < unat n \<Longrightarrow>
     unat ((i + 1) mod n) < unat n \<and> (unat ((i + 1) mod n) + j) mod unat n = (unat i + Suc j) mod unat n"
  using unat_next_task [of i n] by (simp add: mod_simps)

lemma find_ready_none:
  assumes "unat (s_count s) \<le> 16" "unat i < unat (s_count s)"
    "\<And>j. j < k \<Longrightarrow> t_state (s_tasks s ! ((unat i + j) mod unat (s_count s))) \<noteq> READY"
  shows "unat (find_ready k i s) = (unat i + k) mod unat (s_count s)"
  using assms(2,3)
proof (induction k arbitrary: i)
  case (Suc k)
  note st = find_ready_step [OF assms(1) Suc.prems(1)]
  have "t_state (task s i) \<noteq> READY" using Suc.prems(1) Suc.prems(2) [of 0] by simp
  moreover have "unat (find_ready k ((i + 1) mod s_count s) s) = (unat ((i + 1) mod s_count s) + k) mod unat (s_count s)"
  proof (rule Suc.IH)
    show "unat ((i + 1) mod s_count s) < unat (s_count s)" using st by blast
    show "t_state (s_tasks s ! ((unat ((i + 1) mod s_count s) + j) mod unat (s_count s))) \<noteq> READY" if "j < k" for j
      using Suc.prems(2) [of "Suc j"] st [of j] that by simp
  qed
  ultimately show ?case using st [of k] by simp
qed simp

lemma find_ready_some:
  assumes "unat (s_count s) \<le> 16" "unat i < unat (s_count s)" "j < k"
    "\<And>l. l < j \<Longrightarrow> t_state (s_tasks s ! ((unat i + l) mod unat (s_count s))) \<noteq> READY"
    "t_state (s_tasks s ! ((unat i + j) mod unat (s_count s))) = READY"
  shows "unat (find_ready k i s) = (unat i + j) mod unat (s_count s)"
  using assms(2-5)
proof (induction k arbitrary: i j)
  case (Suc k)
  show ?case
  proof (cases j)
    case 0
    then show ?thesis using Suc.prems by simp
  next
    case (Suc l)
    note st = find_ready_step [OF assms(1) Suc.prems(1)]
    have "t_state (task s i) \<noteq> READY" using Suc Suc.prems(1) Suc.prems(3) [of 0] by simp
    moreover have "unat (find_ready k ((i + 1) mod s_count s) s) = (unat ((i + 1) mod s_count s) + l) mod unat (s_count s)"
    proof (rule Suc.IH)
      show "unat ((i + 1) mod s_count s) < unat (s_count s)" using st by blast
      show "l < k" using Suc Suc.prems(2) by simp
      show "t_state (s_tasks s ! ((unat ((i + 1) mod s_count s) + a) mod unat (s_count s))) \<noteq> READY" if "a < l" for a
        using Suc.prems(3) [of "Suc a"] st [of a] that Suc by simp
      show "t_state (s_tasks s ! ((unat ((i + 1) mod s_count s) + l) mod unat (s_count s))) = READY"
        using Suc.prems(4) st [of l] Suc by simp
    qed
    ultimately show ?thesis using st [of l] Suc by simp
  qed
qed simp

subsection \<open>Sample system\<close>

definition demo_boot_stack :: "u64 set" where
  "demo_boot_stack = span 0x1000 0x1000"

definition demo_cpu :: cpu where
  "demo_cpu = \<lparr>regs = (\<lambda>_. 7), rsp = 0x1800, rip = 0x2000, rflags = 0x202, cs = 8, ss = 16\<rparr>"

definition demo_sched :: sched where
  "demo_sched = (sched_init sched_boot)\<lparr>s_ticks := 1\<rparr>"

lemma demo_sched_inv: "sched_inv demo_sched"
  using sched_inv_boot by (simp add: demo_sched_def inv_defs)

lemma sys_ok_demo: "sys_ok demo_boot_stack (demo_sched, demo_heap, demo_cpu)"
proof -
  have "demo_boot_stack \<inter> pool_span demo_heap = {}"
    unfolding demo_boot_stack_def pool_span_def by (rule span_disjoint_le) (simp_all add: demo_heap_def)
  then show ?thesis
    using demo_sched_inv pool_ok_demo
    by (simp add: sys_ok_def stacks_ok_def) (simp add: demo_sched_def sched_init_def)
qed

lemma demo_stack_alloc: "\<exists>p h1. kmalloc 16384 demo_heap = Some (p, h1) \<and> p \<noteq> 0"
proof -
  have n: "unat (((16384 :: u64) + 7) AND NOT 7) = 16384" by (subst round_up_8) simp_all
  have a: "abs_malloc 16384 fresh_pool = Some (0, [(16384, False), (245696, True)])"
    by (simp add: fresh_pool_def)
  have s: "s_head demo_heap = 0x100000" by (simp add: demo_heap_def)
  show ?thesis using kmalloc_spec [OF heap_rep_demo, of 16384] unfolding n a s by auto
qed

lemma sys_create:
  assumes "sys_ok B (s, h, c)"
  shows "\<exists>r s' h'. sched_create_task e n (s, h) = Some (r, s', h') \<and> sys_ok B (s', h', c) \<and>
    s_current s' = s_current s \<and> s_ticks s' = s_ticks s \<and>
    (\<forall>i < unat (s_count s). task_ctx (s', h', c) i = task_ctx (s, h, c) i) \<and>
    (if s_count s = 16 \<or> fst (the (kmalloc 16384 h)) = 0
     then r = 0xFFFFFFFF \<and> s_count s' = s_count s \<and> h' = h
     else r = s_count s \<and> s_count s' = s_count s + 1 \<and>
       cstr (t_name (task s' r)) = take 23 (cstr n) \<and>
       task_ctx (s', h', c) (unat r) =
         \<lparr>ctx_regs = replicate 6 0, ctx_rip = e, ctx_rsp = t_stack_base (task s' r) + 16384\<rparr>)"
proof -
  have inv: "sched_inv s" and pool: "pool_ok h" and st: "stacks_ok B s h"
    using assms by (simp_all add: sys_ok_def)
  have c: "unat (s_current s) < unat (s_count s)" "length (s_tasks s) = 16" using inv by (simp_all add: inv_defs)
  show ?thesis
  proof (rule sched_create_returns [OF inv pool, of e n])
    assume "s_count s = 16" "sched_create_task e n (s, h) = Some (0xFFFFFFFF, s, h)"
    with assms show ?thesis by simp
  next
    fix t
    assume a: "unat (s_count s) < 16" "kmalloc 16384 h = Some (0, h)"
      "sched_create_task e n (s, h) = Some (0xFFFFFFFF, s\<lparr>s_tasks := (s_tasks s)[unat (s_count s) := t]\<rparr>, h)"
    let ?s = "s\<lparr>s_tasks := (s_tasks s)[unat (s_count s) := t]\<rparr>"
    have "stack_area B ?s i = stack_area B s i" if "i < unat (s_count s)" for i
      using that by (simp add: stack_area_def)
    then have "stacks_ok B ?s h" using st by (simp add: stacks_ok_def)
    moreover have "sched_inv ?s" using sched_create_inv [OF inv pool a(3)] .
    ultimately show ?thesis using a pool c by (simp add: sys_ok_def task_ctx_def)
  next
    fix p h1 m
    let ?t = "\<lparr>t_rsp = p + 16328, t_stack_base = p, t_state = READY,
             t_id = s_count s, t_name = copy_str (t_name (task s (s_count s))) n 24\<rparr>"
    let ?s = "s\<lparr>s_tasks := (s_tasks s)[unat (s_count s) := ?t], s_count := s_count s + 1\<rparr>"
    assume a: "unat (s_count s) < 16" "kmalloc 16384 h = Some (p, h1)" "p \<noteq> 0"
      "sched_create_task e n (s, h) = Some (s_count s, ?s, h1\<lparr>hmem := m\<rparr>)"
      "frame_ctx m (p + 16328) = \<lparr>ctx_regs = replicate 6 0, ctx_rip = e, ctx_rsp = p + 16384\<rparr>"
      "\<And>x. x \<notin> span p 16384 \<Longrightarrow> m x = hmem h1 x"
    have nm: "cstr (t_name ?t) = take 23 (cstr n)"
      using copy_str_spec [of "t_name (task s (s_count s))" 24 n] inv a(1) by (simp add: inv_defs)
    have t: "t_stack_base ?t = p" "t_rsp ?t = p + 16328" by simp_all
    note K = sys_create_ok [OF assms a(1-3,5,6) refl t sched_create_inv [OF inv pool a(4)]]
    have "s_count s \<noteq> 16" using a(1) by auto
    then show ?thesis using a(2-4) K nm c(2) a(1) by simp
  qed
qed

lemma demo_create:
  obtains s' h' where "sched_create_task 0x5000 ''ticker'' (demo_sched, demo_heap) = Some (1, s', h')"
    "sys_ok demo_boot_stack (s', h', demo_cpu)" "stack_room demo_boot_stack (s', h', demo_cpu)"
    "switches s'" "s_count s' = 2" "s_current s' = 0" "sched_reach s'"
    "task_ctx (s', h', demo_cpu) 1 = \<lparr>ctx_regs = replicate 6 0, ctx_rip = 0x5000, ctx_rsp = t_stack_base (s_tasks s' ! 1) + 16384\<rparr>"
proof -
  have d: "s_count demo_sched = 1" "s_current demo_sched = 0" "s_ticks demo_sched = 1"
    by (simp_all add: demo_sched_def sched_init_def)
  have k: "fst (the (kmalloc 16384 demo_heap)) \<noteq> 0" using demo_stack_alloc by auto
  obtain s' h' where s': "sched_create_task 0x5000 ''ticker'' (demo_sched, demo_heap) = Some (1, s', h')"
    "sys_ok demo_boot_stack (s', h', demo_cpu)" "s_current s' = 0" "s_ticks s' = 1" "s_count s' = 2"
    "task_ctx (s', h', demo_cpu) 1 = \<lparr>ctx_regs = replicate 6 0, ctx_rip = 0x5000, ctx_rsp = t_stack_base (s_tasks s' ! 1) + 16384\<rparr>"
    using sys_create [OF sys_ok_demo, of "0x5000" "''ticker''"] d k by auto
  have "sched_reach demo_sched"
    using sched_reach.tick [OF sched_reach.init] sched_tick_idle [of "sched_init sched_boot" "(demo_cpu, hmem demo_heap)"]
    by (auto simp: demo_sched_def switches_def sched_init_def upd_task_def sched_boot_def)
  then have "sched_reach s'" using s'(1) pool_ok_demo sched_reach.create by blast
  moreover have "stack_room demo_boot_stack (s', h', demo_cpu)"
    using span_offset [of 1992 56 4096 "0x1000"] s'(3)
    by (simp add: stack_room_def stack_area_def demo_cpu_def demo_boot_stack_def)
  moreover have "switches s'" using s'(4,5) by (simp add: switches_def const_defs)
  ultimately show thesis using that s' by blast
qed

definition dead_sched :: sched where
  "dead_sched = \<lparr>s_tasks = replicate 16 \<lparr>t_rsp = 0, t_stack_base = 0, t_state = DEAD, t_id = 0, t_name = []\<rparr>,
     s_count = 2, s_current = 0, s_ticks = 1\<rparr>"

subsection \<open>Properties\<close>

text \<open>
  Claim C23. In every reachable task table there are between 1 and 16 tasks, each carries its own
  number, exactly one task is running, the current one, and every other task is ready.
\<close>

theorem sched_one_running:
  assumes "sched_reach s"
  shows "1 \<le> unat (s_count s) \<and> unat (s_count s) \<le> 16 \<and>
    {i. i < unat (s_count s) \<and> t_state (s_tasks s ! i) = RUNNING} = {unat (s_current s)} \<and>
    (\<forall>i < unat (s_count s). unat (t_id (s_tasks s ! i)) = i \<and> t_state (s_tasks s ! i) \<in> {READY, RUNNING})"
  using sched_reach_inv [OF assms] by (auto simp: inv_defs split: if_splits)

theorem sched_one_running_witness:
  "\<exists>s. sched_reach s \<and> s_count s = 2 \<and> {i. i < 2 \<and> t_state (s_tasks s ! i) = RUNNING} = {0}"
proof (rule demo_create)
  fix s' h' assume a: "sched_reach s'" "s_count s' = 2" "s_current s' = 0"
  show ?thesis using sched_one_running [OF a(1)] a by (intro exI [of _ s']) simp
qed

text \<open>
  Claim C19. Round robin and fairness: from the start of a time slice, after \<open>k\<close> slices of two ticks
  each the current task is the \<open>k\<close>-th after the present one in the cyclic order, whatever the
  processor does in between and also when the 32-bit tick counter wraps; so every task gets the
  processor within \<open>s_count\<close> slices.
\<close>

theorem sched_round_robin:
  assumes "sched_reach s" "s_ticks s mod SCHED_SLICE = 0"
  shows "(\<forall>k cms. length cms = 2 * k \<longrightarrow>
      unat (s_current (run_ticks cms s)) = (unat (s_current s) + k) mod unat (s_count s)) \<and>
    (\<forall>j < unat (s_count s). \<exists>k < unat (s_count s). \<forall>cms. length cms = 2 * k \<longrightarrow>
      unat (s_current (run_ticks cms s)) = j)"
proof -
  have inv: "sched_inv s" by (rule sched_reach_inv [OF assms(1)])
  have c: "unat (s_current s) < unat (s_count s)" using inv by (simp add: inv_defs)
  have R: "unat (s_current (run_ticks cms s)) = (unat (s_current s) + k) mod unat (s_count s)"
    if "length cms = 2 * k" for k cms using run_ticks_pairs [OF inv assms(2) that] by simp
  have "\<exists>k < n. (i + k) mod n = j" if "i < n" "j < n" for i j n :: nat
    using that by (intro exI [of _ "(n - i + j) mod n"]) (simp add: mod_simps)
  then have "\<exists>k < unat (s_count s). (unat (s_current s) + k) mod unat (s_count s) = j"
    if "j < unat (s_count s)" for j using that c by blast
  with R show ?thesis by metis
qed

theorem sched_round_robin_witness:
  "\<exists>s cm. sched_reach s \<and> s_ticks s mod SCHED_SLICE = 0 \<and> unat (s_current s) = 1 \<and>
     unat (s_current (run_ticks [cm, cm] s)) = 0"
proof (rule demo_create)
  fix s' h' assume a: "sched_reach s'" "s_count s' = 2" "s_current s' = 0" "switches s'"
  let ?cm = "(demo_cpu, \<lambda>_. 0) :: mstate"
  let ?s = "fst (sched_tick (s', ?cm))"
  note F = sched_tick_fields [OF sched_reach_inv [OF a(1)], where cm = ?cm]
  have r: "sched_reach ?s" using sched_reach.tick [OF a(1)] by (metis prod.collapse)
  have e: "s_ticks ?s mod SCHED_SLICE = 0" using a(4) F(2) by (simp add: switches_def)
  have c: "unat (s_current ?s) = 1" "unat (s_count ?s) = 2" using F(1,3) a(2-4) by simp_all
  have "unat (s_current (run_ticks [?cm, ?cm] ?s)) = (unat (s_current ?s) + 1) mod unat (s_count ?s)"
    using conjunct1 [OF sched_round_robin [OF r e], rule_format, of "[?cm, ?cm]" 1] by simp
  then have "unat (s_current (run_ticks [?cm, ?cm] ?s)) = 0" using c by simp
  with r e c(1) show ?thesis by (intro exI [of _ ?s] exI [of _ ?cm] conjI)
qed

text \<open>
  Claim C6. A timer tick loses no context: whether it switches or not, every task, the interrupted
  one included, keeps the registers, the instruction address and the stack pointer it resumes with;
  the heap and the stacks stay sound, and the tick makes the next task in the cyclic order current
  exactly when the slice is over and there is more than one task.
\<close>

theorem sched_tick_contexts:
  assumes "sys_ok B (s, h, c)" "stack_room B (s, h, c)"
  shows "case sys_tick (s, h, c) of (s', h', c') \<Rightarrow>
    sys_ok B (s', h', c') \<and>
    (\<forall>i < unat (s_count s). task_ctx (s', h', c') i = task_ctx (s, h, c) i) \<and>
    s_current s' = (if (s_ticks s + 1) mod SCHED_SLICE = 0 \<and> 1 < s_count s
      then (s_current s + 1) mod s_count s else s_current s) \<and>
    running_ctx c' = task_ctx (s, h, c) (unat (s_current s'))"
proof -
  obtain s' h' c' where st: "sys_tick (s, h, c) = (s', h', c')" by (metis prod_cases3)
  note T = sys_tick_step [OF assms, unfolded st]
  have inv: "sched_inv s" using assms(1) by (simp add: sys_ok_def)
  have s': "s' = fst (sched_tick (s, c, hmem h))" using st by (simp add: sys_tick_def split: prod.splits)
  note F = sched_tick_fields [OF inv, where cm = "(c, hmem h)", folded s']
  have "unat (s_current s') < unat (s_count s)" using F(1,6) by (simp add: inv_defs)
  then have "running_ctx c' = task_ctx (s, h, c) (unat (s_current s'))"
    using T(2) [of "unat (s_current s')"] by (simp add: task_ctx_def)
  then show ?thesis using T(1,2) F(3) by (simp add: st switches_def)
qed

theorem sched_tick_contexts_witness:
  "\<exists>s h. sys_ok demo_boot_stack (s, h, demo_cpu) \<and> stack_room demo_boot_stack (s, h, demo_cpu) \<and>
     rip (snd (snd (sys_tick (s, h, demo_cpu)))) = 0x5000"
proof (rule demo_create)
  fix s' h'
  assume a: "sys_ok demo_boot_stack (s', h', demo_cpu)" "stack_room demo_boot_stack (s', h', demo_cpu)"
    "switches s'" "s_count s' = 2" "s_current s' = 0"
    "task_ctx (s', h', demo_cpu) 1 = \<lparr>ctx_regs = replicate 6 0, ctx_rip = 0x5000, ctx_rsp = t_stack_base (s_tasks s' ! 1) + 16384\<rparr>"
  then have "rip (snd (snd (sys_tick (s', h', demo_cpu)))) = 0x5000"
    using sched_tick_contexts [OF a(1,2)] by (auto simp: switches_def running_ctx_def split: prod.splits)
  with a show ?thesis by blast
qed

text \<open>
  Claim C24. Creating a task always returns.  With a full table or no memory for the stack the result
  is \<open>0xFFFFFFFF\<close> and neither the number of tasks nor the heap changes.  Otherwise the result is the
  new task's number, the task will start at \<open>entry_fn\<close> with the callee-saved registers zero and its
  stack empty, its name is the given one cut to 23 characters; the stack is disjoint from all others
  and the contexts of the existing tasks are untouched.
\<close>

theorem sched_create_task_correct:
  assumes "sys_ok B (s, h, c)"
  shows "\<exists>r s' h'. sched_create_task e n (s, h) = Some (r, s', h') \<and> sys_ok B (s', h', c) \<and>
    (\<forall>i < unat (s_count s). task_ctx (s', h', c) i = task_ctx (s, h, c) i) \<and>
    (if s_count s = 16 \<or> fst (the (kmalloc 16384 h)) = 0
     then r = 0xFFFFFFFF \<and> s_count s' = s_count s \<and> h' = h
     else r = s_count s \<and> s_count s' = s_count s + 1 \<and>
       cstr (t_name (task s' r)) = take 23 (cstr n) \<and>
       task_ctx (s', h', c) (unat r) =
         \<lparr>ctx_regs = replicate 6 0, ctx_rip = e, ctx_rsp = t_stack_base (task s' r) + 16384\<rparr>)"
  using sys_create [OF assms, of e n] by blast

theorem sched_create_task_correct_witness:
  "\<exists>s' h'. sched_create_task 0x5000 ''ticker'' (demo_sched, demo_heap) = Some (1, s', h') \<and>
     cstr (t_name (s_tasks s' ! 1)) = ''ticker''"
  using sched_create_task_correct [OF sys_ok_demo, of "0x5000" "''ticker''"] demo_stack_alloc
  by (auto simp: demo_sched_def sched_init_def)

text \<open>
  When no task is ready and the current one is not running, the search of \<open>sched_tick\<close>
  comes back to where it started and the tick switches to the next entry all the same: it marks a
  blocked or dead task as running and resumes its stack.
\<close>

lemma sched_tick_resumes_dead:
  assumes "unat (s_current s) < unat (s_count s)" "1 < s_count s" "unat (s_count s) \<le> 16"
    "length (s_tasks s) = 16" "(s_ticks s + 1) mod SCHED_SLICE = 0"
    and dead: "\<forall>i < unat (s_count s). t_state (s_tasks s ! i) \<in> {BLOCKED, DEAD}"
  shows "let s' = fst (sched_tick (s, cm)); n = (s_current s + 1) mod s_count s in
    s_current s' = n \<and> t_state (task s' n) = RUNNING \<and> t_state (task s n) \<in> {BLOCKED, DEAD}"
proof -
  let ?n = "(s_current s + 1) mod s_count s" and ?s = "s\<lparr>s_ticks := s_ticks s + 1\<rparr>"
  have lt: "1 < unat (s_count s)" using assms(2) by (simp add: word_less_nat_alt)
  have n: "unat ?n < unat (s_count s)" "?n \<noteq> s_current s" "unat ?n \<noteq> unat (s_current s)"
    using unat_next_task [OF assms(1,3)] next_neq [OF assms(1) lt assms(3)] assms(1)
    by (auto simp: word_unat_eq_iff)
  have d: "t_state (s_tasks s ! i) \<noteq> READY \<and> t_state (s_tasks s ! i) \<noteq> RUNNING" if "i < unat (s_count s)" for i
    using dead that by auto
  have "unat (find_ready (unat (s_count s)) ?n ?s) = unat ?n"
    using find_ready_none [of ?s ?n "unat (s_count s)"] assms(1,3) n(1) d by simp
  then have f: "find_ready (unat (s_count s)) ?n ?s = ?n" by (simp add: word_unat_eq_iff)
  have cur: "t_state (task s (s_current s)) \<noteq> RUNNING" using d assms(1) by blast
  obtain old cm' where cs: "call_context_switch (t_rsp (task s ?n)) cm = (old, cm')"
    by (cases "call_context_switch (t_rsp (task s ?n)) cm") auto
  have len: "unat ?n < length (s_tasks s)" using n(1) assms(3,4) by simp
  have "fst (sched_tick (s, cm)) = s\<lparr>s_ticks := s_ticks s + 1, s_current := ?n,
      s_tasks := (s_tasks s)[unat ?n := (task s ?n)\<lparr>t_state := RUNNING\<rparr>,
        unat (s_current s) := (task s (s_current s))\<lparr>t_rsp := old\<rparr>]\<rparr>"
    using assms(2,5) cur f n len cs by (simp add: sched_tick_def Let_def upd_task_def not_le)
  then show ?thesis using n len dead by (simp add: Let_def)
qed

end
