(* ===== verification/Pic.thy ===== *)
theory Pic
  imports Ports
begin

section \<open>Interrupt controller and timer\<close>

text \<open>
  \<open>kernel/drivers/pic.cpp\<close> and \<open>pit.cpp\<close>: each function is the sequence of port accesses it makes.
  The specification is the programming model of the 8259 (\<open>pic_chip\<close>): what a chip makes of the
  writes to its command and data port, the initialisation words in order, then masks and end-of-
  interrupt commands.  A read of the data port gives the mask (\<open>pic_readback\<close>).
\<close>

subsection \<open>Operations\<close>

definition PIC1_CMD :: u16 where [const_defs]: "PIC1_CMD = 0x20"
definition PIC1_DATA :: u16 where [const_defs]: "PIC1_DATA = 0x21"
definition PIC2_CMD :: u16 where [const_defs]: "PIC2_CMD = 0xA0"
definition PIC2_DATA :: u16 where [const_defs]: "PIC2_DATA = 0xA1"
definition PIC_ICW1_INIT :: u8 where [const_defs]: "PIC_ICW1_INIT = 0x10"
definition PIC_ICW1_ICW4 :: u8 where [const_defs]: "PIC_ICW1_ICW4 = 0x01"
definition PIC_ICW4_8086 :: u8 where [const_defs]: "PIC_ICW4_8086 = 0x01"
definition PIC_EOI :: u8 where [const_defs]: "PIC_EOI = 0x20"

definition io_wait :: "io \<Rightarrow> io" where
  "io_wait w = outb 0x80 0 w"

definition pic_init :: "device \<Rightarrow> u8 \<Rightarrow> u8 \<Rightarrow> io \<Rightarrow> io" where
  "pic_init dev master_offset slave_offset w =
     (let (m1, w) = inb dev PIC1_DATA w;
          (m2, w) = inb dev PIC2_DATA w;
          w = io_wait (outb PIC1_CMD (PIC_ICW1_INIT OR PIC_ICW1_ICW4) w);
          w = io_wait (outb PIC2_CMD (PIC_ICW1_INIT OR PIC_ICW1_ICW4) w);
          w = io_wait (outb PIC1_DATA master_offset w);
          w = io_wait (outb PIC2_DATA slave_offset w);
          w = io_wait (outb PIC1_DATA 0x04 w);
          w = io_wait (outb PIC2_DATA 0x02 w);
          w = io_wait (outb PIC1_DATA PIC_ICW4_8086 w);
          w = io_wait (outb PIC2_DATA PIC_ICW4_8086 w);
          w = outb PIC1_DATA 0xFF w
      in outb PIC2_DATA 0xFF w)"

definition pic_send_eoi :: "u8 \<Rightarrow> io \<Rightarrow> io" where
  "pic_send_eoi irq w =
     (let w = (if 8 \<le> irq then outb PIC2_CMD PIC_EOI w else w) in outb PIC1_CMD PIC_EOI w)"

definition pic_enable_irq :: "device \<Rightarrow> u8 \<Rightarrow> io \<Rightarrow> io" where
  "pic_enable_irq dev irq w =
     (let port = (if irq < 8 then PIC1_DATA else PIC2_DATA);
          b = irq mod 8;
          (v, w) = inb dev port w;
          w = outb port (v AND NOT (push_bit (unat b) 1)) w
      in if 8 \<le> irq
         then let (v, w) = inb dev PIC1_DATA w in outb PIC1_DATA (v AND NOT (push_bit 2 1)) w
         else w)"

definition pic_disable_irq :: "device \<Rightarrow> u8 \<Rightarrow> io \<Rightarrow> io" where
  "pic_disable_irq dev irq w =
     (let port = (if irq < 8 then PIC1_DATA else PIC2_DATA);
          b = irq mod 8;
          (v, w) = inb dev port w
      in outb port (v OR push_bit (unat b) 1) w)"

definition pic_disable_all :: "io \<Rightarrow> io" where
  "pic_disable_all w = outb PIC2_DATA 0xFF (outb PIC1_DATA 0xFF w)"

text \<open>The timer; its tick counter is the state.  A rate of zero is a division by zero.\<close>

definition PIT_BASE_FREQ :: u32 where [const_defs]: "PIT_BASE_FREQ = 1193180"
definition PIT_CH0_DATA :: u16 where [const_defs]: "PIT_CH0_DATA = 0x40"
definition PIT_CMD :: u16 where [const_defs]: "PIT_CMD = 0x43"
definition PIT_MODE :: u8 where [const_defs]: "PIT_MODE = 0x36"

record pit =
  pit_s_ticks :: u64

definition pit_tick_handler :: "pit \<Rightarrow> pit" where
  "pit_tick_handler p = p\<lparr>pit_s_ticks := pit_s_ticks p + 1\<rparr>"

definition pit_init :: "device \<Rightarrow> u32 \<Rightarrow> io \<Rightarrow> io option" where
  "pit_init dev hz w =
     (if hz = 0 then None
      else let divisor = PIT_BASE_FREQ div hz;
               w = outb PIT_CMD PIT_MODE w;
               w = outb PIT_CH0_DATA (ucast (divisor AND 0xFF)) w;
               w = outb PIT_CH0_DATA (ucast (drop_bit 8 divisor)) w
           in Some (pic_enable_irq dev 0 w))"

definition pit_ticks :: "pit \<Rightarrow> u64" where
  "pit_ticks p = pit_s_ticks p"

subsection \<open>The 8259\<close>

record pic_chip =
  icw_next :: nat
  icw4_needed :: bool
  vector_base :: u8
  cascade :: u8
  icw4 :: u8
  imr :: u8
  eois :: nat

definition chip_cmd :: "u8 \<Rightarrow> pic_chip \<Rightarrow> pic_chip" where
  "chip_cmd v c =
     (if bit v 4 then c\<lparr>icw_next := 2, icw4_needed := bit v 0, imr := 0\<rparr>
      else if v = 0x20 then c\<lparr>eois := eois c + 1\<rparr> else c)"

definition chip_data :: "u8 \<Rightarrow> pic_chip \<Rightarrow> pic_chip" where
  "chip_data v c =
     (if icw_next c = 2 then c\<lparr>vector_base := v, icw_next := 3\<rparr>
      else if icw_next c = 3 then c\<lparr>cascade := v, icw_next := (if icw4_needed c then 4 else 0)\<rparr>
      else if icw_next c = 4 then c\<lparr>icw4 := v, icw_next := 0\<rparr>
      else c\<lparr>imr := v\<rparr>)"

fun chip_run :: "u16 \<Rightarrow> u16 \<Rightarrow> io \<Rightarrow> pic_chip \<Rightarrow> pic_chip" where
  "chip_run cmd dat [] c = c"
| "chip_run cmd dat (Out p v # w) c =
     chip_run cmd dat w (if p = cmd then chip_cmd v c else if p = dat then chip_data v c else c)"
| "chip_run cmd dat (In p v # w) c = chip_run cmd dat w c"

definition power_on :: pic_chip where
  "power_on = \<lparr>icw_next = 0, icw4_needed = False, vector_base = 0, cascade = 0, icw4 = 0, imr = 0, eois = 0\<rparr>"

definition master :: "io \<Rightarrow> pic_chip" where
  "master w = chip_run PIC1_CMD PIC1_DATA w power_on"

definition slave :: "io \<Rightarrow> pic_chip" where
  "slave w = chip_run PIC2_CMD PIC2_DATA w power_on"

lemma chip_run_append: "chip_run cmd dat (v @ w) c = chip_run cmd dat w (chip_run cmd dat v c)"
  by (induction cmd dat v c rule: chip_run.induct) auto

lemma chips_io [simp]:
  "master (w @ [In p v]) = master w" "slave (w @ [In p v]) = slave w"
  "master (outb p v w) =
     (if p = 0x20 then chip_cmd v (master w) else if p = 0x21 then chip_data v (master w) else master w)"
  "slave (outb p v w) =
     (if p = 0xA0 then chip_cmd v (slave w) else if p = 0xA1 then chip_data v (slave w) else slave w)"
  by (simp_all add: master_def slave_def chip_run_append const_defs outb_def)

definition pic_readback :: "device \<Rightarrow> bool" where
  "pic_readback dev \<longleftrightarrow> (\<forall>w. dev w 0x21 = imr (master w) \<and> dev w 0xA1 = imr (slave w))"

definition pics_ready :: "io \<Rightarrow> bool" where
  "pics_ready w \<longleftrightarrow> icw_next (master w) = 0 \<and> icw_next (slave w) = 0"

definition pic_dev :: device where
  "pic_dev w p = (if p = 0x21 then imr (master w) else if p = 0xA1 then imr (slave w) else
     if p = 0x3FD then 0x20 else 0xFF)"

lemma pic_dev_ok: "pic_readback pic_dev" "uart_live pic_dev"
  unfolding pic_readback_def uart_live_def
  by (simp add: pic_dev_def, intro allI exI [of _ 0]) (simp add: pic_dev_def)

lemma two_bytes:
  "unat (ucast (d AND 0xFF :: u32) :: u8) + 256 * unat (ucast (drop_bit 8 d) :: u8) = unat d mod 65536"
proof -
  have "unat (ucast (d AND 0xFF :: u32) :: u8) = unat d mod 256"
  proof -
    have "(0xFF :: u32) = mask 8" by (simp add: mask_eq_exp_minus_1)
    then have "d AND 0xFF = take_bit 8 d" by (simp add: take_bit_eq_mask)
    then show ?thesis by (simp add: unsigned_ucast_eq unsigned_take_bit_eq take_bit_eq_mod unat_mod)
  qed
  moreover have "unat (ucast (drop_bit 8 d) :: u8) = unat d div 256 mod 256"
    by (simp add: unsigned_ucast_eq unsigned_drop_bit_eq take_bit_eq_mod drop_bit_eq_div unat_div)
  moreover have "unat d mod 65536 = unat d mod 256 + 256 * (unat d div 256 mod 256)"
    using mod_mult2_eq [of "unat d" 256 256] by simp
  ultimately show ?thesis by simp
qed

lemma pic_init_chips:
  fixes dev m s w
  defines "w' \<equiv> pic_init dev m s w"
  shows "pics_ready w'" "vector_base (master w') = m" "cascade (master w') = 4" "icw4 (master w') = 1"
    "imr (master w') = 0xFF" "vector_base (slave w') = s" "cascade (slave w') = 2" "icw4 (slave w') = 1"
    "imr (slave w') = 0xFF"
proof -
  have b: "bit (0x11 :: u8) 4" "bit (0x11 :: u8) 0" by simp_all
  have i: "PIC_ICW1_INIT OR PIC_ICW1_ICW4 = 0x11" by (simp add: const_defs)
  show "pics_ready w'" "vector_base (master w') = m" "cascade (master w') = 4" "icw4 (master w') = 1"
    "imr (master w') = 0xFF" "vector_base (slave w') = s" "cascade (slave w') = 2" "icw4 (slave w') = 1"
    "imr (slave w') = 0xFF"
    unfolding w'_def pic_init_def i
    by (simp_all add: Let_def pics_ready_def inb_def io_wait_def PIC1_CMD_def PIC1_DATA_def
        PIC2_CMD_def PIC2_DATA_def PIC_ICW4_8086_def chip_cmd_def chip_data_def b)
qed

lemma on_serial_chips: "list_all on_serial v \<Longrightarrow> master (w @ v) = master w \<and> slave (w @ v) = slave w"
proof (induction v arbitrary: w)
  case (Cons a v)
  have "master (w @ [a]) = master w \<and> slave (w @ [a]) = slave w"
    using Cons.prems by (cases a) (simp_all add: master_def slave_def chip_run_append const_defs)
  with Cons.IH [of "w @ [a]"] Cons.prems show ?case by simp
qed simp

lemma sent_chips: "sent s w w' \<Longrightarrow> master w' = master w \<and> slave w' = slave w"
  using on_serial_chips by (auto simp: sent_def)

lemma pic_enable_low:
  assumes "pic_readback dev" "pics_ready w" "irq < 8"
  shows "master (pic_enable_irq dev irq w) = (master w)\<lparr>imr := imr (master w) AND NOT (push_bit (unat irq) 1)\<rparr>"
    "slave (pic_enable_irq dev irq w) = slave w"
proof -
  have "irq mod 8 = irq" "\<not> 8 \<le> irq" using assms(3) by (simp_all add: word_unat_eq_iff unat_mod word_less_nat_alt word_le_nat_alt)
  with assms show "master (pic_enable_irq dev irq w) = (master w)\<lparr>imr := imr (master w) AND NOT (push_bit (unat irq) 1)\<rparr>"
    "slave (pic_enable_irq dev irq w) = slave w"
    by (simp_all add: pic_enable_irq_def inb_def pic_readback_def pics_ready_def chip_data_def PIC1_DATA_def Let_def)
qed

lemma pit_init_divisor:
  "if hz = 0 then pit_init dev hz w = None
   else \<exists>w' lo hi. pit_init dev hz w = Some w' \<and> outs PIT_CMD w' = outs PIT_CMD w @ [0x36] \<and>
     outs PIT_CH0_DATA w' = outs PIT_CH0_DATA w @ [lo, hi] \<and>
     unat lo + 256 * unat hi = 1193180 div unat hz mod 65536 \<and>
     (19 \<le> hz \<longrightarrow> unat lo + 256 * unat hi = 1193180 div unat hz)"
proof (cases "hz = 0")
  case False
  define d where "d = PIT_BASE_FREQ div hz"
  define lo :: u8 where "lo = ucast (d AND 0xFF)"
  define hi :: u8 where "hi = ucast (drop_bit 8 d)"
  have d: "unat d = 1193180 div unat hz" by (simp add: d_def const_defs unat_div)
  have sum: "unat lo + 256 * unat hi = unat d mod 65536"
    unfolding lo_def hi_def by (rule two_bytes)
  have "1193180 div unat hz < 65536" if "19 \<le> hz"
  proof -
    have "1193180 div unat hz \<le> 1193180 div 19" using that by (intro div_le_mono2) (simp_all add: word_le_nat_alt)
    then show ?thesis by simp
  qed
  moreover have "\<exists>w'. pit_init dev hz w = Some w' \<and> outs PIT_CMD w' = outs PIT_CMD w @ [0x36] \<and>
     outs PIT_CH0_DATA w' = outs PIT_CH0_DATA w @ [lo, hi]"
    using False unfolding pit_init_def Let_def d_def [symmetric] lo_def [symmetric] hi_def [symmetric]
    by (simp add: pic_enable_irq_def inb_def outb_def const_defs)
  ultimately show ?thesis using False sum d by auto
qed (simp add: pit_init_def)

subsection \<open>Properties\<close>

text \<open>
  Claim C36. On initialised controllers, enabling a line clears exactly its mask bit, and for a line
  of the slave also the master's cascade bit; disabling sets exactly its mask bit; an end of
  interrupt reaches the slave exactly when the line is one of the slave's, and the master always.
\<close>

theorem pic_irq_lines:
  assumes dev: "pic_readback dev" and ready: "pics_ready w" and irq: "irq < 16"
  shows "let e = pic_enable_irq dev irq w; d = pic_disable_irq dev irq w; z = pic_send_eoi irq w;
      k = unat irq mod 8; hi = (8 \<le> irq) in
    imr (master e) = (if hi then imr (master w) AND NOT 4 else imr (master w) AND NOT (push_bit k 1)) \<and>
    imr (slave e) = (if hi then imr (slave w) AND NOT (push_bit k 1) else imr (slave w)) \<and>
    imr (master d) = (if hi then imr (master w) else imr (master w) OR push_bit k 1) \<and>
    imr (slave d) = (if hi then imr (slave w) OR push_bit k 1 else imr (slave w)) \<and>
    pics_ready e \<and> pics_ready d \<and>
    eois (master z) = eois (master w) + 1 \<and> eois (slave z) = eois (slave w) + (if hi then 1 else 0)"
proof -
  have r: "dev u 0x21 = imr (master u)" "dev u 0xA1 = imr (slave u)" for u
    using dev by (simp_all add: pic_readback_def)
  have n: "icw_next (master w) = 0" "icw_next (slave w) = 0" using ready by (simp_all add: pics_ready_def)
  have k: "unat (irq mod 8) = unat irq mod 8" by (simp add: unat_mod)
  have e: "\<not> bit (0x20 :: u8) 4" by simp
  show ?thesis
    unfolding Let_def pic_enable_irq_def pic_disable_irq_def pic_send_eoi_def
    by (auto simp: not_less inb_def r k n e pics_ready_def chip_data_def chip_cmd_def
        PIC1_CMD_def PIC1_DATA_def PIC2_CMD_def PIC2_DATA_def PIC_EOI_def)
qed

theorem pic_irq_lines_witness:
  "imr (master (pic_enable_irq pic_dev 12 (pic_init pic_dev 32 40 []))) = 0xFB \<and>
   imr (slave (pic_enable_irq pic_dev 12 (pic_init pic_dev 32 40 []))) = 0xEF"
proof -
  note P = pic_init_chips [of pic_dev 32 40 "[]"]
  show ?thesis using pic_irq_lines [OF pic_dev_ok(1), of "pic_init pic_dev 32 40 []" 12] P by (simp add: Let_def)
qed

text \<open>
  Claim C37. For every rate from 19 Hz up, \<open>pit_init\<close> selects channel 0 in mode 3 and sends the
  quotient of the base frequency low byte first, so the two bytes give back the divisor; a slower
  rate needs more than 16 bits and its divisor is silently cut to the low ones; a rate of 0 does not
  return.
\<close>

theorem pit_init_programs_rate:
  "if hz = 0 then pit_init dev hz w = None
   else \<exists>w' lo hi. pit_init dev hz w = Some w' \<and> outs PIT_CMD w' = outs PIT_CMD w @ [0x36] \<and>
     outs PIT_CH0_DATA w' = outs PIT_CH0_DATA w @ [lo, hi] \<and>
     unat lo + 256 * unat hi = 1193180 div unat hz mod 65536 \<and>
     (19 \<le> hz \<longrightarrow> unat lo + 256 * unat hi = 1193180 div unat hz)"
  by (rule pit_init_divisor)

theorem pit_init_programs_rate_witness:
  "\<exists>w' lo hi. pit_init pic_dev 100 [] = Some w' \<and> outs PIT_CH0_DATA w' = [lo, hi] \<and>
     unat lo + 256 * unat hi = 11931"
  using pit_init_programs_rate [of 100 pic_dev "[]"] by auto

end
