(* ===== verification/Keyboard.thy ===== *)
theory Keyboard
  imports Pic
begin

section \<open>The keyboard driver\<close>

text \<open>
  \<open>kernel/drivers/keyboard.cpp\<close>: scan codes come in through \<open>keyboard_irq_handler\<close>, which keeps the
  shift and caps-lock state, translates a key press by one of two tables and puts the character into
  a ring buffer of 256 cells; \<open>keyboard_getchar\<close> takes it out.  The ring buffer is shown to be a
  bounded queue of at most 255 characters, through an interface that any such buffer would satisfy.
\<close>

subsection \<open>Data\<close>

definition PS2_DATA :: u16 where [const_defs]: "PS2_DATA = 0x60"
definition KB_BUFSIZE :: u64 where [const_defs]: "KB_BUFSIZE = 256"

record kbd =
  kb_buf :: "char list"
  kb_head :: u64
  kb_tail :: u64
  shift_held :: bool
  caps_locked :: bool

definition kbd_boot :: kbd where
  "kbd_boot = \<lparr>kb_buf = replicate (unat KB_BUFSIZE) NUL, kb_head = 0, kb_tail = 0,
     shift_held = False, caps_locked = False\<rparr>"

definition sc_to_ascii :: "char list" where
  "sc_to_ascii =
     [NUL, NUL] @ ''1234567890-='' @ [CHR 0x08] @
     [CHR 0x09] @ ''qwertyuiop[]'' @ [CHR 0x0A] @
     [NUL] @ ''asdfghjkl;'' @ [CHR 0x27, CHR 0x60] @
     [NUL] @ [CHR 0x5C] @ ''zxcvbnm,./'' @ [NUL] @
     ''*'' @ [NUL] @ '' '' @ replicate 13 NUL @
     ''789-456+1230.'' @
     replicate 14 NUL @ replicate 14 NUL @ replicate 16 NUL"

definition sc_to_ascii_shift :: "char list" where
  "sc_to_ascii_shift =
     [NUL, NUL] @ ''!@#$%^&*()_+'' @ [CHR 0x08] @
     [CHR 0x09] @ ''QWERTYUIOP{}'' @ [CHR 0x0A] @
     [NUL] @ ''ASDFGHJKL:'' @ [CHR 0x22, CHR 0x7E] @
     [NUL] @ ''|ZXCVBNM<>?'' @ [NUL] @
     ''*'' @ [NUL] @ '' '' @ replicate 13 NUL @
     ''789-456+1230.'' @
     replicate 14 NUL @ replicate 14 NUL @ replicate 16 NUL"

lemma length_tables: "length sc_to_ascii = 128" "length sc_to_ascii_shift = 128"
  by (simp_all add: sc_to_ascii_def sc_to_ascii_shift_def)

subsection \<open>Operations\<close>

definition islower :: "char \<Rightarrow> bool" where
  "islower c \<longleftrightarrow> (of_char (CHR ''a'') :: nat) \<le> of_char c \<and> (of_char c :: nat) \<le> of_char (CHR ''z'')"

text \<open>The translation of a key press, lines 61 to 68 of the handler.\<close>

definition translate :: "kbd \<Rightarrow> u8 \<Rightarrow> char" where
  "translate k sc =
     (if sc < 128
      then let upper = (shift_held k \<noteq> caps_locked k) \<and> islower (sc_to_ascii ! unat sc)
           in if shift_held k then sc_to_ascii_shift ! unat sc
              else if upper then char_of (of_char (sc_to_ascii ! unat sc) - 32 :: nat)
              else sc_to_ascii ! unat sc
      else NUL)"

definition kb_put :: "char \<Rightarrow> kbd \<Rightarrow> kbd" where
  "kb_put c k =
     (let next = (kb_head k + 1) mod KB_BUFSIZE in
      if next \<noteq> kb_tail k
      then k\<lparr>kb_buf := (kb_buf k)[unat (kb_head k) := c], kb_head := next\<rparr>
      else k)"

definition kbd_scancode :: "u8 \<Rightarrow> kbd \<Rightarrow> kbd" where
  "kbd_scancode sc k =
     (if sc AND 0x80 \<noteq> 0
      then let base = sc AND 0x7F in
           if base = 0x2A \<or> base = 0x36 then k\<lparr>shift_held := False\<rparr> else k
      else if sc = 0x2A \<or> sc = 0x36 then k\<lparr>shift_held := True\<rparr>
      else if sc = 0x3A then k\<lparr>caps_locked := \<not> caps_locked k\<rparr>
      else if sc = 0x1D then k
      else if sc = 0x38 then k
      else let c = translate k sc in if c \<noteq> NUL then kb_put c k else k)"

definition keyboard_irq_handler :: "device \<Rightarrow> kbd \<times> io \<Rightarrow> kbd \<times> io" where
  "keyboard_irq_handler dev st =
     (let (k, w) = st; (sc, w) = inb dev PS2_DATA w in (kbd_scancode sc k, w))"

definition keyboard_init :: "device \<Rightarrow> io \<Rightarrow> io" where
  "keyboard_init dev w = pic_enable_irq dev 1 w"

definition keyboard_has_char :: "kbd \<Rightarrow> bool" where
  "keyboard_has_char k \<longleftrightarrow> kb_head k \<noteq> kb_tail k"

definition kb_take :: "kbd \<Rightarrow> char \<times> kbd" where
  "kb_take k = (kb_buf k ! unat (kb_tail k), k\<lparr>kb_tail := (kb_tail k + 1) mod KB_BUFSIZE\<rparr>)"

text \<open>
  \<open>keyboard_getchar\<close> tests the buffer and executes \<open>hlt\<close> in two instructions, and interrupts come at any time.  A
  \<open>pause\<close> is one round of its loop: the scan codes that arrive between the test and the \<open>hlt\<close>, the interrupt that
  ends the sleep (a scan code, or \<open>None\<close> for the timer), and the scan codes that arrive before the next test.
  After the pauses of the first argument no interrupt comes any more once the processor sleeps, but the scan codes
  \<open>lost\<close> still arrive between the last test and the last \<open>hlt\<close>.  The result is \<open>Inl\<close> with the keyboard state in
  which the processor sleeps for ever, or \<open>Inr\<close> with the character and the pauses that were not needed.
\<close>

type_synonym pause = "u8 list \<times> u8 option \<times> u8 list"

fun arrivals :: "pause \<Rightarrow> u8 list" where
  "arrivals (early, wake, late) = early @ (case wake of None \<Rightarrow> [] | Some sc \<Rightarrow> [sc]) @ late"

fun keyboard_getchar :: "pause list \<Rightarrow> u8 list \<Rightarrow> kbd \<Rightarrow> kbd + char \<times> pause list \<times> kbd" where
  "keyboard_getchar ps lost k =
     (if keyboard_has_char k then let (c, k) = kb_take k in Inr (c, ps, k)
      else case ps of
        [] \<Rightarrow> Inl (fold kbd_scancode lost k)
      | p # ps' \<Rightarrow> keyboard_getchar ps' lost (fold kbd_scancode (arrivals p) k))"

declare keyboard_getchar.simps [simp del]

definition keyboard_peekchar :: "kbd \<Rightarrow> char" where
  "keyboard_peekchar k = (if \<not> keyboard_has_char k then NUL else kb_buf k ! unat (kb_tail k))"

subsection \<open>The interface of a bounded queue\<close>

primrec deq_n :: "('q \<Rightarrow> 'a \<times> 'q) \<Rightarrow> nat \<Rightarrow> 'q \<Rightarrow> 'a list \<times> 'q" where
  "deq_n deq 0 q = ([], q)"
| "deq_n deq (Suc n) q = (let (x, q) = deq q; (xs, q) = deq_n deq n q in (x # xs, q))"

locale bounded_queue =
  fixes enq :: "'a \<Rightarrow> 'q \<Rightarrow> 'q" and deq :: "'q \<Rightarrow> 'a \<times> 'q"
    and items :: "'q \<Rightarrow> 'a list" and inv :: "'q \<Rightarrow> bool" and cap :: nat
  assumes items_bound: "inv q \<Longrightarrow> length (items q) \<le> cap"
    and enq_inv: "inv q \<Longrightarrow> inv (enq x q)"
    and enq_items: "inv q \<Longrightarrow> items (enq x q) = (if length (items q) < cap then items q @ [x] else items q)"
    and deq_inv: "inv q \<Longrightarrow> items q \<noteq> [] \<Longrightarrow> inv (snd (deq q))"
    and deq_items: "inv q \<Longrightarrow> items q \<noteq> [] \<Longrightarrow> items q = fst (deq q) # items (snd (deq q))"
begin

lemma enq_list:
  "inv q \<Longrightarrow> inv (fold enq xs q) \<and> items (fold enq xs q) = take cap (items q @ xs)"
proof (induction xs arbitrary: q)
  case Nil
  then show ?case using items_bound by simp
next
  case (Cons x xs)
  then show ?case using enq_inv [of q x] enq_items [of q x] items_bound [of q]
    by (auto simp: take_Cons')
qed

lemma deq_list:
  "inv q \<Longrightarrow> n \<le> length (items q) \<Longrightarrow>
     fst (deq_n deq n q) = take n (items q) \<and> items (snd (deq_n deq n q)) = drop n (items q) \<and>
     inv (snd (deq_n deq n q))"
proof (induction n arbitrary: q)
  case (Suc n)
  then have ne: "items q \<noteq> []" by auto
  note d = deq_items [OF Suc.prems(1) ne]
  have "n \<le> length (items (snd (deq q)))" using d Suc.prems(2) by (metis Suc_le_mono length_Cons)
  note IH = Suc.IH [OF deq_inv [OF Suc.prems(1) ne] this]
  obtain x r where xr: "deq q = (x, r)" by fastforce
  obtain xs r' where r: "deq_n deq n r = (xs, r')" by fastforce
  show ?case using IH d xr r by simp
qed simp

lemma fifo:
  assumes "inv q" "length (items q) + length xs \<le> cap"
  shows "fst (deq_n deq (length (items q) + length xs) (fold enq xs q)) = items q @ xs"
  using enq_list [OF assms(1), of xs] deq_list [of "fold enq xs q" "length (items q) + length xs"] assms(2)
  by simp

end

subsection \<open>The ring buffer is a bounded queue\<close>

definition kbd_inv :: "kbd \<Rightarrow> bool" where
  [inv_defs]: "kbd_inv k \<longleftrightarrow> length (kb_buf k) = 256 \<and> unat (kb_head k) < 256 \<and> unat (kb_tail k) < 256"

definition kb_count :: "kbd \<Rightarrow> nat" where
  "kb_count k = (unat (kb_head k) + 256 - unat (kb_tail k)) mod 256"

definition kb_items :: "kbd \<Rightarrow> char list" where
  "kb_items k = map (\<lambda>i. kb_buf k ! ((unat (kb_tail k) + i) mod 256)) [0..<kb_count k]"

lemma unat_inc: "unat (i :: u64) < 256 \<Longrightarrow> unat ((i + 1) mod 256) = (unat i + 1) mod 256"
  by (simp add: unat_mod unat_add_lt)

lemma ring_index: "a < 512 \<Longrightarrow> a mod 256 = (if a < 256 then a else a - 256)" for a :: nat
  by (simp add: le_mod_geq)

lemma kb_count_eq:
  "kbd_inv k \<Longrightarrow> kb_count k = (if unat (kb_tail k) \<le> unat (kb_head k)
     then unat (kb_head k) - unat (kb_tail k) else 256 + unat (kb_head k) - unat (kb_tail k))"
  by (auto simp: kb_count_def inv_defs le_mod_geq)

lemma has_char_iff: "kbd_inv k \<Longrightarrow> keyboard_has_char k \<longleftrightarrow> kb_items k \<noteq> []"
  by (auto simp: keyboard_has_char_def kb_items_def kb_count_eq inv_defs word_unat_eq_iff split: if_splits)

lemma kb_take_items:
  assumes "kbd_inv k" "kb_items k \<noteq> []"
  shows "kbd_inv (snd (kb_take k)) \<and> kb_items k = fst (kb_take k) # kb_items (snd (kb_take k))"
proof -
  let ?t = "unat (kb_tail k)" and ?k = "snd (kb_take k)"
  have b: "?t < 256" "unat (kb_head k) < 256" using assms(1) by (simp_all add: inv_defs)
  have t': "unat (kb_tail ?k) = (?t + 1) mod 256" "kb_head ?k = kb_head k" "kb_buf ?k = kb_buf k"
    using unat_inc [OF b(1)] by (simp_all add: kb_take_def const_defs)
  then have inv: "kbd_inv ?k" using assms(1) by (simp add: inv_defs)
  have c: "0 < kb_count k" using assms(2) by (simp add: kb_items_def)
  then have cnt: "kb_count k = Suc (kb_count ?k)"
    using kb_count_eq [OF assms(1)] kb_count_eq [OF inv] t' b by (auto simp: mod_Suc split: if_splits)
  have "map (\<lambda>i. kb_buf k ! ((?t + i) mod 256)) [0..<Suc (kb_count ?k)] =
    kb_buf k ! ?t # map (\<lambda>i. kb_buf k ! ((?t + Suc i) mod 256)) [0..<kb_count ?k]"
    using b by (simp add: upt_conv_Cons map_Suc_upt [symmetric] del: upt_Suc)
  moreover have "(?t + Suc i) mod 256 = (unat (kb_tail ?k) + i) mod 256" for i
    by (simp add: t' mod_simps)
  ultimately have "kb_items k = kb_buf k ! ?t # kb_items ?k" by (simp add: kb_items_def cnt t'(3) del: upt_Suc)
  with inv show ?thesis by (simp add: kb_take_def)
qed

lemma kb_put_items:
  assumes "kbd_inv k"
  shows "kbd_inv (kb_put c k) \<and>
    kb_items (kb_put c k) = (if length (kb_items k) < 255 then kb_items k @ [c] else kb_items k)"
proof -
  let ?h = "unat (kb_head k)" and ?t = "unat (kb_tail k)"
  have b: "?t < 256" "?h < 256" "length (kb_buf k) = 256" using assms(1) by (simp_all add: inv_defs)
  note cnt = kb_count_eq [OF assms]
  have full: "(kb_head k + 1) mod KB_BUFSIZE = kb_tail k \<longleftrightarrow> \<not> kb_count k < 255"
    using b unat_inc [OF b(2)] cnt by (auto simp: word_unat_eq_iff const_defs mod_Suc split: if_splits)
  show ?thesis
  proof (cases "kb_count k < 255")
    case True
    let ?k = "kb_put c k"
    have k: "?k = k\<lparr>kb_buf := (kb_buf k)[?h := c], kb_head := (kb_head k + 1) mod 256\<rparr>"
      using True full by (simp add: kb_put_def const_defs Let_def)
    have h': "unat (kb_head ?k) = (?h + 1) mod 256" "kb_tail ?k = kb_tail k" using k unat_inc [OF b(2)] by simp_all
    then have inv: "kbd_inv ?k" using assms k by (simp add: inv_defs)
    have c': "kb_count ?k = Suc (kb_count k)"
      using kb_count_eq [OF inv] cnt h' b True by (auto simp: mod_Suc split: if_splits)
    have last: "(?t + kb_count k) mod 256 = ?h"
      using ring_index [of "?t + kb_count k"] cnt b True by (simp split: if_splits)
    have other: "(?t + i) mod 256 \<noteq> ?h" if "i < kb_count k" for i
      using ring_index [of "?t + i"] cnt b that True by (simp split: if_splits)
    have "map (\<lambda>i. kb_buf ?k ! ((?t + i) mod 256)) [0..<kb_count k] = kb_items k"
      unfolding kb_items_def using other [THEN not_sym] k by (intro map_cong) auto
    then have "kb_items ?k = kb_items k @ [c]"
      unfolding kb_items_def [of ?k] c' using last b k h'(2) by simp
    with inv True show ?thesis by (simp add: kb_items_def)
  next
    case False
    then show ?thesis using full assms by (simp add: kb_put_def Let_def kb_items_def)
  qed
qed

interpretation ring: bounded_queue kb_put kb_take kb_items kbd_inv 255
proof
  fix q :: kbd and x
  assume inv: "kbd_inv q"
  show "length (kb_items q) \<le> 255" using kb_count_eq [OF inv] inv by (auto simp: kb_items_def inv_defs)
  show "kbd_inv (kb_put x q)"
    "kb_items (kb_put x q) = (if length (kb_items q) < 255 then kb_items q @ [x] else kb_items q)"
    using kb_put_items [OF inv, of x] by simp_all
  show "kbd_inv (snd (kb_take q))" "kb_items q = fst (kb_take q) # kb_items (snd (kb_take q))"
    if "kb_items q \<noteq> []" using kb_take_items [OF inv that] by simp_all
qed

subsection \<open>What a key press means\<close>

text \<open>
  The specification of the translation: a letter comes out in upper case when shift is held or caps
  lock is on, any other key by the table of the shift state.
\<close>

definition toupper :: "char \<Rightarrow> char" where
  "toupper c = char_of (of_char c - 32 :: nat)"

definition key_char :: "bool \<Rightarrow> bool \<Rightarrow> u8 \<Rightarrow> char" where
  "key_char shift caps sc =
     (if islower (sc_to_ascii ! unat sc)
      then (if shift \<or> caps then toupper (sc_to_ascii ! unat sc) else sc_to_ascii ! unat sc)
      else if shift then sc_to_ascii_shift ! unat sc else sc_to_ascii ! unat sc)"

lemma tables_agree:
  assumes "i < 128" "islower (sc_to_ascii ! i)"
  shows "sc_to_ascii_shift ! i = toupper (sc_to_ascii ! i)"
proof -
  have "list_all2 (\<lambda>a b. islower a \<longrightarrow> (of_char b :: nat) = of_char a - 32) sc_to_ascii sc_to_ascii_shift"
    by (simp add: sc_to_ascii_def sc_to_ascii_shift_def islower_def) (simp add: list_all2_same)
  then have "(of_char (sc_to_ascii_shift ! i) :: nat) = of_char (sc_to_ascii ! i) - 32"
    using assms by (auto simp: list_all2_conv_all_nth length_tables)
  then have "char_of (of_char (sc_to_ascii_shift ! i) :: nat) = toupper (sc_to_ascii ! i)"
    unfolding toupper_def by (rule arg_cong)
  then show ?thesis by simp
qed

lemma translate_key_char:
  assumes "sc < 128"
  shows "translate k sc = key_char (shift_held k) (caps_locked k) sc"
proof -
  have "unat sc < 128" using assms by (simp add: word_less_nat_alt)
  then show ?thesis
    using tables_agree [of "unat sc"] assms by (auto simp: translate_def key_char_def toupper_def Let_def)
qed

text \<open>Shift state, caps state and the characters typed, scan code by scan code.\<close>

definition released :: "u8 \<Rightarrow> bool" where
  "released sc \<longleftrightarrow> sc AND 0x80 \<noteq> 0"

definition is_shift :: "u8 \<Rightarrow> bool" where
  "is_shift sc \<longleftrightarrow> sc AND 0x7F = 0x2A \<or> sc AND 0x7F = 0x36"

definition shift_next :: "u8 \<Rightarrow> bool \<Rightarrow> bool" where
  "shift_next sc sh = (if is_shift sc then \<not> released sc else sh)"

definition caps_next :: "u8 \<Rightarrow> bool \<Rightarrow> bool" where
  "caps_next sc ca = (if sc = 0x3A then \<not> ca else ca)"

definition key_out :: "bool \<Rightarrow> bool \<Rightarrow> u8 \<Rightarrow> string" where
  "key_out sh ca sc =
     (if released sc \<or> is_shift sc \<or> sc \<in> {0x3A, 0x1D, 0x38} \<or> key_char sh ca sc = NUL then []
      else [key_char sh ca sc])"

fun typed :: "bool \<Rightarrow> bool \<Rightarrow> u8 list \<Rightarrow> string" where
  "typed sh ca [] = []"
| "typed sh ca (sc # scs) = key_out sh ca sc @ typed (shift_next sc sh) (caps_next sc ca) scs"

lemma pressed_lt: "\<not> released sc \<Longrightarrow> sc < 128 \<and> sc AND 0x7F = sc"
proof -
  assume a: "\<not> released sc"
  have b: "\<not> bit sc 7"
  proof
    assume "bit sc 7"
    then have "bit (sc AND 0x80) 7" by (simp add: bit_and_iff)
    with a show False by (simp add: released_def)
  qed
  have m: "(0x7F :: u8) = mask 7" by (simp add: mask_eq_exp_minus_1)
  have "sc AND 0x7F = sc"
    unfolding m
  proof (rule bit_word_eqI)
    fix n assume "n < LENGTH(8)"
    then show "bit (sc AND mask 7) n = bit sc n"
      using b by (cases "n = 7") (auto simp: bit_and_iff bit_mask_iff)
  qed
  moreover from this have "sc = take_bit 7 sc" by (simp add: m take_bit_eq_mask)
  then have "unat sc < 2 ^ 7" by (metis take_bit_nat_less_exp unsigned_take_bit_eq)
  ultimately show ?thesis by (simp add: word_less_nat_alt)
qed

lemma scancode_step:
  "shift_held (kbd_scancode sc k) = shift_next sc (shift_held k)"
  "caps_locked (kbd_scancode sc k) = caps_next sc (caps_locked k)"
  "kbd_inv k \<Longrightarrow> kbd_inv (kbd_scancode sc k)"
  "kbd_inv k \<Longrightarrow> kb_items (kbd_scancode sc k) = take 255 (kb_items k @ key_out (shift_held k) (caps_locked k) sc)"
proof -
  have fields: "shift_held (kb_put c k) = shift_held k" "caps_locked (kb_put c k) = caps_locked k" for c
    by (simp_all add: kb_put_def Let_def)
  have r: "\<not> released 0x3A" by (simp add: released_def)
  note e = kbd_scancode_def Let_def released_def [symmetric] is_shift_def [symmetric] shift_next_def
    caps_next_def key_out_def
  have p: "sc = 0x2A \<or> sc = 0x36 \<longleftrightarrow> is_shift sc" "translate k sc = key_char (shift_held k) (caps_locked k) sc"
    if "\<not> released sc" using pressed_lt [OF that] translate_key_char by (simp_all add: is_shift_def)
  have s: "\<not> is_shift 0x3A" by (simp add: is_shift_def)
  show "shift_held (kbd_scancode sc k) = shift_next sc (shift_held k)"
    "caps_locked (kbd_scancode sc k) = caps_next sc (caps_locked k)"
    using r s p by (auto simp: e fields)
  have items: "kb_items (k\<lparr>shift_held := x\<rparr>) = kb_items k" "kb_items (k\<lparr>caps_locked := x\<rparr>) = kb_items k"
    "kbd_inv (k\<lparr>shift_held := x\<rparr>) = kbd_inv k" "kbd_inv (k\<lparr>caps_locked := x\<rparr>) = kbd_inv k" for x
    by (simp_all add: kb_items_def kb_count_def inv_defs)
  assume inv: "kbd_inv k"
  note put = kb_put_items [OF inv]
  have l: "length (kb_items k) \<le> 255" using ring.items_bound [OF inv] .
  show "kbd_inv (kbd_scancode sc k)" using put inv by (simp add: kbd_scancode_def Let_def items)
  show "kb_items (kbd_scancode sc k) = take 255 (kb_items k @ key_out (shift_held k) (caps_locked k) sc)"
    using l put p s by (auto simp: e items)
qed

lemma scancodes_run:
  "kbd_inv k \<Longrightarrow> kbd_inv (fold kbd_scancode scs k) \<and>
     kb_items (fold kbd_scancode scs k) = take 255 (kb_items k @ typed (shift_held k) (caps_locked k) scs)"
proof (induction scs arbitrary: k)
  case Nil
  then show ?case using ring.items_bound by simp
next
  case (Cons sc scs)
  note st = scancode_step [where sc = sc and k = k]
  from Cons.IH [OF st(3) [OF Cons.prems]] show ?case
    using st(1,2) st(4) [OF Cons.prems] by (auto simp: min_def)
qed

lemma typed_append:
  "typed sh ca (xs @ ys) = typed sh ca xs @ typed (fold shift_next xs sh) (fold caps_next xs ca) ys"
  by (induction xs arbitrary: sh ca) simp_all

lemma modifiers_run:
  "shift_held (fold kbd_scancode scs k) = fold shift_next scs (shift_held k)"
  "caps_locked (fold kbd_scancode scs k) = fold caps_next scs (caps_locked k)"
  by (induction scs arbitrary: k) (simp_all add: scancode_step)

lemma getchar_ready:
  assumes "kbd_inv k" "kb_items k = c # cs"
  shows "keyboard_getchar ps lost k = Inr (c, ps, snd (kb_take k))"
  using assms kb_take_items [OF assms(1)] has_char_iff [OF assms(1)]
  by (simp add: keyboard_getchar.simps [of ps] split_beta)

subsection \<open>Properties\<close>

lemma kbd_inv_boot: "kbd_inv kbd_boot" "kb_items kbd_boot = []"
  by (simp_all add: inv_defs kbd_boot_def const_defs kb_items_def kb_count_def)

text \<open>
  Claim C17. Whatever scan codes arrive, the buffer holds the characters typed, in order, cut to its
  capacity of 255: letters are in upper case when shift is held or caps lock is on, other keys follow
  the shift table, releases and modifier keys give nothing; taking characters out returns them first
  in, first out.
\<close>

theorem keyboard_fifo:
  assumes "kbd_inv k"
  shows "let k' = fold kbd_scancode scs k;
      q = take 255 (kb_items k @ typed (shift_held k) (caps_locked k) scs) in
    kbd_inv k' \<and> kb_items k' = q \<and>
    (\<forall>n \<le> length q. fst (deq_n kb_take n k') = take n q \<and> kb_items (snd (deq_n kb_take n k')) = drop n q)"
  using scancodes_run [OF assms, of scs] ring.deq_list [of "fold kbd_scancode scs k"]
  by (simp add: Let_def)

theorem keyboard_fifo_witness:
  "kbd_inv kbd_boot \<and>
   fst (deq_n kb_take 2 (fold kbd_scancode [0x2A, 0x23, 0xA3, 0xAA, 0x17, 0x97] kbd_boot)) = ''Hi''"
proof -
  have t: "typed False False [0x2A, 0x23, 0xA3, 0xAA, 0x17, 0x97] = ''Hi''"
    by (simp add: key_out_def key_char_def released_def is_shift_def shift_next_def caps_next_def
        sc_to_ascii_def sc_to_ascii_shift_def islower_def toupper_def char_of_def bit_0)
  have f: "shift_held kbd_boot = False" "caps_locked kbd_boot = False" by (simp_all add: kbd_boot_def)
  define k' where "k' = fold kbd_scancode [0x2A, 0x23, 0xA3, 0xAA, 0x17, 0x97] kbd_boot"
  have "\<forall>n \<le> 2. fst (deq_n kb_take n k') = take n ''Hi''"
    using keyboard_fifo [OF kbd_inv_boot(1), of "[0x2A, 0x23, 0xA3, 0xAA, 0x17, 0x97]", folded k'_def]
    unfolding f t kbd_inv_boot(2) Let_def by simp
  then show ?thesis using kbd_inv_boot(1) unfolding k'_def [symmetric] by simp
qed

definition getchar_ok :: "(u8 list \<Rightarrow> string) \<Rightarrow> pause list \<Rightarrow> u8 list \<Rightarrow> kbd + char \<times> pause list \<times> kbd \<Rightarrow> bool" where
  "getchar_ok t ps lost r \<longleftrightarrow> (case t (concat (map arrivals ps)) of
      [] \<Rightarrow> \<exists>k'. r = Inl k' \<and> kbd_inv k' \<and> kb_items k' = take 255 (t (concat (map arrivals ps) @ lost))
    | c # _ \<Rightarrow> \<exists>n k'. r = Inr (c, drop n ps, k') \<and> kbd_inv k' \<and>
        (\<forall>i < n. t (concat (map arrivals (take i ps))) = []) \<and>
        c # kb_items k' = take 255 (t (concat (map arrivals (take n ps)))))"

lemma getchar_ok_skip:
  assumes "getchar_ok (\<lambda>scs. t (arrivals p @ scs)) ps lost r" "t [] = []"
  shows "getchar_ok t (p # ps) lost r"
proof (cases "t (arrivals p @ concat (map arrivals ps))")
  case Nil
  then show ?thesis using assms by (simp add: getchar_ok_def)
next
  case (Cons c q)
  then obtain n k' where n: "r = Inr (c, drop n ps, k')" "kbd_inv k'"
    "\<forall>i < n. t (arrivals p @ concat (map arrivals (take i ps))) = []"
    "c # kb_items k' = take 255 (t (arrivals p @ concat (map arrivals (take n ps))))"
    using assms(1) by (auto simp: getchar_ok_def)
  then have "\<forall>i < Suc n. t (concat (map arrivals (take i (p # ps)))) = []" using assms(2) by (auto simp: less_Suc_eq_0_disj)
  then show ?thesis using n Cons by (auto simp: getchar_ok_def intro!: exI [of _ "Suc n"])
qed

lemma getchar_ok_now:
  assumes "kbd_inv k" "kb_items k = c # cs"
  shows "getchar_ok (\<lambda>scs. kb_items k @ typed (shift_held k) (caps_locked k) scs) ps lost (keyboard_getchar ps lost k)"
  using getchar_ready [OF assms] kb_take_items [OF assms(1)] ring.items_bound [OF assms(1)] assms(2)
  by (auto simp: getchar_ok_def intro!: exI [of _ 0])

lemma getchar_runs:
  "kbd_inv k \<Longrightarrow> getchar_ok (\<lambda>scs. kb_items k @ typed (shift_held k) (caps_locked k) scs) ps lost (keyboard_getchar ps lost k)"
proof (induction ps arbitrary: k)
  case Nil
  show ?case
  proof (cases "kb_items k")
    case empty: Nil
    then have "keyboard_getchar [] lost k = Inl (fold kbd_scancode lost k)"
      using has_char_iff [OF Nil.prems] by (simp add: keyboard_getchar.simps)
    then show ?thesis using scancodes_run [OF Nil.prems, of lost] empty by (simp add: getchar_ok_def)
  qed (rule getchar_ok_now [OF Nil.prems])
next
  case (Cons p ps)
  show ?case
  proof (cases "kb_items k")
    case empty: Nil
    let ?k = "fold kbd_scancode (arrivals p) k" and ?t = "typed (shift_held k) (caps_locked k)"
    have run: "kbd_inv ?k" "kb_items ?k = take 255 (?t (arrivals p))"
      using scancodes_run [OF Cons.prems, of "arrivals p"] empty by simp_all
    have g: "keyboard_getchar (p # ps) lost k = keyboard_getchar ps lost ?k"
      using empty has_char_iff [OF Cons.prems] by (subst keyboard_getchar.simps) simp
    show ?thesis
    proof (cases "?t (arrivals p)")
      case Nil
      then have "(\<lambda>scs. kb_items ?k @ typed (shift_held ?k) (caps_locked ?k) scs) = (\<lambda>scs. ?t (arrivals p @ scs))"
        using run(2) by (simp add: typed_append modifiers_run)
      with Cons.IH [OF run(1)] show ?thesis unfolding g empty append_Nil by (intro getchar_ok_skip) simp_all
    next
      case (Cons c q)
      then have i: "kb_items ?k = c # take 254 q" using run(2) by simp
      have "?t (arrivals p @ xs) = c # q @ typed (fold shift_next (arrivals p) (shift_held k)) (fold caps_next (arrivals p) (caps_locked k)) xs" for xs
        using Cons by (simp add: typed_append)
      then show ?thesis
        unfolding g getchar_ready [OF run(1) i] using kb_take_items [OF run(1)] i Cons empty
        by (auto simp: getchar_ok_def intro!: exI [of _ 1])
    qed
  qed (rule getchar_ok_now [OF Cons.prems])
qed

text \<open>
  Claim C35. \<open>keyboard_getchar\<close> returns the first character that is in the buffer or, when it is empty, the first
  that the scan codes type up to one of its tests, at the earliest such test, and leaves the characters typed after it in
  the buffer.  A wake-up without a character, by the timer or by a key that types nothing, makes it test again.
  When no test finds a character it sleeps for ever; this does not mean that nothing was typed: as
  the test and the \<open>hlt\<close> are two instructions, what the scan codes type in between stays in the buffer until
  another interrupt ends the sleep (a lost wake-up, when none comes).  The characters are those of \<open>typed\<close>, which
  include the tab, against the comment of \<open>keyboard.hpp\<close> (\<open>keyboard_getchar_tab\<close>).
\<close>

theorem keyboard_getchar_returns:
  assumes "kbd_inv k"
  shows "let typed_in = (\<lambda>scs. kb_items k @ typed (shift_held k) (caps_locked k) scs) in
    case typed_in (concat (map arrivals ps)) of
      [] \<Rightarrow> \<exists>k'. keyboard_getchar ps lost k = Inl k' \<and> kbd_inv k' \<and>
        kb_items k' = take 255 (typed_in (concat (map arrivals ps) @ lost))
    | c # _ \<Rightarrow> \<exists>n k'. keyboard_getchar ps lost k = Inr (c, drop n ps, k') \<and> kbd_inv k' \<and>
        (\<forall>i < n. typed_in (concat (map arrivals (take i ps))) = []) \<and>
        c # kb_items k' = take 255 (typed_in (concat (map arrivals (take n ps))))"
  using getchar_runs [OF assms] unfolding getchar_ok_def Let_def .

theorem keyboard_getchar_returns_witness:
  "(\<exists>ps k'. keyboard_getchar [([], None, []), ([], Some 0x1E, [])] [] kbd_boot = Inr (CHR ''a'', ps, k')) \<and>
   (\<exists>k'. keyboard_getchar [([], None, [])] [0x1E] kbd_boot = Inl k' \<and> kb_items k' = ''a'')"
proof -
  have "typed False False [0x1E] = ''a''"
    by (simp add: key_out_def key_char_def released_def is_shift_def shift_next_def caps_next_def
        sc_to_ascii_def islower_def)
  then show ?thesis
    using keyboard_getchar_returns [OF kbd_inv_boot(1), of "[([], None, []), ([], Some 0x1E, [])]" "[]"]
      keyboard_getchar_returns [OF kbd_inv_boot(1), of "[([], None, [])]" "[0x1E]"] kbd_inv_boot
    by (auto simp: kbd_boot_def Let_def)
qed

text \<open>The tab key gives a tab character.\<close>

lemma keyboard_getchar_tab:
  "\<exists>k'. keyboard_getchar [([], Some 0x0F, [])] lost kbd_boot = Inr (CHR 0x09, [], k')"
proof -
  have "typed False False [0x0F] = [CHR 0x09]"
    by (simp add: key_out_def key_char_def released_def is_shift_def shift_next_def caps_next_def
        sc_to_ascii_def islower_def)
  then have "kb_items (kbd_scancode 0x0F kbd_boot) = [CHR 0x09]" "kbd_inv (kbd_scancode 0x0F kbd_boot)"
    using scancodes_run [OF kbd_inv_boot(1), of "[0x0F]"] kbd_inv_boot(2) by (simp_all add: kbd_boot_def)
  from getchar_ready [OF this(2,1)] show ?thesis
    using has_char_iff [OF kbd_inv_boot(1)] kbd_inv_boot(2) by (subst keyboard_getchar.simps) simp
qed

text \<open>
  With shift held caps lock has no effect: the exclusive-or of the two in the handler is only looked
  at when shift is up, so shift and caps lock together give upper-case letters.
\<close>

lemma keyboard_shift_hides_caps:
  assumes "sc < 128" "shift_held k" "islower (sc_to_ascii ! unat sc)"
  shows "translate (k\<lparr>caps_locked := b\<rparr>) sc = toupper (sc_to_ascii ! unat sc)"
  using assms by (simp add: translate_key_char key_char_def)

end
