(* ===== verification/Irq.thy ===== *)
theory Irq
  imports Sched_Correct Pic Keyboard
begin

section \<open>Hardware interrupts\<close>

text \<open>
  \<open>irq_stub_0\<close> and \<open>irq_stub_1\<close> of \<open>kernel/arch/x86_64/isr_stubs.asm\<close> with everything they call, on the state of
  the drivers, the scheduler, the heap memory and the processor.  Each \<open>call\<close> of the stubs pushes the address behind
  it; these addresses, which the linker fixes, are the record \<open>return_addrs\<close>.  Its last field is the return address
  of the call of \<open>context_switch\<close> inside \<open>sched_tick\<close>: a switch to a task that was suspended there returns from
  \<open>sched_tick\<close> and goes on with the rest of the stub, a switch to a new task goes to its entry function.  The
  stack frames of the C functions themselves, which the compiler lays out below these return addresses, are not
  modelled.  The background task of \<open>kernel_main.cpp\<close> is the only other task; its loop counter is the state of
  \<open>background_ticker_task\<close>.
\<close>

record return_addrs =
  ra_pit :: u64
  ra_eoi0 :: u64
  ra_tick :: u64
  ra_kbd :: u64
  ra_eoi1 :: u64
  ra_switch :: u64

record irqs =
  q_pit :: pit
  q_io :: io
  q_kbd :: kbd
  q_sched :: sched
  q_heap :: heap
  q_cpu :: cpu

definition set_machine :: "mstate \<Rightarrow> irqs \<Rightarrow> irqs" where
  "set_machine st q = (let (c, m) = st in q\<lparr>q_cpu := c, q_heap := (q_heap q)\<lparr>hmem := m\<rparr>\<rparr>)"

definition machine :: "irqs \<Rightarrow> mstate" where
  "machine q = (q_cpu q, hmem (q_heap q))"

definition load_rdi :: "u64 \<Rightarrow> mstate \<Rightarrow> mstate" where
  "load_rdi v st = (let (c, m) = st in (c\<lparr>regs := (regs c)(RDI := v)\<rparr>, m))"

text \<open>
  What happens when the call of \<open>sched_tick\<close> in the timer stub has come to an instruction behind a call of
  \<open>context_switch\<close>, or to the entry of a new task.
\<close>

definition after_tick :: "return_addrs \<Rightarrow> mstate \<Rightarrow> mstate" where
  "after_tick ra st =
     (if rip (fst st) = ra_switch ra
      then let st = ret st in if rip (fst st) = ra_tick ra then iretq (restore_regs st) else st
      else st)"

definition irq_stub_0 :: "return_addrs \<Rightarrow> irqs \<Rightarrow> irqs" where
  "irq_stub_0 ra q =
     (let st = save_regs (machine q);
          st = call_return (ra_pit ra) st;
          q = q\<lparr>q_pit := pit_tick_handler (q_pit q)\<rparr>;
          st = load_rdi 0 st;
          st = call_return (ra_eoi0 ra) st;
          q = q\<lparr>q_io := pic_send_eoi 0 (q_io q)\<rparr>;
          (c, m) = push (ra_tick ra) st;
          (s, st) = sched_tick (q_sched q, c\<lparr>rip := ra_switch ra\<rparr>, m);
          q = q\<lparr>q_sched := s\<rparr>
      in set_machine (after_tick ra st) q)"

definition irq_stub_1 :: "device \<Rightarrow> return_addrs \<Rightarrow> irqs \<Rightarrow> irqs" where
  "irq_stub_1 dev ra q =
     (let st = save_regs (machine q);
          st = call_return (ra_kbd ra) st;
          (k, w) = keyboard_irq_handler dev (q_kbd q, q_io q);
          st = load_rdi 1 st;
          st = call_return (ra_eoi1 ra) st;
          w = pic_send_eoi 1 w
      in set_machine (iretq (restore_regs st)) (q\<lparr>q_kbd := k, q_io := w\<rparr>))"

text \<open>An interrupt as a whole: the processor enters the stub, whose address is in the gate.\<close>

definition timer_irq :: "u64 \<Rightarrow> return_addrs \<Rightarrow> irqs \<Rightarrow> irqs" where
  "timer_irq stub ra q = irq_stub_0 ra (set_machine (irq_entry stub (machine q)) q)"

definition keyboard_irq :: "device \<Rightarrow> u64 \<Rightarrow> return_addrs \<Rightarrow> irqs \<Rightarrow> irqs" where
  "keyboard_irq dev stub ra q = irq_stub_1 dev ra (set_machine (irq_entry stub (machine q)) q)"

lemma machine_set [simp]: "machine (set_machine st q) = st"
  by (cases st) (simp add: set_machine_def machine_def)

lemma set_machine_fields [simp]:
  "q_pit (set_machine st q) = q_pit q" "q_io (set_machine st q) = q_io q" "q_kbd (set_machine st q) = q_kbd q"
  "q_sched (set_machine st q) = q_sched q" "s_head (q_heap (set_machine st q)) = s_head (q_heap q)"
  "q_cpu (set_machine st q) = fst st" "hmem (q_heap (set_machine st q)) = snd st"
  by (simp_all add: set_machine_def split: prod.splits)

lemma set_machine_upd [simp]:
  "set_machine st (set_machine st' q) = set_machine st q"
  "(set_machine st q)\<lparr>q_pit := a\<rparr> = set_machine st (q\<lparr>q_pit := a\<rparr>)"
  "(set_machine st q)\<lparr>q_io := b\<rparr> = set_machine st (q\<lparr>q_io := b\<rparr>)"
  "(set_machine st q)\<lparr>q_kbd := k\<rparr> = set_machine st (q\<lparr>q_kbd := k\<rparr>)"
  "(set_machine st q)\<lparr>q_sched := s\<rparr> = set_machine st (q\<lparr>q_sched := s\<rparr>)"
  by (simp_all add: set_machine_def split: prod.splits)

lemma set_machine_cpu: "set_machine (q_cpu q, m) q = q\<lparr>q_heap := (q_heap q)\<lparr>hmem := m\<rparr>\<rparr>"
  by (simp add: set_machine_def)

lemma load_rdi_simps [simp]: "snd (load_rdi v st) = snd st" "rsp (fst (load_rdi v st)) = rsp (fst st)"
  "rflags (fst (load_rdi v st)) = rflags (fst st)"
  by (simp_all add: load_rdi_def split: prod.splits)

subsection \<open>Handlers that come back\<close>

text \<open>
  What the stubs rely on when their calls come back: the stack pointer is the one from before, and no
  memory has been written but the word below it, where the return addresses were.
\<close>

locale returning_handler =
  fixes body :: "mstate \<Rightarrow> mstate"
  assumes keeps_sp: "rsp (fst (body st)) = rsp (fst st)"
    and keeps_frame: "x \<notin> span (rsp (fst st) - 8) 8 \<Longrightarrow> snd (body st) x = snd st x"
begin

lemma resumes:
  "\<exists>m'. irq_stub body (irq_entry h (c, m)) = (c, m') \<and> (\<forall>x. x \<notin> span (irq_frame_base c - 8) 168 \<longrightarrow> m' x = m x)"
proof -
  let ?b = "irq_frame_base c"
  obtain c2 m2 where s: "save_regs (irq_entry h (c, m)) = (c2, m2)" "rsp c2 = ?b"
    "\<And>x. x \<notin> span ?b 160 \<Longrightarrow> m2 x = m x" by (rule irq_entry_saves [of h c m]) blast
  have k: "snd (body (c2, m2)) x = m2 x" if "x \<notin> span (?b - 8) 8" for x using keeps_frame [of x "(c2, m2)"] that s(2) by simp
  have dj: "span (?b - 8) 8 \<inter> span ?b 160 = {}" using span_offsets_disjoint [of 0 8 8 160 "?b - 8"] by simp
  have "irq_stub body (irq_entry h (c, m)) = (c, snd (body (c2, m2)))"
    by (rule irq_stub_transparent [OF s(1)]) (use keeps_sp k dj s(2) in auto)
  moreover have "snd (body (c2, m2)) x = m x" if "x \<notin> span (?b - 8) 168" for x
  proof -
    have "x \<notin> span (?b - 8) 8" "x \<notin> span ?b 160"
      using that span_mono [of 8 168 "?b - 8"] span_offset [of 8 160 168 "?b - 8"] by auto
    then show ?thesis using k s(3) by simp
  qed
  ultimately show ?thesis by blast
qed

end

lemma call_return_eq: "call_return a (c, m) = (c\<lparr>rip := a\<rparr>, store64 m (rsp c - 8) a)"
  by (simp add: call_return_def push_def ret_def pop_def)

lemma call_return_simps [simp]:
  "rsp (fst (call_return a st)) = rsp (fst st)" "rflags (fst (call_return a st)) = rflags (fst st)"
  "x \<notin> span (rsp (fst st) - 8) 8 \<Longrightarrow> snd (call_return a st) x = snd st x"
  by (cases st; simp add: call_return_eq store_other)+

lemma ret_push_rip: "ret (c\<lparr>rip := a\<rparr>, m) = ret (c, m)"
  by (simp add: ret_def pop_def)

interpretation key: returning_handler "\<lambda>st. call_return b (load_rdi 1 (call_return a st))"
  by unfold_locales simp_all

interpretation slice: returning_handler "\<lambda>st. call_return d (call_return b (load_rdi 0 (call_return a st)))"
  by unfold_locales simp_all

lemma keyboard_irq_spec:
  "\<exists>m'. keyboard_irq dev stub ra q = q\<lparr>q_kbd := kbd_scancode (dev (q_io q) PS2_DATA) (q_kbd q),
      q_io := pic_send_eoi 1 (q_io q @ [In PS2_DATA (dev (q_io q) PS2_DATA)]), q_heap := (q_heap q)\<lparr>hmem := m'\<rparr>\<rparr> \<and>
    (\<forall>x. x \<notin> span (irq_frame_base (q_cpu q) - 8) 168 \<longrightarrow> m' x = hmem (q_heap q) x)"
proof -
  let ?body = "\<lambda>st. call_return (ra_eoi1 ra) (load_rdi 1 (call_return (ra_kbd ra) st))"
  obtain m' where m': "irq_stub ?body (irq_entry stub (machine q)) = (q_cpu q, m')"
    "\<forall>x. x \<notin> span (irq_frame_base (q_cpu q) - 8) 168 \<longrightarrow> m' x = hmem (q_heap q) x"
    using key.resumes [of "ra_eoi1 ra" "ra_kbd ra" stub "q_cpu q" "hmem (q_heap q)"] unfolding machine_def by blast
  then show ?thesis
    by (intro exI [of _ m'])
      (simp add: keyboard_irq_def irq_stub_1_def keyboard_irq_handler_def inb_def Let_def irq_stub_def set_machine_def [of "(_, m')"])
qed

lemma after_tick_returns:
  "after_tick ra ((fst (push (ra_tick ra) st))\<lparr>rip := ra_switch ra\<rparr>, snd (push (ra_tick ra) st)) =
     iretq (restore_regs (call_return (ra_tick ra) st))"
proof -
  obtain c m where st: "st = (c, m)" by fastforce
  show ?thesis
    unfolding st call_return_eq by (simp add: after_tick_def ret_push_rip) (simp add: push_def ret_def pop_def)
qed

lemma timer_irq_idle:
  assumes "\<not> switches (q_sched q)"
  shows "\<exists>m'. timer_irq stub ra q = q\<lparr>q_pit := pit_tick_handler (q_pit q), q_io := pic_send_eoi 0 (q_io q),
      q_sched := (q_sched q)\<lparr>s_ticks := s_ticks (q_sched q) + 1\<rparr>, q_heap := (q_heap q)\<lparr>hmem := m'\<rparr>\<rparr> \<and>
    (\<forall>x. x \<notin> span (irq_frame_base (q_cpu q) - 8) 168 \<longrightarrow> m' x = hmem (q_heap q) x)"
proof -
  let ?body = "\<lambda>st. call_return (ra_tick ra) (call_return (ra_eoi0 ra) (load_rdi 0 (call_return (ra_pit ra) st)))"
  obtain m' where m': "irq_stub ?body (irq_entry stub (machine q)) = (q_cpu q, m')"
    "\<forall>x. x \<notin> span (irq_frame_base (q_cpu q) - 8) 168 \<longrightarrow> m' x = hmem (q_heap q) x"
    using slice.resumes [of "ra_tick ra" "ra_eoi0 ra" "ra_pit ra" stub "q_cpu q" "hmem (q_heap q)"] unfolding machine_def by blast
  then show ?thesis
    by (intro exI [of _ m'])
      (simp add: timer_irq_def irq_stub_0_def sched_tick_idle [OF assms] Let_def irq_stub_def set_machine_def [of "(_, m')"]
        case_prod_beta after_tick_returns)
qed

subsection \<open>Preemption\<close>

text \<open>
  \<open>suspended ra m t d\<close>: the saved stack pointer of task \<open>t\<close> leads to a switch frame that returns into
  \<open>sched_tick\<close>, above it lies the return address from there into the stub, and above that the interrupt frame of
  the state \<open>d\<close>.
\<close>

definition suspended :: "return_addrs \<Rightarrow> memory \<Rightarrow> Task \<Rightarrow> cpu \<Rightarrow> bool" where
  "suspended ra m t d \<longleftrightarrow> ctx_rip (frame_ctx m (t_rsp t)) = ra_switch ra \<and> load64 m (t_rsp t + 56) = ra_tick ra \<and>
     t_rsp t + 64 = irq_frame_base d \<and> irq_saved m (t_rsp t + 64) d"

definition irq_room :: "u64 set \<Rightarrow> irqs \<Rightarrow> bool" where
  "irq_room B q \<longleftrightarrow> span (irq_frame_base (q_cpu q) - 64) 224 \<subseteq> stack_area B (q_sched q) (unat (s_current (q_sched q)))"

lemma after_tick_suspended:
  assumes "suspended ra m t d" "running_ctx c = frame_ctx m (t_rsp t)"
  shows "after_tick ra (c, m) = (d, m)"
proof -
  have c: "rip c = ra_switch ra" "rsp c = t_rsp t + 56"
    using assms by (simp_all add: running_ctx_def suspended_def frame_ctx_def)
  then have "ret (c, m) = (c\<lparr>rsp := t_rsp t + 64, rip := ra_tick ra\<rparr>, m)"
  proof -
    have "load64 m (t_rsp t + 56) = ra_tick ra" using assms(1) by (simp add: suspended_def)
    then show ?thesis using c(2) by (simp add: ret_def pop_def add.assoc)
  qed
  moreover have "irq_saved m (t_rsp t + 64) d" using assms(1) unfolding suspended_def by blast
  then have "iretq (restore_regs (c\<lparr>rsp := t_rsp t + 64, rip := ra_tick ra\<rparr>, m)) = (d, m)" by (rule irq_resume) simp
  ultimately show ?thesis using c(1) by (simp add: after_tick_def)
qed

definition next_task :: "sched \<Rightarrow> u32" where
  "next_task s = (s_current s + 1) mod s_count s"

lemma next_task_stack:
  assumes "sys_ok B (s, h, c)" "switches s"
  shows "unat (next_task s) \<noteq> unat (s_current s)" "span (t_rsp (task s (next_task s))) 56 \<subseteq> stack_area B s (unat (next_task s))"
    and next_area_disjoint: "stack_area B s (unat (next_task s)) \<inter> stack_area B s (unat (s_current s)) = {}"
proof -
  have inv: "sched_inv s" "stacks_ok B s h" using assms(1) by (simp_all add: sys_ok_def)
  then have c: "unat (s_current s) < unat (s_count s)" "unat (s_count s) \<le> 16" "1 < unat (s_count s)"
    using assms(2) by (auto simp: inv_defs switches_def word_less_nat_alt)
  have n: "unat (next_task s) < unat (s_count s)" "unat (next_task s) \<noteq> unat (s_current s)"
    using unat_next_task [OF c(1,2)] next_neq [OF c(1,3,2)] c by (auto simp: next_task_def word_unat_eq_iff)
  with inv(2) c(1) show "unat (next_task s) \<noteq> unat (s_current s)"
    "span (t_rsp (task s (next_task s))) 56 \<subseteq> stack_area B s (unat (next_task s))"
    "stack_area B s (unat (next_task s)) \<inter> stack_area B s (unat (s_current s)) = {}"
    unfolding stacks_ok_def by blast+
qed

lemma span_split: "span b 56 \<subseteq> span b 224" "span (b + 56) 168 \<subseteq> span b 224" "span (b + 56) 8 \<subseteq> span b 224" "span (b + 64) 160 \<subseteq> span b 224"
  using span_mono [of 56 224 b] span_offset [of 56 168 224 b] span_offset [of 56 8 224 b] span_offset [of 64 160 224 b] by simp_all

lemma suspended_cong:
  assumes "suspended ra m t d" "\<And>x. x \<in> span (t_rsp t) 224 \<Longrightarrow> m' x = m x"
  shows "suspended ra m' t d"
proof -
  have "frame_ctx m' (t_rsp t) = frame_ctx m (t_rsp t)"
    by (rule frame_ctx_cong, rule assms(2)) (use span_split(1) in blast)
  moreover have "load64 m' (t_rsp t + 56) = load64 m (t_rsp t + 56)"
    by (rule load_cong(2)) (use assms(2) span_split(3) in blast)
  moreover have "irq_saved m' (t_rsp t + 64) d"
    by (rule irq_saved_cong [of m]) (use assms span_split(4) [of "t_rsp t"] in \<open>auto simp: suspended_def\<close>)
  ultimately show ?thesis using assms(1) by (simp add: suspended_def)
qed

text \<open>The calls of the timer stub up to the first instruction of \<open>sched_tick\<close>.\<close>

lemma stub_0_calls:
  fixes c :: cpu and m :: memory
  obtains c' m' where "push t (call_return b (load_rdi 0 (call_return a (c, m)))) = (c', m')" "rsp c' = rsp c - 8"
    "rflags c' = rflags c" "load64 m' (rsp c - 8) = t" "\<And>x. x \<notin> span (rsp c - 8) 8 \<Longrightarrow> m' x = m x"
  by (rule that [of "fst (push t (call_return b (load_rdi 0 (call_return a (c, m)))))" "snd (push t (call_return b (load_rdi 0 (call_return a (c, m)))))"])
    (simp_all add: load_rdi_def call_return_eq push_def store_other)

lemma sys_ok_stack_write:
  assumes "sys_ok B (s, h, c)" "\<And>x. x \<notin> stack_area B s (unat (s_current s)) \<Longrightarrow> m x = hmem h x"
  shows "sys_ok B (s, h\<lparr>hmem := m\<rparr>, c')"
proof -
  have "unat (s_current s) < unat (s_count s)" using assms(1) by (simp add: sys_ok_def inv_defs)
  note keep = stack_write_keeps [OF assms(1) this assms(2)]
  have "stacks_ok B s (h\<lparr>hmem := m\<rparr>) = stacks_ok B s h"
    using keep by (simp add: stacks_ok_def pool_span_def)
  then show ?thesis using assms(1) keep by (simp add: sys_ok_def)
qed

lemma timer_irq_enters:
  fixes q :: irqs
  obtains d m2 where "\<And>s' c3 m3. sched_tick (q_sched q, d, m2) = (s', c3, m3) \<Longrightarrow> timer_irq stub ra q = set_machine (after_tick ra (c3, m3))
      (q\<lparr>q_pit := pit_tick_handler (q_pit q), q_io := pic_send_eoi 0 (q_io q), q_sched := s'\<rparr>)"
    "rsp d = irq_frame_base (q_cpu q) - 8" "rip d = ra_switch ra" "\<not> interrupts_enabled d"
    "irq_saved m2 (irq_frame_base (q_cpu q)) (q_cpu q)" "load64 m2 (irq_frame_base (q_cpu q) - 8) = ra_tick ra"
    "\<And>x. x \<notin> span (irq_frame_base (q_cpu q) - 8) 168 \<Longrightarrow> m2 x = hmem (q_heap q) x"
proof -
  let ?b = "irq_frame_base (q_cpu q)"
  obtain c1 m1 where E: "save_regs (irq_entry stub (machine q)) = (c1, m1)" "rsp c1 = ?b"
    "irq_saved m1 ?b (q_cpu q)" "\<not> interrupts_enabled c1" "\<And>x. x \<notin> span ?b 160 \<Longrightarrow> m1 x = hmem (q_heap q) x"
    unfolding machine_def by (rule irq_entry_saves [of stub "q_cpu q" "hmem (q_heap q)"]) auto
  obtain c2 m2 where P: "push (ra_tick ra) (call_return (ra_eoi0 ra) (load_rdi 0 (call_return (ra_pit ra) (c1, m1)))) = (c2, m2)"
    "rsp c2 = ?b - 8" "rflags c2 = rflags c1" "load64 m2 (?b - 8) = ra_tick ra" "\<And>x. x \<notin> span (?b - 8) 8 \<Longrightarrow> m2 x = m1 x"
    by (rule stub_0_calls [of "ra_tick ra" "ra_eoi0 ra" "ra_pit ra" c1 m1]) (simp add: E(2))
  have dj: "span (?b - 8) 8 \<inter> span ?b 160 = {}" using span_offsets_disjoint [of 0 8 8 160 "?b - 8"] by simp
  have sv: "irq_saved m2 ?b (q_cpu q)" by (rule irq_saved_cong [OF E(3)]) (use P(5) dj in auto)
  have out: "m2 x = hmem (q_heap q) x" if "x \<notin> span (?b - 8) 168" for x
  proof -
    have "x \<notin> span (?b - 8) 8" "x \<notin> span ?b 160"
      using that span_mono [of 8 168 "?b - 8"] span_offset [of 8 160 168 "?b - 8"] by auto
    then show ?thesis using P(5) E(5) by simp
  qed
  show thesis
  proof (rule that [of "c2\<lparr>rip := ra_switch ra\<rparr>" m2])
    show "timer_irq stub ra q = set_machine (after_tick ra (c3, m3))
      (q\<lparr>q_pit := pit_tick_handler (q_pit q), q_io := pic_send_eoi 0 (q_io q), q_sched := s'\<rparr>)"
      if "sched_tick (q_sched q, c2\<lparr>rip := ra_switch ra\<rparr>, m2) = (s', c3, m3)" for s' c3 m3
      using that E(1) P(1) by (simp add: timer_irq_def irq_stub_0_def Let_def)
  qed (use P sv out E(4) in \<open>simp_all add: interrupts_enabled_def\<close>)
qed

lemma timer_irq_switch:
  assumes ok: "sys_ok B (q_sched q, q_heap q, q_cpu q)" and sw: "switches (q_sched q)" and room: "irq_room B q"
  obtains c3 m3 s' where "timer_irq stub ra q = set_machine (after_tick ra (c3, m3))
      (q\<lparr>q_pit := pit_tick_handler (q_pit q), q_io := pic_send_eoi 0 (q_io q), q_sched := s'\<rparr>)"
    "running_ctx c3 = frame_ctx m3 (t_rsp (task (q_sched q) (next_task (q_sched q))))" "\<not> interrupts_enabled c3"
    "s_current s' = next_task (q_sched q)" "s_count s' = s_count (q_sched q)"
    "suspended ra m3 (task s' (s_current (q_sched q))) (q_cpu q)"
    "sys_ok B (s', (q_heap q)\<lparr>hmem := m3\<rparr>, c3)"
    "\<And>x. x \<notin> stack_area B (q_sched q) (unat (s_current (q_sched q))) \<Longrightarrow> m3 x = hmem (q_heap q) x"
proof -
  define s where "s = q_sched q"
  let ?b = "irq_frame_base (q_cpu q)" and ?A = "stack_area B s (unat (s_current s))" and ?n = "next_task s"
  have inv: "sched_inv s" using ok by (simp add: sys_ok_def s_def)
  have "switches s" using sw by (simp add: s_def)
  obtain d m2 where E: "\<And>s' c3 m3. sched_tick (q_sched q, d, m2) = (s', c3, m3) \<Longrightarrow> timer_irq stub ra q = set_machine (after_tick ra (c3, m3))
      (q\<lparr>q_pit := pit_tick_handler (q_pit q), q_io := pic_send_eoi 0 (q_io q), q_sched := s'\<rparr>)"
    "rsp d = ?b - 8" "rip d = ra_switch ra" "\<not> interrupts_enabled d" "irq_saved m2 ?b (q_cpu q)" "load64 m2 (?b - 8) = ra_tick ra"
    "\<And>x. x \<notin> span (?b - 8) 168 \<Longrightarrow> m2 x = hmem (q_heap q) x"
    by (rule timer_irq_enters [of q stub ra]) (rule that)
  obtain c3 m3 where S: "call_context_switch (t_rsp (task s ?n)) (d, m2) = (rsp d - 56, c3, m3)"
    "frame_ctx m3 (rsp d - 56) = running_ctx d" "running_ctx c3 = frame_ctx m3 (t_rsp (task s ?n))"
    "rflags c3 = rflags d" "\<And>x. x \<notin> span (rsp d - 56) 56 \<Longrightarrow> m3 x = m2 x"
    using call_context_switch_spec [of "t_rsp (task s ?n)" d m2] by blast
  have sp: "rsp d - 56 = ?b - 64" using E(2) by simp
  note T = sched_tick_switch [OF inv \<open>switches s\<close> S(1) [unfolded next_task_def]]
  define s' where "s' = fst (sched_tick (s, d, m2))"
  have tick: "sched_tick (s, d, m2) = (s', c3, m3)" using T by (simp add: s'_def)
  have cur: "s_current s' = ?n" "s_count s' = s_count s" using T by (simp_all add: s'_def next_task_def)
  have lt: "unat (s_current s) < 16" "length (s_tasks s) = 16" using inv by (auto simp: inv_defs)
  have ne: "unat ?n \<noteq> unat (s_current s)" using next_task_stack(1) ok sw by (simp add: s_def)
  have rsp': "t_rsp (task s' (s_current s)) = ?b - 64"
    using T lt ne sp by (simp add: s'_def next_task_def nth_list_update)
  have sub: "span (?b - 64) 56 \<subseteq> ?A" "span (?b - 8) 168 \<subseteq> ?A"
    using room span_split [of "?b - 64"] by (auto simp: irq_room_def s_def)
  have dj: "span (?b - 64) 56 \<inter> span ?b 160 = {}" "span (?b - 8) 8 \<inter> span (?b - 64) 56 = {}"
    using span_offsets_disjoint [of 0 56 64 160 "?b - 64"] span_offsets_disjoint [of 0 56 56 8 "?b - 64"] by auto
  have kept: "m3 x = m2 x" if "x \<notin> span (?b - 64) 56" for x using S(5) that unfolding sp by blast
  have "irq_saved m3 ?b (q_cpu q)" by (rule irq_saved_cong [OF E(5)]) (use kept dj(1) in auto)
  moreover have "load64 m3 (?b - 8) = load64 m2 (?b - 8)" by (rule load_cong(2)) (use kept dj(2) in auto)
  moreover have "ctx_rip (frame_ctx m3 (?b - 64)) = ra_switch ra" using S(2) E(3) unfolding sp by (simp add: running_ctx_def)
  ultimately have sus: "suspended ra m3 (task s' (s_current s)) (q_cpu q)"
    unfolding suspended_def rsp' using E(6) by simp
  have out: "m3 x = hmem (q_heap q) x" if "x \<notin> ?A" for x
  proof -
    have "x \<notin> span (?b - 64) 56" "x \<notin> span (?b - 8) 168" using sub that by blast+
    then show ?thesis using kept [of x] E(7) [of x] by simp
  qed
  have "sys_ok B (s, (q_heap q)\<lparr>hmem := m2\<rparr>, d)"
    by (rule sys_ok_stack_write [of B s "q_heap q" "q_cpu q"]) (use ok E(7) sub(2) in \<open>auto simp: s_def\<close>)
  then have "sys_ok B (sys_tick (s, (q_heap q)\<lparr>hmem := m2\<rparr>, d))"
    by (rule sys_tick_step) (unfold stack_room_def Let_def prod.case sp, rule sub(1))
  then have ok': "sys_ok B (s', (q_heap q)\<lparr>hmem := m3\<rparr>, c3)" by (simp add: sys_tick_def tick)
  have "\<not> interrupts_enabled c3" using E(4) S(4) by (simp add: interrupts_enabled_def)
  with E(1) [OF tick [unfolded s_def]] S(3) cur sus ok' out show thesis using that unfolding s_def by blast
qed

subsection \<open>The background task\<close>

text \<open>
  The machine between two interrupts: while the background task is current its loop counts, and an interrupt
  is accepted only when the interrupt flag is set.
\<close>

definition background_ticker_task :: "int \<Rightarrow> int" where
  "background_ticker_task i = (if i < 50000000 then i + 1 else 0)"

inductive machine_step :: "device \<Rightarrow> u64 \<Rightarrow> u64 \<Rightarrow> return_addrs \<Rightarrow> u32 \<Rightarrow> irqs \<times> int \<Rightarrow> irqs \<times> int \<Rightarrow> bool"
  for dev stub0 stub1 ra tk where
  ticker: "s_current (q_sched q) = tk \<Longrightarrow> machine_step dev stub0 stub1 ra tk (q, i) (q, background_ticker_task i)"
| timer: "interrupts_enabled (q_cpu q) \<Longrightarrow> machine_step dev stub0 stub1 ra tk (q, i) (timer_irq stub0 ra q, i)"
| keypress: "interrupts_enabled (q_cpu q) \<Longrightarrow> machine_step dev stub0 stub1 ra tk (q, i) (keyboard_irq dev stub1 ra q, i)"

inductive_cases machine_stepE: "machine_step dev stub0 stub1 ra tk (q, i) st"

lemma masked_forever:
  assumes "(machine_step dev stub0 stub1 ra tk)\<^sup>*\<^sup>* (q, i) st" "\<not> interrupts_enabled (q_cpu q)"
  shows "fst st = q"
  using assms by (induction rule: rtranclp_induct) (auto elim: machine_step.cases)

subsection \<open>Sample runs\<close>

lemma align_16: "(w :: u64) AND NOT 15 = w - of_nat (unat w mod 16)"
proof -
  have "unat (w AND NOT 15) = unat w div 16 * 16"
    using unat_and_not_mask [of w 4] by (simp add: mask_eq_exp_minus_1)
  moreover have "unat w = unat w div 16 * 16 + unat w mod 16" by simp
  ultimately have "of_nat (unat w) = (of_nat (unat (w AND NOT 15)) + of_nat (unat w mod 16) :: u64)"
    by (metis of_nat_add)
  then show ?thesis by (simp only: of_nat_unat_id) (simp add: algebra_simps)
qed

lemma irq_room_top:
  assumes "rsp c = base + 16384"
  shows "span (irq_frame_base c - 64) 224 \<subseteq> span base 16384"
proof -
  let ?k = "16384 - unat (rsp c) mod 16 - 224"
  have k: "unat (rsp c) mod 16 < 16" by simp
  have "irq_frame_base c - 64 = base + of_nat ?k"
    unfolding irq_frame_base_def align_16 using k by (simp add: assms of_nat_diff)
  moreover have "?k + 224 \<le> 16384" using k by linarith
  ultimately show ?thesis using span_offset [of ?k 224 16384 base] by (simp only:) simp
qed

definition demo_ra :: return_addrs where
  "demo_ra = \<lparr>ra_pit = 0x4100, ra_eoi0 = 0x4110, ra_tick = 0x4118, ra_kbd = 0x4200, ra_eoi1 = 0x4210, ra_switch = 0x4000\<rparr>"

definition demo_irqs :: "sched \<Rightarrow> heap \<Rightarrow> irqs" where
  "demo_irqs s h = \<lparr>q_pit = \<lparr>pit_s_ticks = 0\<rparr>, q_io = pic_init pic_dev 32 40 [], q_kbd = kbd_boot, q_sched = s,
     q_heap = h, q_cpu = demo_cpu\<rparr>"

lemma demo_irq_room:
  assumes "s_current s = 0"
  shows "irq_room demo_boot_stack (demo_irqs s h)" "irq_frame_base demo_cpu = 0x1760"
proof -
  show b: "irq_frame_base demo_cpu = 0x1760" unfolding irq_frame_base_def align_16 by (simp add: demo_cpu_def)
  show "irq_room demo_boot_stack (demo_irqs s h)"
    using span_offset [of 1824 224 4096 "0x1000"] assms b
    by (simp add: irq_room_def demo_irqs_def stack_area_def demo_boot_stack_def)
qed

text \<open>The state in which the background task is interrupted and the boot task is suspended.\<close>

lemma demo_preempted:
  obtains q where "sys_ok demo_boot_stack (q_sched q, q_heap q, q_cpu q)" "switches (q_sched q)"
    "irq_room demo_boot_stack q" "next_task (q_sched q) = 0" "rip (q_cpu q) = 0x5004"
    "suspended demo_ra (hmem (q_heap q)) (task (q_sched q) 0) demo_cpu"
    "span (t_rsp (task (q_sched q) 0)) 224 \<subseteq> stack_area demo_boot_stack (q_sched q) 0"
proof -
  obtain s h where D: "sys_ok demo_boot_stack (s, h, demo_cpu)" "switches s" "s_count s = 2" "s_current s = 0"
    by (rule demo_create) blast
  let ?q = "demo_irqs s h"
  have q: "q_sched ?q = s" "q_heap ?q = h" "q_cpu ?q = demo_cpu" by (simp_all add: demo_irqs_def)
  have ok: "sys_ok demo_boot_stack (q_sched ?q, q_heap ?q, q_cpu ?q)" "switches (q_sched ?q)" "irq_room demo_boot_stack ?q"
    using D demo_irq_room(1) [OF D(4)] q by simp_all
  obtain c3 m3 s' where T: "s_current s' = next_task s" "s_count s' = s_count s"
    "suspended demo_ra m3 (task s' 0) demo_cpu" "sys_ok demo_boot_stack (s', h\<lparr>hmem := m3\<rparr>, c3)"
    by (rule timer_irq_switch [OF ok, of 0 demo_ra]) (auto simp: q D(4) intro: that)
  have n: "next_task s = 1" using D(3,4) by (simp add: next_task_def)
  let ?c = "demo_cpu\<lparr>rip := 0x5004, rsp := t_stack_base (s_tasks s' ! 1) + 16384\<rparr>"
  let ?s = "s'\<lparr>s_ticks := 1\<rparr>"
  let ?r = "?q\<lparr>q_sched := ?s, q_heap := h\<lparr>hmem := m3\<rparr>, q_cpu := ?c\<rparr>"
  have "t_rsp (task s' 0) = 0x1760 - 64" using T(3) demo_irq_room(2) [OF D(4)] by (simp add: suspended_def eq_diff_eq)
  then have "span (t_rsp (task ?s 0)) 224 \<subseteq> stack_area demo_boot_stack ?s 0"
    using span_offset [of 1824 224 4096 "0x1000"] by (simp add: stack_area_def demo_boot_stack_def)
  moreover have "sys_ok demo_boot_stack (?s, h\<lparr>hmem := m3\<rparr>, ?c)" using T(4) by (simp add: sys_ok_def inv_defs)
  moreover have "switches ?s" using T(2) D(3) by (simp add: switches_def const_defs)
  moreover have "irq_room demo_boot_stack ?r"
    using irq_room_top [of ?c "t_stack_base (s_tasks s' ! 1)"] T(1) n by (simp add: irq_room_def stack_area_def)
  moreover have "next_task ?s = 0" using T(1,2) n D(3) by (simp add: next_task_def)
  moreover have "suspended demo_ra m3 (task ?s 0) demo_cpu" using T(3) by simp
  ultimately show thesis by (intro that [of ?r]) simp_all
qed

subsection \<open>Properties\<close>

text \<open>
  Claim C20. A keyboard interrupt, and a timer interrupt that does not end a time slice, are invisible to the
  interrupted code: every register, the flags and the stack pointer are as before; the processor, the stub and its
  calls write no memory but the 160 bytes of the interrupt frame below the stack pointer, rounded down to a multiple
  of 16 by the processor, and the 8 bytes below the frame, which hold the return address of each call in turn (what the C functions
  put on the stack below that is the compiler's choice and not part of the model); the scan code is handled or the tick
  counted, and the controller gets its end of interrupt.
\<close>

theorem irq_transparent:
  assumes "pics_ready (q_io q)"
  shows "(let r = keyboard_irq dev stub ra q in q_cpu r = q_cpu q \<and>
      q_kbd r = kbd_scancode (dev (q_io q) PS2_DATA) (q_kbd q) \<and> q_sched r = q_sched q \<and> q_pit r = q_pit q \<and>
      eois (master (q_io r)) = eois (master (q_io q)) + 1 \<and>
      (\<forall>x. x \<notin> span (irq_frame_base (q_cpu q) - 8) 168 \<longrightarrow> hmem (q_heap r) x = hmem (q_heap q) x)) \<and>
    (\<not> switches (q_sched q) \<longrightarrow> (let r = timer_irq stub ra q in q_cpu r = q_cpu q \<and> q_kbd r = q_kbd q \<and>
      pit_ticks (q_pit r) = pit_ticks (q_pit q) + 1 \<and> s_current (q_sched r) = s_current (q_sched q) \<and>
      eois (master (q_io r)) = eois (master (q_io q)) + 1 \<and>
      (\<forall>x. x \<notin> span (irq_frame_base (q_cpu q) - 8) 168 \<longrightarrow> hmem (q_heap r) x = hmem (q_heap q) x)))"
proof -
  have eoi: "eois (master (pic_send_eoi n w)) = eois (master w) + 1" if "n < 8" for n :: u8 and w
    using that by (auto simp: pic_send_eoi_def chip_cmd_def const_defs)
  obtain m' where "keyboard_irq dev stub ra q = q\<lparr>q_kbd := kbd_scancode (dev (q_io q) PS2_DATA) (q_kbd q),
      q_io := pic_send_eoi 1 (q_io q @ [In PS2_DATA (dev (q_io q) PS2_DATA)]), q_heap := (q_heap q)\<lparr>hmem := m'\<rparr>\<rparr>"
    "\<forall>x. x \<notin> span (irq_frame_base (q_cpu q) - 8) 168 \<longrightarrow> m' x = hmem (q_heap q) x"
    using keyboard_irq_spec by blast
  moreover
  { assume "\<not> switches (q_sched q)"
    then obtain m' where "timer_irq stub ra q = q\<lparr>q_pit := pit_tick_handler (q_pit q), q_io := pic_send_eoi 0 (q_io q),
        q_sched := (q_sched q)\<lparr>s_ticks := s_ticks (q_sched q) + 1\<rparr>, q_heap := (q_heap q)\<lparr>hmem := m'\<rparr>\<rparr>"
      "\<forall>x. x \<notin> span (irq_frame_base (q_cpu q) - 8) 168 \<longrightarrow> m' x = hmem (q_heap q) x"
      using timer_irq_idle by blast
    then have "let r = timer_irq stub ra q in q_cpu r = q_cpu q \<and> q_kbd r = q_kbd q \<and>
      pit_ticks (q_pit r) = pit_ticks (q_pit q) + 1 \<and> s_current (q_sched r) = s_current (q_sched q) \<and>
      eois (master (q_io r)) = eois (master (q_io q)) + 1 \<and>
      (\<forall>x. x \<notin> span (irq_frame_base (q_cpu q) - 8) 168 \<longrightarrow> hmem (q_heap r) x = hmem (q_heap q) x)"
      by (simp add: Let_def eoi pit_ticks_def pit_tick_handler_def) }
  ultimately show ?thesis by (simp add: Let_def eoi)
qed

theorem irq_transparent_witness:
  "let q = demo_irqs demo_sched demo_heap; r = keyboard_irq (\<lambda>_ _. 0x1E) 0 demo_ra q in
     q_cpu r = demo_cpu \<and> q_kbd r = kbd_scancode 0x1E kbd_boot \<and> eois (master (q_io r)) = eois (master (q_io q)) + 1"
proof -
  have "pics_ready (q_io (demo_irqs demo_sched demo_heap))"
    using pic_init_chips [of pic_dev 32 40 "[]"] by (simp add: demo_irqs_def pics_ready_def)
  from irq_transparent [OF this, of "\<lambda>_ _. 0x1E" 0 demo_ra] show ?thesis
    unfolding Let_def by (simp add: demo_irqs_def)
qed

text \<open>
  Claim C8. Preemption is transparent between tasks that were themselves preempted: when a timer interrupt ends
  the slice, the next task in the cyclic order, suspended earlier by an interrupt in state \<open>d\<close>, goes on with the
  processor exactly in state \<open>d\<close>, all fifteen registers and the interrupt flag included, and the interrupted task
  is left suspended in its own state, so that its turn restores it in the same way; the tick is counted and the
  interrupt acknowledged once, the invariants of table, heap and stacks are kept and the stacks of all other
  tasks are untouched.
\<close>

theorem timer_irq_resumes:
  assumes "sys_ok B (q_sched q, q_heap q, q_cpu q)" "switches (q_sched q)" "irq_room B q"
    and "suspended ra (hmem (q_heap q)) (task (q_sched q) (next_task (q_sched q))) d"
    and "span (t_rsp (task (q_sched q) (next_task (q_sched q)))) 224 \<subseteq> stack_area B (q_sched q) (unat (next_task (q_sched q)))"
  shows "let r = timer_irq stub ra q in
    q_cpu r = d \<and> s_current (q_sched r) = next_task (q_sched q) \<and> sys_ok B (q_sched r, q_heap r, q_cpu r) \<and>
    suspended ra (hmem (q_heap r)) (task (q_sched r) (s_current (q_sched q))) (q_cpu q) \<and>
    pit_ticks (q_pit r) = pit_ticks (q_pit q) + 1 \<and> q_io r = pic_send_eoi 0 (q_io q) \<and>
    (\<forall>x. x \<notin> stack_area B (q_sched q) (unat (s_current (q_sched q))) \<longrightarrow> hmem (q_heap r) x = hmem (q_heap q) x)"
proof -
  let ?s = "q_sched q" and ?m = "hmem (q_heap q)"
  let ?t = "task ?s (next_task ?s)" and ?A = "stack_area B ?s (unat (s_current ?s))"
  obtain c3 m3 s' where T: "timer_irq stub ra q = set_machine
      (after_tick ra (c3, m3))
      (q\<lparr>q_pit := pit_tick_handler (q_pit q), q_io := pic_send_eoi 0 (q_io q), q_sched := s'\<rparr>)"
    "running_ctx c3 = frame_ctx m3 (t_rsp ?t)" "\<not> interrupts_enabled c3"
    "s_current s' = next_task ?s" "s_count s' = s_count ?s"
    "suspended ra m3 (task s' (s_current ?s)) (q_cpu q)"
    "sys_ok B (s', (q_heap q)\<lparr>hmem := m3\<rparr>, c3)"
    "\<And>x. x \<notin> ?A \<Longrightarrow> m3 x = hmem (q_heap q) x"
    by (rule timer_irq_switch [OF assms(1-3), of stub ra]) (rule that)
  have "stack_area B ?s (unat (next_task ?s)) \<inter> ?A = {}"
    by (rule next_area_disjoint [OF assms(1,2)])
  with assms(5) have dj: "span (t_rsp ?t) 224 \<inter> ?A = {}" by blast
  have same: "m3 x = ?m x" if "x \<in> span (t_rsp ?t) 224" for x using that dj T(8) by blast
  have "suspended ra m3 ?t d" by (rule suspended_cong [OF assms(4)]) (rule same)
  from after_tick_suspended [OF this T(2)] have "timer_irq stub ra q = set_machine (d, m3)
      (q\<lparr>q_pit := pit_tick_handler (q_pit q), q_io := pic_send_eoi 0 (q_io q), q_sched := s'\<rparr>)"
    using T(1) by simp
  moreover have "sys_ok B (s', (q_heap q)\<lparr>hmem := m3\<rparr>, d)" using T(7) by (simp add: sys_ok_def)
  ultimately show ?thesis using T(4,6,8) by (simp add: Let_def pit_ticks_def pit_tick_handler_def set_machine_def)
qed

theorem timer_irq_resumes_witness:
  "\<exists>q. rip (q_cpu q) = 0x5004 \<and> q_cpu (timer_irq 0 demo_ra q) = demo_cpu \<and> s_current (q_sched (timer_irq 0 demo_ra q)) = 0"
proof -
  obtain q where q: "sys_ok demo_boot_stack (q_sched q, q_heap q, q_cpu q)" "switches (q_sched q)"
    "irq_room demo_boot_stack q" "next_task (q_sched q) = 0" "rip (q_cpu q) = 0x5004"
    "suspended demo_ra (hmem (q_heap q)) (task (q_sched q) 0) demo_cpu"
    "span (t_rsp (task (q_sched q) 0)) 224 \<subseteq> stack_area demo_boot_stack (q_sched q) 0"
    by (rule demo_preempted)
  have "q_cpu (timer_irq 0 demo_ra q) = demo_cpu \<and> s_current (q_sched (timer_irq 0 demo_ra q)) = 0"
    using timer_irq_resumes [OF q(1-3), of demo_ra demo_cpu 0] q(4,6,7) by (simp add: Let_def)
  with q(5) show ?thesis by blast
qed

text \<open>
  The first dispatch of a new task ends interrupt service for good: \<open>context_switch\<close> does not touch the
  flags, the gate has cleared the interrupt flag, and a new task starts by a plain return instead of an
  \<open>iretq\<close>.  So a timer interrupt that switches to a task which has not run yet enters its function with interrupts
  disabled; as the background task only counts, no interrupt is accepted and no other task runs any more.
\<close>

lemma first_dispatch_masks_interrupts:
  assumes "sys_ok B (q_sched q, q_heap q, q_cpu q)" "switches (q_sched q)" "irq_room B q"
    and "task_ctx (q_sched q, q_heap q, q_cpu q) (unat (next_task (q_sched q))) =
      \<lparr>ctx_regs = replicate 6 0, ctx_rip = entry_fn, ctx_rsp = sp\<rparr>" "entry_fn \<noteq> ra_switch ra"
  shows "let r = timer_irq stub ra q in
    rip (q_cpu r) = entry_fn \<and> rsp (q_cpu r) = sp \<and> s_current (q_sched r) = next_task (q_sched q) \<and>
    \<not> interrupts_enabled (q_cpu r) \<and>
    (\<forall>i st. (machine_step dev stub stub1 ra (next_task (q_sched q)))\<^sup>*\<^sup>* (r, i) st \<longrightarrow> fst st = r)"
proof -
  let ?s = "q_sched q"
  let ?t = "task ?s (next_task ?s)" and ?A = "stack_area B ?s (unat (s_current ?s))"
  obtain c3 m3 s' where T: "timer_irq stub ra q = set_machine
      (after_tick ra (c3, m3))
      (q\<lparr>q_pit := pit_tick_handler (q_pit q), q_io := pic_send_eoi 0 (q_io q), q_sched := s'\<rparr>)"
    "running_ctx c3 = frame_ctx m3 (t_rsp ?t)" "\<not> interrupts_enabled c3"
    "s_current s' = next_task ?s" "s_count s' = s_count ?s"
    "suspended ra m3 (task s' (s_current ?s)) (q_cpu q)"
    "sys_ok B (s', (q_heap q)\<lparr>hmem := m3\<rparr>, c3)"
    "\<And>x. x \<notin> ?A \<Longrightarrow> m3 x = hmem (q_heap q) x"
    by (rule timer_irq_switch [OF assms(1-3), of stub ra]) (rule that)
  note N = next_task_stack [OF assms(1,2)]
  have fr: "frame_ctx m3 (t_rsp ?t) = frame_ctx (hmem (q_heap q)) (t_rsp ?t)"
    by (rule frame_ctx_cong, rule T(8)) (use N next_area_disjoint [OF assms(1,2)] in blast)
  have ctx: "frame_ctx (hmem (q_heap q)) (t_rsp ?t) = \<lparr>ctx_regs = replicate 6 0, ctx_rip = entry_fn, ctx_rsp = sp\<rparr>"
    using assms(4) N(1) by (simp add: task_ctx_def)
  have c3: "rip c3 = entry_fn" "rsp c3 = sp" using T(2) unfolding fr ctx by (simp_all add: running_ctx_def)
  then have r: "q_cpu (timer_irq stub ra q) = c3" "q_sched (timer_irq stub ra q) = s'"
    using T(1) assms(5) by (simp_all add: after_tick_def)
  show ?thesis using c3 T(3,4) masked_forever r by (auto simp: Let_def)
qed

end
