(* ===== verification/Vfs.thy ===== *)
theory Vfs
  imports CString
begin

section \<open>The RAM-disk file system\<close>

text \<open>
  \<open>kernel/fs/vfs.cpp\<close>: a table of sixteen nodes, filled from the front and never emptied.  The table
  is the list of its nodes, a returned node pointer is the index of the node.  The specification is
  an association list of names (cut to 31 characters) and contents: creating a file appends to it,
  opening looks up the first entry of the name.
\<close>

subsection \<open>Data and operations\<close>

definition MAX_VFS_FILES :: nat where [const_defs]: "MAX_VFS_FILES = 16"
definition MAX_FILENAME :: nat where [const_defs]: "MAX_FILENAME = 32"

record VFSNode =
  vn_name :: string
  vn_data :: string
  vn_size :: u64
  vn_used :: bool

type_synonym vfs = "VFSNode list"

abbreviation LF :: char where
  "LF \<equiv> CHR 0x0A"

definition vfs_boot :: vfs where
  "vfs_boot = replicate MAX_VFS_FILES
     \<lparr>vn_name = replicate MAX_FILENAME NUL, vn_data = [], vn_size = 0, vn_used = False\<rparr>"

definition sysinfo_content :: string where
  "sysinfo_content =
     ''NovaOS Version 1.0 (x86-64 UEFI)'' @ [LF] @
     ''Author: Parth Chittalwar'' @ [LF] @
     ''Subsystems: GDT, IDT, PMM, Heap, PIC, PIT, Keyboard, Scheduler, VFS, Shell'' @ [LF]"

definition readme_content :: string where
  "readme_content =
     ''Welcome to NovaOS!'' @ [LF] @
     ''This is a custom freestanding 64-bit kernel booted via Limine.'' @ [LF] @
     ''Type '' @ [CHR 0x27] @ ''help'' @ [CHR 0x27] @ '' in the shell to explore available commands.'' @ [LF]"

definition credits_content :: string where
  "credits_content =
     ''NovaOS Architecture:'' @ [LF] @
     ''- Bootloader: Limine 8.x'' @ [LF] @
     ''- Architecture: x86-64 Long Mode'' @ [LF] @
     ''- Executable Format: ELF64'' @ [LF] @
     ''- Memory: Higher-half kernel mapping with PMM bitmap & Heap allocator'' @ [LF]"

function vfs_create_loop :: "nat \<Rightarrow> string \<Rightarrow> string \<Rightarrow> u64 \<Rightarrow> vfs \<Rightarrow> bool \<times> vfs" where
  "vfs_create_loop i name data sz fs =
     (if i < MAX_VFS_FILES
      then if \<not> vn_used (fs ! i)
           then (True, fs[i := \<lparr>vn_name = strncpy_local (vn_name (fs ! i)) name MAX_FILENAME,
                                vn_data = data, vn_size = sz, vn_used = True\<rparr>])
           else vfs_create_loop (Suc i) name data sz fs
      else (False, fs))"
  by pat_completeness auto
termination by (relation "measure (\<lambda>(i, _, _, _, _). MAX_VFS_FILES - i)") auto

declare vfs_create_loop.simps [simp del]

definition vfs_create_file :: "string \<Rightarrow> string \<Rightarrow> u64 \<Rightarrow> vfs \<Rightarrow> bool \<times> vfs" where
  "vfs_create_file name data sz fs = vfs_create_loop 0 name data sz fs"

definition vfs_init :: "vfs \<Rightarrow> vfs" where
  "vfs_init fs =
     (let fs = fold (\<lambda>i fs. fs[i := (fs ! i)\<lparr>vn_used := False\<rparr>]) [0..<MAX_VFS_FILES] fs;
          fs = snd (vfs_create_file ''sysinfo.txt'' sysinfo_content (of_nat (length sysinfo_content)) fs);
          fs = snd (vfs_create_file ''readme.txt'' readme_content (of_nat (length readme_content)) fs)
      in snd (vfs_create_file ''credits.txt'' credits_content (of_nat (length credits_content)) fs))"

function vfs_open_loop :: "nat \<Rightarrow> string \<Rightarrow> vfs \<Rightarrow> nat option" where
  "vfs_open_loop i filename fs =
     (if i < MAX_VFS_FILES
      then if vn_used (fs ! i) \<and> streql (vn_name (fs ! i)) filename then Some i
           else vfs_open_loop (Suc i) filename fs
      else None)"
  by pat_completeness auto
termination by (relation "measure (\<lambda>(i, _, _). MAX_VFS_FILES - i)") auto

declare vfs_open_loop.simps [simp del]

definition vfs_open :: "string \<Rightarrow> vfs \<Rightarrow> nat option" where
  "vfs_open filename fs = vfs_open_loop 0 filename fs"

text \<open>The nodes that \<open>vfs_list\<close> writes to its output array, in order; their number is its result.\<close>

function vfs_list_loop :: "nat \<Rightarrow> nat list \<Rightarrow> nat \<Rightarrow> vfs \<Rightarrow> nat list" where
  "vfs_list_loop i out max_out fs =
     (if i < MAX_VFS_FILES \<and> length out < max_out
      then vfs_list_loop (Suc i) (if vn_used (fs ! i) then out @ [i] else out) max_out fs
      else out)"
  by pat_completeness auto
termination by (relation "measure (\<lambda>(i, _, _, _). MAX_VFS_FILES - i)") auto

declare vfs_list_loop.simps [simp del]

definition vfs_list :: "nat \<Rightarrow> vfs \<Rightarrow> nat list" where
  "vfs_list max_out fs = vfs_list_loop 0 [] max_out fs"

subsection \<open>The table as an association list\<close>

definition vfs_inv :: "vfs \<Rightarrow> bool" where
  [inv_defs]: "vfs_inv fs \<longleftrightarrow> length fs = 16 \<and> (\<forall>n \<in> set fs. length (vn_name n) = 32) \<and>
     (\<exists>k \<le> 16. \<forall>i < 16. vn_used (fs ! i) \<longleftrightarrow> i < k)"

definition file_of :: "VFSNode \<Rightarrow> string \<times> string \<times> u64" where
  "file_of n = (cstr (vn_name n), vn_data n, vn_size n)"

definition files :: "vfs \<Rightarrow> (string \<times> string \<times> u64) list" where
  "files fs = map file_of (filter vn_used fs)"

definition nused :: "vfs \<Rightarrow> nat" where
  "nused fs = length (files fs)"

lemma prefix_unique:
  fixes m k :: nat
  assumes "m \<le> N" "k \<le> N" "\<And>i. i < N \<Longrightarrow> i < m \<longleftrightarrow> i < k"
  shows "m = k"
  using assms(1,2) assms(3) [of m] assms(3) [of k] by (cases m k rule: linorder_cases) auto

lemma used_prefix:
  assumes "vfs_inv fs"
  shows "nused fs \<le> 16" "\<And>i. i < 16 \<Longrightarrow> vn_used (fs ! i) \<longleftrightarrow> i < nused fs" "filter vn_used fs = take (nused fs) fs"
proof -
  obtain k where k: "k \<le> 16" "\<And>i. i < 16 \<Longrightarrow> vn_used (fs ! i) \<longleftrightarrow> i < k" and len: "length fs = 16"
    using assms by (auto simp: inv_defs)
  have "filter vn_used (take k fs) = take k fs"
    using k len by (intro filter_True) (auto simp: in_set_conv_nth)
  moreover have "filter vn_used (drop k fs) = []"
    using k len by (intro filter_False) (auto simp: in_set_conv_nth)
  ultimately have f: "filter vn_used fs = take k fs"
    using filter_append [of vn_used "take k fs" "drop k fs"] by simp
  then have "nused fs = k" using k len by (simp add: nused_def files_def)
  with k f show "nused fs \<le> 16" "\<And>i. i < 16 \<Longrightarrow> vn_used (fs ! i) \<longleftrightarrow> i < nused fs"
    "filter vn_used fs = take (nused fs) fs" by simp_all
qed

lemma files_eq: "vfs_inv fs \<Longrightarrow> files fs = map file_of (take (nused fs) fs)"
  using used_prefix(3) by (simp add: files_def)

lemma create_loop_at:
  assumes inv: "vfs_inv fs" and "i \<le> nused fs"
  shows "vfs_create_loop i name data sz fs =
    (if nused fs < 16 then (True, fs[nused fs := \<lparr>vn_name = strncpy_local (vn_name (fs ! nused fs)) name 32,
       vn_data = data, vn_size = sz, vn_used = True\<rparr>]) else (False, fs))"
  using assms(2)
proof (induction "nused fs - i" arbitrary: i)
  case 0
  then have "i = nused fs" by simp
  then show ?case using used_prefix(1,2) [OF inv] by (subst vfs_create_loop.simps) (simp add: const_defs)
next
  case (Suc d)
  then have "i < nused fs" "d = nused fs - Suc i" by simp_all
  then show ?case
    using Suc.hyps(1) [of "Suc i"] used_prefix(1,2) [OF inv]
    by (subst vfs_create_loop.simps) (simp add: const_defs)
qed

lemma vfs_create_spec:
  assumes inv: "vfs_inv fs"
  shows "nused fs = 16 \<Longrightarrow> vfs_create_file name data sz fs = (False, fs)"
    "nused fs < 16 \<Longrightarrow> \<exists>fs'. vfs_create_file name data sz fs = (True, fs') \<and> vfs_inv fs' \<and>
       files fs' = files fs @ [(take 31 (cstr name), data, sz)]"
proof -
  note C = create_loop_at [OF inv, of 0 name data sz, folded vfs_create_file_def, simplified]
  show "vfs_create_file name data sz fs = (False, fs)" if "nused fs = 16" using C that by simp
  let ?n = "nused fs"
  let ?node = "\<lparr>vn_name = strncpy_local (vn_name (fs ! ?n)) name 32, vn_data = data, vn_size = sz, vn_used = True\<rparr>"
  assume lt: "?n < 16"
  have len: "length fs = 16" "length (vn_name (fs ! ?n)) = 32" using inv lt by (auto simp: inv_defs)
  note cp = strncpy_local_spec [OF len(2), of name, simplified]
  have u: "vn_used (fs[?n := ?node] ! i) \<longleftrightarrow> i < Suc ?n" if "i < 16" for i
    using used_prefix(2) [OF inv that] lt len that by (auto simp: nth_list_update)
  have inv': "vfs_inv (fs[?n := ?node])"
    unfolding vfs_inv_def
  proof (intro conjI)
    show "length (fs[?n := ?node]) = 16" using len by simp
    show "\<forall>n \<in> set (fs[?n := ?node]). length (vn_name n) = 32"
      using inv cp set_update_subset_insert [of fs ?n ?node] by (auto simp: inv_defs)
    show "\<exists>k \<le> 16. \<forall>i < 16. vn_used (fs[?n := ?node] ! i) \<longleftrightarrow> i < k"
      using u lt by (intro exI [of _ "Suc ?n"]) simp
  qed
  have "nused (fs[?n := ?node]) = Suc ?n"
    by (rule prefix_unique [of _ 16]) (use used_prefix(1,2) [OF inv'] u lt in simp_all)
  then have "files (fs[?n := ?node]) = files fs @ [file_of ?node]"
    using files_eq [OF inv'] files_eq [OF inv] lt len by (simp add: take_Suc_conv_app_nth take_update_swap list_update_append)
  with inv' lt C cp show "\<exists>fs'. vfs_create_file name data sz fs = (True, fs') \<and> vfs_inv fs' \<and>
       files fs' = files fs @ [(take 31 (cstr name), data, sz)]"
    by (simp add: file_of_def)
qed

lemma open_loop_at:
  assumes inv: "vfs_inv fs"
  shows "i \<le> 16 \<Longrightarrow> map_option (\<lambda>j. file_of (fs ! j)) (vfs_open_loop i f fs) =
    List.find (\<lambda>n. fst n = cstr f) (map file_of (filter vn_used (drop i fs)))"
proof (induction "16 - i" arbitrary: i)
  case 0
  then show ?case using inv by (subst vfs_open_loop.simps) (simp add: const_defs inv_defs)
next
  case (Suc d)
  then have i: "i < 16" "d = 16 - Suc i" by simp_all
  have "drop i fs = fs ! i # drop (Suc i) fs" using i(1) inv by (simp add: inv_defs Cons_nth_drop_Suc)
  with Suc.hyps(1) [of "Suc i"] i show ?case
    by (subst vfs_open_loop.simps) (auto simp: const_defs streql_iff file_of_def)
qed

lemma vfs_open_files:
  assumes "vfs_inv fs"
  shows "map_option (\<lambda>i. file_of (fs ! i)) (vfs_open f fs) = List.find (\<lambda>n. fst n = cstr f) (files fs)"
  using open_loop_at [OF assms, of 0 f] by (simp add: vfs_open_def files_def)

subsection \<open>The interface of a file store\<close>

text \<open>What the shell relies on: an association list with at most \<open>cap\<close> entries.\<close>

locale file_store =
  fixes create :: "string \<Rightarrow> string \<Rightarrow> u64 \<Rightarrow> 's \<Rightarrow> bool \<times> 's"
    and lookup :: "string \<Rightarrow> 's \<Rightarrow> (string \<times> string \<times> u64) option"
    and entries :: "'s \<Rightarrow> (string \<times> string \<times> u64) list"
    and inv :: "'s \<Rightarrow> bool" and cap :: nat and cut :: nat
  assumes create_full: "inv s \<Longrightarrow> length (entries s) = cap \<Longrightarrow> create n d z s = (False, s)"
    and create_adds: "inv s \<Longrightarrow> length (entries s) < cap \<Longrightarrow>
      \<exists>s'. create n d z s = (True, s') \<and> inv s' \<and> entries s' = entries s @ [(take cut (cstr n), d, z)]"
    and entries_bound: "inv s \<Longrightarrow> length (entries s) \<le> cap"
    and lookup_first: "inv s \<Longrightarrow> lookup f s = List.find (\<lambda>e. fst e = cstr f) (entries s)"
begin

lemma find_append:
  "List.find P (xs @ ys) = (case List.find P xs of None \<Rightarrow> List.find P ys | Some x \<Rightarrow> Some x)"
  by (induction xs) auto

lemma create_lookup:
  assumes "inv s" "length (entries s) < cap"
  shows "\<exists>s'. create n d z s = (True, s') \<and> inv s' \<and>
    (\<forall>f. lookup f s' = (case lookup f s of Some e \<Rightarrow> Some e
       | None \<Rightarrow> if cstr f = take cut (cstr n) then Some (take cut (cstr n), d, z) else None))"
  using create_adds [OF assms, of n d z] lookup_first assms(1)
  by (fastforce simp: find_append split: option.splits)

lemma create_list:
  assumes "inv s" "length (entries s) + length xs \<le> cap"
  shows "inv (fold (\<lambda>(n, d, z) s. snd (create n d z s)) xs s) \<and>
    entries (fold (\<lambda>(n, d, z) s. snd (create n d z s)) xs s) =
      entries s @ map (\<lambda>(n, d, z). (take cut (cstr n), d, z)) xs"
  using assms
proof (induction xs arbitrary: s)
  case (Cons x xs)
  obtain n d z where x: "x = (n, d, z)" by (cases x)
  obtain s' where "create n d z s = (True, s')" "inv s'" "entries s' = entries s @ [(take cut (cstr n), d, z)]"
    using create_adds [OF Cons.prems(1), of n d z] Cons.prems(2) by auto
  with Cons.IH [of s'] Cons.prems(2) x show ?case by simp
qed simp

end

definition vfs_lookup :: "string \<Rightarrow> vfs \<Rightarrow> (string \<times> string \<times> u64) option" where
  "vfs_lookup f fs = map_option (\<lambda>i. file_of (fs ! i)) (vfs_open f fs)"

interpretation vfs: file_store vfs_create_file vfs_lookup files vfs_inv 16 31
proof
  fix s :: vfs and n d z f
  assume inv: "vfs_inv s"
  show "length (files s) = 16 \<Longrightarrow> vfs_create_file n d z s = (False, s)"
    using vfs_create_spec(1) [OF inv] by (simp add: nused_def)
  show "length (files s) < 16 \<Longrightarrow> \<exists>s'. vfs_create_file n d z s = (True, s') \<and> vfs_inv s' \<and>
      files s' = files s @ [(take 31 (cstr n), d, z)]"
    using vfs_create_spec(2) [OF inv] by (simp add: nused_def)
  show "length (files s) \<le> 16" using used_prefix(1) [OF inv] by (simp add: nused_def)
  show "vfs_lookup f s = List.find (\<lambda>e. fst e = cstr f) (files s)"
    using vfs_open_files [OF inv] by (simp add: vfs_lookup_def)
qed

subsection \<open>Initialisation and listing\<close>

definition init_files :: "(string \<times> string \<times> u64) list" where
  "init_files = [(''sysinfo.txt'', sysinfo_content, of_nat (length sysinfo_content)),
     (''readme.txt'', readme_content, of_nat (length readme_content)),
     (''credits.txt'', credits_content, of_nat (length credits_content))]"

lemma clear_used:
  "k \<le> length fs \<Longrightarrow> length (fold (\<lambda>i fs. fs[i := (fs ! i)\<lparr>vn_used := False\<rparr>]) [0..<k] fs) = length fs \<and>
    (\<forall>i < length fs. fold (\<lambda>i fs. fs[i := (fs ! i)\<lparr>vn_used := False\<rparr>]) [0..<k] fs ! i =
       (if i < k then (fs ! i)\<lparr>vn_used := False\<rparr> else fs ! i))"
  by (induction k) (auto simp: nth_list_update less_Suc_eq)

lemma vfs_init_spec:
  assumes "length fs = 16" "\<forall>n \<in> set fs. length (vn_name n) = 32"
  shows "vfs_inv (vfs_init fs) \<and> files (vfs_init fs) = init_files"
proof -
  define fs0 where "fs0 = fold (\<lambda>i fs. fs[i := (fs ! i)\<lparr>vn_used := False\<rparr>]) [0..<MAX_VFS_FILES] fs"
  have c: "length fs0 = 16" "\<And>i. i < 16 \<Longrightarrow> fs0 ! i = (fs ! i)\<lparr>vn_used := False\<rparr>"
    using clear_used [of 16 fs] assms(1) by (simp_all add: fs0_def const_defs)
  have inv0: "vfs_inv fs0"
    unfolding vfs_inv_def
  proof (intro conjI)
    show "\<forall>n \<in> set fs0. length (vn_name n) = 32"
      using c assms nth_mem [of _ fs] by (auto simp: in_set_conv_nth [of _ fs0])
  qed (use c in \<open>auto intro!: exI [of _ 0]\<close>)
  have f0: "files fs0 = []" using c by (auto simp: files_def filter_empty_conv in_set_conv_nth)
  have "vfs_init fs = fold (\<lambda>(n, d, z) s. snd (vfs_create_file n d z s)) init_files fs0"
    by (simp add: vfs_init_def Let_def init_files_def fs0_def)
  then show ?thesis using vfs.create_list [OF inv0, of init_files] f0 by (simp add: init_files_def)
qed

lemma list_loop_at:
  assumes inv: "vfs_inv fs"
  shows "i \<le> 16 \<Longrightarrow> length out = min i (nused fs) \<Longrightarrow> out = [0..<min i (nused fs)] \<Longrightarrow> length out \<le> mx \<Longrightarrow>
    vfs_list_loop i out mx fs = [0..<min mx (nused fs)]"
proof (induction "16 - i" arbitrary: i out)
  case 0
  then show ?case using used_prefix(1) [OF inv] by (subst vfs_list_loop.simps) (auto simp: const_defs min_def)
next
  case (Suc d)
  then have i: "i < 16" "d = 16 - Suc i" by simp_all
  show ?case
  proof (cases "length out < mx")
    case True
    have u: "vn_used (fs ! i) \<longleftrightarrow> i < nused fs" using used_prefix(2) [OF inv i(1)] .
    have "vfs_list_loop i out mx fs = vfs_list_loop (Suc i) (if i < nused fs then out @ [i] else out) mx fs"
      using True i u by (subst vfs_list_loop.simps) (simp add: const_defs)
    also have "\<dots> = [0..<min mx (nused fs)]"
      by (rule Suc.hyps(1)) (use Suc.prems True i in \<open>auto simp: min_def\<close>)
    finally show ?thesis .
  next
    case False
    then show ?thesis using Suc.prems by (subst vfs_list_loop.simps) (auto simp: min_def)
  qed
qed

lemma demo_vfs: "vfs_inv (vfs_init vfs_boot)" "files (vfs_init vfs_boot) = init_files"
  using vfs_init_spec [of vfs_boot] by (simp_all add: vfs_boot_def const_defs)

subsection \<open>Properties\<close>

text \<open>
  Claim C30. Creating a file on a table with a free node succeeds; afterwards every name that could be
  opened before still opens the same file, the new name cut to 31 characters opens the new contents
  unless it was taken, and no other name opens anything new.  With sixteen files it fails and changes
  nothing.
\<close>

theorem vfs_create_open:
  assumes "vfs_inv fs"
  shows "if nused fs = 16 then vfs_create_file n d z fs = (False, fs)
    else \<exists>fs'. vfs_create_file n d z fs = (True, fs') \<and> vfs_inv fs' \<and> nused fs' = nused fs + 1 \<and>
      (\<forall>f. vfs_lookup f fs' = (case vfs_lookup f fs of Some e \<Rightarrow> Some e
        | None \<Rightarrow> if cstr f = take 31 (cstr n) then Some (take 31 (cstr n), d, z) else None))"
proof (cases "nused fs = 16")
  case True
  then show ?thesis using vfs.create_full [OF assms] by (simp add: nused_def)
next
  case False
  then have lt: "length (files fs) < 16" using used_prefix(1) [OF assms] by (simp add: nused_def)
  show ?thesis
    using vfs.create_lookup [OF assms lt, of n d z] vfs.create_adds [OF assms lt, of n d z] False
    by (auto simp: nused_def)
qed

theorem vfs_create_open_witness:
  "vfs_lookup ''notes.txt'' (snd (vfs_create_file ''notes.txt'' ''hi'' 2 (vfs_init vfs_boot))) =
     Some (''notes.txt'', ''hi'', 2)"
  using vfs_create_open [OF demo_vfs(1), of "''notes.txt''" "''hi''" 2] demo_vfs(2)
  by (auto simp: vfs.lookup_first [OF demo_vfs(1)] init_files_def nused_def)

text \<open>
  Initialisation leaves exactly the three built-in files, with sizes equal to the lengths of
  their contents, whatever the table held before; listing returns the nodes in use in order of
  creation, at most as many as asked for.
\<close>

lemma vfs_init_list:
  assumes "length fs = 16" "\<forall>n \<in> set fs. length (vn_name n) = 32"
  shows "vfs_inv (vfs_init fs) \<and> files (vfs_init fs) = init_files \<and>
    (\<forall>(n, d, z) \<in> set init_files. unat z = length d) \<and>
    map (\<lambda>i. file_of (vfs_init fs ! i)) (vfs_list k (vfs_init fs)) = take k init_files"
proof -
  note I = vfs_init_spec [OF assms]
  have z: "\<forall>(n, d, z) \<in> set init_files. unat z = length d"
    by (simp add: init_files_def sysinfo_content_def readme_content_def credits_content_def)
  have n: "nused (vfs_init fs) = 3" using I by (simp add: nused_def init_files_def)
  have "vfs_list k (vfs_init fs) = [0..<min k 3]"
    using list_loop_at [of "vfs_init fs" 0 "[]" k] I n by (simp add: vfs_list_def)
  moreover have "map (\<lambda>i. file_of (vfs_init fs ! i)) [0..<min k 3] = take k init_files"
  proof -
    have len: "length (vfs_init fs) = 16" using I by (simp add: inv_defs)
    have "init_files = map file_of (take 3 (vfs_init fs))" using I files_eq [of "vfs_init fs"] n by simp
    moreover have "map (\<lambda>i. file_of (vfs_init fs ! i)) [0..<min k 3] = take k (map file_of (take 3 (vfs_init fs)))"
      by (rule nth_equalityI) (use len in auto)
    ultimately show ?thesis by simp
  qed
  ultimately show ?thesis using I z by simp
qed

text \<open>
  A name of more than 31 characters is cut, so the file cannot be opened under the name it was created
  with.
\<close>

lemma vfs_long_name_lost:
  assumes "vfs_inv fs" "nused fs < 16" "31 < length (cstr n)" "vfs_lookup n fs = None"
  shows "\<exists>fs'. vfs_create_file n d z fs = (True, fs') \<and> vfs_lookup n fs' = None"
proof -
  have "cstr n \<noteq> take 31 (cstr n)" using assms(3) by (metis length_take min.absorb4 nat_neq_iff)
  then show ?thesis
    using vfs.create_lookup [OF assms(1), of n d z] assms(2,4) by (auto simp: nused_def)
qed

end
