(* ===== verification/Kernel.thy ===== *)
theory Kernel
  imports Isr Irq Vfs
begin

section \<open>The kernel as a whole\<close>

text \<open>
  The static state of all components in one record, as the shell and the boot sequence see it, and the text
  output that they share: the screen through \<open>fb_print\<close> and the serial line through \<open>print_serial\<close>, both of
  them sinks for text (\<open>text_sink\<close>).  \<open>performs P as\<close> says that the code \<open>P\<close> has exactly the visible effect of the
  list of output actions \<open>as\<close>; it composes along sequences of calls.
\<close>

record kernel =
  k_io :: io
  k_fb :: fbcon
  k_panic :: panic
  k_pmm :: pmm
  k_heap :: heap
  k_pit :: pit
  k_kbd :: kbd
  k_sched :: sched
  k_vfs :: vfs
  k_cpu :: cpu
  k_gdt :: "gdt_state option"
  k_idt :: "idt_state option"

text \<open>
  The static initial values, with the memory and the processor as the loader leaves them and the descriptor
  tables not loaded yet.
\<close>

definition kernel_boot :: "memory \<Rightarrow> cpu \<Rightarrow> kernel" where
  "kernel_boot mem c =
     \<lparr>k_io = [], k_fb = fb_boot, k_panic = panic_boot, k_pmm = pmm_boot, k_heap = \<lparr>hmem = mem, s_head = 0\<rparr>,
      k_pit = \<lparr>pit_s_ticks = 0\<rparr>, k_kbd = kbd_boot, k_sched = sched_boot, k_vfs = vfs_boot, k_cpu = c,
      k_gdt = None, k_idt = None\<rparr>"

text \<open>How a call ends: it does not return, the machine has been stopped by a panic or told to reset, or it returns.\<close>

datatype outcome = Hangs | Panicked kernel | Rebooting kernel | Returns kernel

definition returns :: "kernel option \<Rightarrow> outcome" where
  "returns r = (case r of None \<Rightarrow> Hangs | Some k \<Rightarrow> Returns k)"

definition panics :: "device \<Rightarrow> string \<Rightarrow> kernel \<Rightarrow> outcome" where
  "panics dev message k =
     (case kernel_panic dev (k_panic k) message (k_cpu k, k_io k, fb_pix (k_fb k)) of
        None \<Rightarrow> Hangs
      | Some (c, w, px) \<Rightarrow> Panicked (k\<lparr>k_cpu := c, k_io := w, k_fb := (k_fb k)\<lparr>fb_pix := px\<rparr>\<rparr>))"

subsection \<open>Calls on the console\<close>

definition serial :: "device \<Rightarrow> string \<Rightarrow> kernel \<Rightarrow> kernel option" where
  "serial dev s k = do { w \<leftarrow> print_serial dev s (k_io k); Some (k\<lparr>k_io := w\<rparr>) }"

definition print_both :: "device \<Rightarrow> string \<Rightarrow> kernel \<Rightarrow> kernel option" where
  "print_both dev s k =
     do { f \<leftarrow> fb_print s (k_fb k); w \<leftarrow> print_serial dev s (k_io k); Some (k\<lparr>k_fb := f, k_io := w\<rparr>) }"

definition print_dec :: "string \<Rightarrow> u64 \<Rightarrow> kernel \<Rightarrow> kernel option" where
  "print_dec prefix v k = do { f \<leftarrow> fb_print_dec prefix v (k_fb k); Some (k\<lparr>k_fb := f\<rparr>) }"

definition set_color :: "u32 \<Rightarrow> u32 \<Rightarrow> kernel \<Rightarrow> kernel option" where
  "set_color fg bg k = Some (k\<lparr>k_fb := fb_set_color fg bg (k_fb k)\<rparr>)"

definition clear_screen :: "kernel \<Rightarrow> kernel option" where
  "clear_screen k = Some (k\<lparr>k_fb := fb_clear (k_fb k)\<rparr>)"

definition put_char :: "char \<Rightarrow> kernel \<Rightarrow> kernel option" where
  "put_char c k = do { f \<leftarrow> fb_putchar c (k_fb k); Some (k\<lparr>k_fb := f\<rparr>) }"

subsection \<open>Text sinks\<close>

text \<open>Where text goes: printing returns, unless a tab occurs, and appends to what the sink shows.\<close>

locale text_sink =
  fixes put :: "string \<Rightarrow> 's \<Rightarrow> 's option"
    and rep :: "'s \<Rightarrow> 't \<Rightarrow> bool"
    and app :: "string \<Rightarrow> 't \<Rightarrow> 't"
  assumes put_app: "rep s t \<Longrightarrow> CHR 0x09 \<notin> set (cstr x) \<Longrightarrow> \<exists>s'. put x s = Some s' \<and> rep s' (app x t)"

locale two_sinks = a: text_sink put1 rep1 app1 + b: text_sink put2 rep2 app2
  for put1 :: "string \<Rightarrow> 's \<Rightarrow> 's option" and rep1 :: "'s \<Rightarrow> 't \<Rightarrow> bool" and app1
    and put2 :: "string \<Rightarrow> 'u \<Rightarrow> 'u option" and rep2 :: "'u \<Rightarrow> 'v \<Rightarrow> bool" and app2
begin

lemma put_both:
  assumes "rep1 s t" "rep2 u v" "CHR 0x09 \<notin> set (cstr x)"
  obtains s' u' where "put1 x s = Some s'" "rep1 s' (app1 x t)" "put2 x u = Some u'" "rep2 u' (app2 x v)"
  using a.put_app [OF assms(1,3)] b.put_app [OF assms(2,3)] by blast

end

definition screen_rep :: "fbcon \<Rightarrow> fbcon \<Rightarrow> con \<Rightarrow> bool" where
  "screen_rep f0 f c \<longleftrightarrow> con_rep f c \<and> fb_frame f0 f"

definition serial_rep :: "device \<Rightarrow> io \<Rightarrow> io \<Rightarrow> string \<Rightarrow> bool" where
  "serial_rep dev w0 w t \<longleftrightarrow> uart_live dev \<and> sent t w0 w"

definition serial_app :: "string \<Rightarrow> string \<Rightarrow> string" where
  "serial_app x t = t @ cstr x"

interpretation sinks: two_sinks fb_print "screen_rep f0" con_print "print_serial dev" "serial_rep dev w0" serial_app
proof
  show "\<exists>s'. fb_print x s = Some s' \<and> screen_rep f0 s' (con_print x t)"
    if "screen_rep f0 s t" "CHR 0x09 \<notin> set (cstr x)" for s t x
    using that con_rep_print [of s t x] fb_frame_trans by (auto simp: screen_rep_def)
  show "\<exists>s'. print_serial dev x s = Some s' \<and> serial_rep dev w0 s' (serial_app x t)"
    if "serial_rep dev w0 s t" for s t x
    using that print_serial_sent [of dev x s] sent_trans by (auto simp: serial_rep_def serial_app_def)
qed

subsection \<open>Output actions\<close>

datatype act = Color u32 u32 | Both string | Screen string | Line string | Blank

fun act_step :: "act \<Rightarrow> con \<times> string \<Rightarrow> con \<times> string" where
  "act_step (Color fg bg) (c, t) = (c\<lparr>cfg := fg, cbg := bg\<rparr>, t)"
| "act_step (Both s) (c, t) = (con_print s c, serial_app s t)"
| "act_step (Screen s) (c, t) = (con_print s c, t)"
| "act_step (Line s) (c, t) = (c, serial_app s t)"
| "act_step Blank (c, t) = (con_blank (nrows c) (ncols c) (cfg c) (cbg c), t)"

text \<open>The console states reached from \<open>k0\<close>: nothing but the screen and the serial line has changed.\<close>

definition krep :: "device \<Rightarrow> kernel \<Rightarrow> kernel \<Rightarrow> con \<times> string \<Rightarrow> bool" where
  "krep dev k0 k ct \<longleftrightarrow> (\<exists>f w. k = k0\<lparr>k_fb := f, k_io := w\<rparr> \<and>
     screen_rep (k_fb k0) f (fst ct) \<and> serial_rep dev (k_io k0) w (snd ct))"

definition performs :: "device \<Rightarrow> (kernel \<Rightarrow> kernel option) \<Rightarrow> act list \<Rightarrow> bool" where
  "performs dev P as \<longleftrightarrow> (\<forall>k0 k ct. krep dev k0 k ct \<longrightarrow> (\<exists>k'. P k = Some k' \<and> krep dev k0 k' (fold act_step as ct)))"

named_theorems performs_rules \<open>output of the console calls\<close>

lemma krepE:
  assumes "krep dev k0 k ct"
  obtains f w c t where "k = k0\<lparr>k_fb := f, k_io := w\<rparr>" "ct = (c, t)" "screen_rep (k_fb k0) f c" "serial_rep dev (k_io k0) w t"
  using assms unfolding krep_def by (cases ct) auto

lemma krepI: "screen_rep (k_fb k0) f c \<Longrightarrow> serial_rep dev (k_io k0) w t \<Longrightarrow> krep dev k0 (k0\<lparr>k_fb := f, k_io := w\<rparr>) (c, t)"
  unfolding krep_def by auto

lemma performs_bind [performs_rules]:
  assumes "performs dev P as" "performs dev Q bs"
  shows "performs dev (\<lambda>k. Option.bind (P k) Q) (as @ bs)"
  unfolding performs_def
proof (intro allI impI)
  fix k0 k ct assume "krep dev k0 k ct"
  then obtain k1 where k1: "P k = Some k1" "krep dev k0 k1 (fold act_step as ct)"
    using assms(1) unfolding performs_def by blast
  then obtain k2 where "Q k1 = Some k2" "krep dev k0 k2 (fold act_step bs (fold act_step as ct))"
    using assms(2) unfolding performs_def by blast
  with k1(1) show "\<exists>k'. Option.bind (P k) Q = Some k' \<and> krep dev k0 k' (fold act_step (as @ bs) ct)" by simp
qed

lemma performs_Some [performs_rules]: "performs dev Some []"
  by (simp add: performs_def)

lemma performs_both [performs_rules]:
  assumes "CHR 0x09 \<notin> set (cstr s)"
  shows "performs dev (print_both dev s) [Both (cstr s)]"
  unfolding performs_def
proof (intro allI impI)
  fix k0 k ct assume "krep dev k0 k ct"
  then obtain f w c t where k: "k = k0\<lparr>k_fb := f, k_io := w\<rparr>" "ct = (c, t)" "screen_rep (k_fb k0) f c" "serial_rep dev (k_io k0) w t"
    by (rule krepE)
  obtain f' w' where "fb_print s f = Some f'" "screen_rep (k_fb k0) f' (con_print s c)"
    "print_serial dev s w = Some w'" "serial_rep dev (k_io k0) w' (serial_app s t)"
    by (rule sinks.put_both [OF k(3,4) assms])
  then show "\<exists>k'. print_both dev s k = Some k' \<and> krep dev k0 k' (fold act_step [Both (cstr s)] ct)"
    using krepI [of k0 f' "con_print s c" dev w'] k(1,2)
    by (simp add: print_both_def con_print_def serial_app_def)
qed

lemma performs_serial [performs_rules]: "performs dev (serial dev s) [Line (cstr s)]"
  unfolding performs_def
proof (intro allI impI)
  fix k0 k ct assume "krep dev k0 k ct"
  then obtain f w c t where k: "k = k0\<lparr>k_fb := f, k_io := w\<rparr>" "ct = (c, t)" "screen_rep (k_fb k0) f c" "serial_rep dev (k_io k0) w t"
    by (rule krepE)
  obtain w' where "print_serial dev s w = Some w'" "sent (cstr s) w w'"
    using print_serial_sent [of dev s w] k(4) by (auto simp: serial_rep_def)
  then show "\<exists>k'. serial dev s k = Some k' \<and> krep dev k0 k' (fold act_step [Line (cstr s)] ct)"
    using krepI [OF k(3), of dev w' "serial_app s t"] k sent_trans [of t "k_io k0" w "cstr s" w']
    by (simp add: serial_def serial_rep_def serial_app_def)
qed

lemma screen_call:
  assumes "krep dev k0 k (c, t)" "\<And>f. screen_rep (k_fb k0) f c \<Longrightarrow> \<exists>g. F f = Some g \<and> screen_rep (k_fb k0) g c'"
  shows "\<exists>k'. (do { g \<leftarrow> F (k_fb k); Some (k\<lparr>k_fb := g\<rparr>) }) = Some k' \<and> krep dev k0 k' (c', t)"
proof -
  obtain f w where k: "k = k0\<lparr>k_fb := f, k_io := w\<rparr>" "screen_rep (k_fb k0) f c" "serial_rep dev (k_io k0) w t"
    using assms(1) unfolding krep_def by auto
  obtain g where "F f = Some g" "screen_rep (k_fb k0) g c'" using assms(2) [OF k(2)] by blast
  moreover have "k\<lparr>k_fb := g\<rparr> = k0\<lparr>k_fb := g, k_io := w\<rparr>" unfolding k(1) by simp
  ultimately show ?thesis using krepI [of k0 g c' dev w t] k by (metis bind.bind_lunit kernel.select_convs(2) kernel.surjective kernel.update_convs(1) kernel.update_convs(2))
qed

lemma performs_dec [performs_rules]:
  assumes "CHR 0x09 \<notin> set (cstr p)"
  shows "performs dev (print_dec p v) [Screen (cstr p @ dec_string v @ [CHR 0x0A])]"
proof -
  have "x \<noteq> CHR 0x09 \<and> x \<noteq> NUL" if "x \<in> set (dec_string v)" for x
    using that dec_string_spec(1) [of v] isdigit_plain by (auto simp: list_all_iff)
  note plain = this
  have "CHR 0x09 \<notin> set (cstr p @ dec_string v @ [CHR 0x0A])" using assms plain by auto
  then have "CHR 0x09 \<notin> set (cstr (cstr p @ dec_string v @ [CHR 0x0A]))"
    unfolding cstr_def [of "_ @ _"] by (metis set_takeWhileD)
  then have "\<exists>g. fb_print_dec p v f = Some g \<and> screen_rep f0 g (con_print (cstr p @ dec_string v @ [CHR 0x0A]) c)"
    if "screen_rep f0 f c" for f0 f c
    using sinks.a.put_app [OF that] by (simp add: fb_print_dec_eq)
  then show ?thesis
    unfolding performs_def print_dec_def by (auto intro!: screen_call)
qed

lemma performs_color [performs_rules]: "performs dev (set_color fg bg) [Color fg bg]"
proof -
  have "screen_rep f0 (fb_set_color fg bg f) (c\<lparr>cfg := fg, cbg := bg\<rparr>)" if "screen_rep f0 f c" for f0 f c
    using that con_rep_color fb_frame_trans by (auto simp: screen_rep_def)
  then show ?thesis
    unfolding performs_def set_color_def using screen_call [where F = "\<lambda>f. Some (fb_set_color fg bg f)"] by fastforce
qed

lemma performs_clear [performs_rules]: "performs dev clear_screen [Blank]"
proof -
  have "screen_rep f0 (fb_clear f) (con_blank (nrows c) (ncols c) (cfg c) (cbg c))" if "screen_rep f0 f c" for f0 f c
  proof -
    have "fb_geom f" "nrows c = fh f div 10" "ncols c = fw f div 8" "cfg c = s_fg f" "cbg c = s_bg f"
      using that by (auto simp: screen_rep_def con_rep_def inv_defs)
    then show ?thesis using con_rep_clear [of f] that fb_frame_trans by (auto simp: screen_rep_def)
  qed
  then show ?thesis
    unfolding performs_def clear_screen_def using screen_call [where F = "\<lambda>f. Some (fb_clear f)"] by fastforce
qed

lemma performs_put_char [performs_rules]:
  assumes "ch \<noteq> CHR 0x09" "ch \<noteq> NUL"
  shows "performs dev (put_char ch) [Screen [ch]]"
proof -
  have "\<exists>g. fb_putchar ch f = Some g \<and> screen_rep f0 g (con_print [ch] c)" if "screen_rep f0 f c" for f0 f c
    using that con_rep_putchar [of f c ch] assms fb_frame_trans by (auto simp: screen_rep_def con_print_def)
  then show ?thesis unfolding performs_def put_char_def by (auto intro!: screen_call)
qed

lemma krep_refl: "con_rep (k_fb k) c \<Longrightarrow> uart_live dev \<Longrightarrow> krep dev k k (c, [])"
  unfolding krep_def by (intro exI [of _ "k_fb k"] exI [of _ "k_io k"]) (simp add: screen_rep_def serial_rep_def)

lemma performs_start:
  assumes "performs dev P as" "con_rep (k_fb k) c" "uart_live dev"
  obtains k' where "P k = Some k'" "krep dev k k' (fold act_step as (c, []))"
  using assms krep_refl [OF assms(2,3)] unfolding performs_def by blast

lemma krep_kbd: "krep dev k0 k ct \<Longrightarrow> krep dev (k0\<lparr>k_kbd := b\<rparr>) (k\<lparr>k_kbd := b\<rparr>) ct"
  unfolding krep_def by force

lemma krep_fields:
  assumes "krep dev k0 k ct"
  shows "k_kbd k = k_kbd k0" "k_vfs k = k_vfs k0" "k_pmm k = k_pmm k0" "k_heap k = k_heap k0" "k_pit k = k_pit k0"
    "k_sched k = k_sched k0" "k_cpu k = k_cpu k0" "k_panic k = k_panic k0" "con_rep (k_fb k) (fst ct)" "uart_live dev"
  using assms by (auto simp: krep_def screen_rep_def serial_rep_def)

text \<open>The screen does not depend on what was sent before, and the line is only appended to.\<close>

lemma fst_acts: "fst (fold act_step as (c, t)) = fst (fold act_step as (c, u))"
proof (induction as arbitrary: c t u)
  case (Cons a as)
  then show ?case by (cases a) simp_all
qed simp

lemma snd_acts: "snd (fold act_step as (c, t)) = t @ snd (fold act_step as (c, []))"
proof (induction as arbitrary: c t)
  case (Cons a as)
  show ?case
    using Cons.IH [of _ "t @ cstr _"] Cons.IH [of _ "cstr _"] Cons.IH [of _ t] by (cases a) (simp_all add: serial_app_def)
qed simp

end
