(* ===== verification/Shell.thy ===== *)
theory Shell
  imports Kernel
begin

section \<open>The shell\<close>

text \<open>
  \<open>kernel/shell/shell.cpp\<close>: the commands, \<open>shell_execute\<close>, \<open>shell_init\<close> and the body of the loop of \<open>shell_task\<close>.  The
  static buffer and index of \<open>shell_task\<close> are the record \<open>shell\<close>.  \<open>oob\<close> is the byte that the \<open>cat\<close> command reads
  when it looks at the last character of an empty file, which lies outside the file.  The loop itself, which
  executes \<open>hlt\<close> after each round, is in theory \<open>System\<close>, with the interrupts that come in between.
\<close>

subsection \<open>Strings\<close>

fun skip_spaces :: "string \<Rightarrow> string" where
  "skip_spaces [] = []"
| "skip_spaces (c # s) = (if c = CHR '' '' then skip_spaces s else c # s)"

fun strstarts :: "string \<Rightarrow> string \<Rightarrow> bool" where
  "strstarts str [] = True"
| "strstarts str (p # ps) =
     (if p = NUL then True else if deref str \<noteq> p then False else strstarts (tl str) ps)"

subsection \<open>Commands\<close>

definition shell_help :: "device \<Rightarrow> kernel \<Rightarrow> kernel option" where
  "shell_help dev k =
     do {
       k \<leftarrow> set_color COLOR_CYAN COLOR_DARK k;
       k \<leftarrow> print_both dev (''Available NovaOS Shell Commands:'' @ [LF]) k;
       k \<leftarrow> set_color COLOR_WHITE COLOR_DARK k;
       k \<leftarrow> print_both dev (''  help       - Display this assistance list'' @ [LF]) k;
       k \<leftarrow> print_both dev (''  clear      - Clear the screen console'' @ [LF]) k;
       k \<leftarrow> print_both dev (''  meminfo    - Show physical memory & heap statistics'' @ [LF]) k;
       k \<leftarrow> print_both dev (''  ticks      - Show system PIT timer tick count'' @ [LF]) k;
       k \<leftarrow> print_both dev (''  tasks      - List active kernel tasks'' @ [LF]) k;
       k \<leftarrow> print_both dev (''  ls         - List files in virtual filesystem'' @ [LF]) k;
       k \<leftarrow> print_both dev (''  cat <file> - Display contents of a file'' @ [LF]) k;
       k \<leftarrow> print_both dev (''  echo <txt> - Print text to console'' @ [LF]) k;
       k \<leftarrow> print_both dev (''  reboot     - Reset the computer'' @ [LF]) k;
       print_both dev (''  panic      - Test kernel panic red screen'' @ [LF]) k
     }"

definition shell_clear :: "device \<Rightarrow> kernel \<Rightarrow> kernel option" where
  "shell_clear dev k =
     do {
       k \<leftarrow> clear_screen k;
       k \<leftarrow> set_color COLOR_GREEN COLOR_DARK k;
       k \<leftarrow> print_both dev (''=== NovaOS Interactive Shell ==='' @ [LF]) k;
       set_color COLOR_WHITE COLOR_DARK k
     }"

definition shell_meminfo :: "kernel \<Rightarrow> kernel option" where
  "shell_meminfo k0 =
     do {
       k \<leftarrow> set_color COLOR_YELLOW COLOR_DARK k0;
       k \<leftarrow> print_dec ''PMM Free Pages : '' (pmm_free_pages (k_pmm k0)) k;
       k \<leftarrow> print_dec ''PMM Total Pages: '' (pmm_total_pages (k_pmm k0)) k;
       k \<leftarrow> print_dec ''PMM Used (KB)  : '' (pmm_used_bytes (k_pmm k0) div 1024) k;
       set_color COLOR_WHITE COLOR_DARK k
     }"

definition shell_ticks :: "kernel \<Rightarrow> kernel option" where
  "shell_ticks k0 =
     do {
       k \<leftarrow> set_color COLOR_YELLOW COLOR_DARK k0;
       k \<leftarrow> print_dec ''Timer Ticks: '' (pit_ticks (k_pit k0)) k;
       set_color COLOR_WHITE COLOR_DARK k
     }"

definition shell_tasks :: "kernel \<Rightarrow> kernel option" where
  "shell_tasks k0 =
     do {
       k \<leftarrow> set_color COLOR_YELLOW COLOR_DARK k0;
       k \<leftarrow> print_dec ''Active Tasks: '' (ucast (sched_task_count (k_sched k0))) k;
       k \<leftarrow> print_dec ''Current Task ID: '' (ucast (sched_current_id (k_sched k0))) k;
       set_color COLOR_WHITE COLOR_DARK k
     }"

fun shell_ls_loop :: "device \<Rightarrow> VFSNode list \<Rightarrow> kernel \<Rightarrow> kernel option" where
  "shell_ls_loop dev [] k = Some k"
| "shell_ls_loop dev (n # ns) k =
     do {
       k \<leftarrow> print_both dev ''  '' k;
       k \<leftarrow> print_both dev (vn_name n) k;
       k \<leftarrow> print_dec ''  ('' (vn_size n) k;
       k \<leftarrow> print_both dev ('' bytes)'' @ [LF]) k;
       shell_ls_loop dev ns k
     }"

definition shell_ls :: "device \<Rightarrow> kernel \<Rightarrow> kernel option" where
  "shell_ls dev k0 =
     do {
       k \<leftarrow> set_color COLOR_CYAN COLOR_DARK k0;
       k \<leftarrow> print_both dev (''RAM Disk Files:'' @ [LF]) k;
       k \<leftarrow> set_color COLOR_WHITE COLOR_DARK k;
       shell_ls_loop dev (map (\<lambda>i. k_vfs k0 ! i) (vfs_list 16 (k_vfs k0))) k
     }"

definition byte_at :: "char \<Rightarrow> string \<Rightarrow> u64 \<Rightarrow> char" where
  "byte_at oob data i = (if unat i < length data then data ! unat i else if unat i = length data then NUL else oob)"

definition shell_cat :: "device \<Rightarrow> char \<Rightarrow> string \<Rightarrow> kernel \<Rightarrow> kernel option" where
  "shell_cat dev oob cmdline k0 =
     (let fname = skip_spaces (drop 4 cmdline) in
      case vfs_open fname (k_vfs k0) of
        Some i \<Rightarrow>
          let node = k_vfs k0 ! i in
          do {
            k \<leftarrow> set_color COLOR_GREEN COLOR_DARK k0;
            k \<leftarrow> print_both dev (vn_data node) k;
            k \<leftarrow> (if byte_at oob (vn_data node) (vn_size node - 1) \<noteq> LF then print_both dev [LF] k else Some k);
            set_color COLOR_WHITE COLOR_DARK k
          }
      | None \<Rightarrow>
          do {
            k \<leftarrow> set_color COLOR_RED COLOR_DARK k0;
            k \<leftarrow> print_both dev ''File not found: '' k;
            k \<leftarrow> print_both dev fname k;
            k \<leftarrow> print_both dev [LF] k;
            set_color COLOR_WHITE COLOR_DARK k
          })"

definition shell_echo :: "device \<Rightarrow> string \<Rightarrow> kernel \<Rightarrow> kernel option" where
  "shell_echo dev cmdline k =
     do {
       k \<leftarrow> print_both dev (drop 5 cmdline) k;
       print_both dev [LF] k
     }"

text \<open>The reset pulse: the keyboard controller's command 0xFE on port 0x64; then the processor halts.\<close>

definition shell_reboot :: "device \<Rightarrow> kernel \<Rightarrow> outcome" where
  "shell_reboot dev k =
     (case print_both dev (''Rebooting system...'' @ [LF]) k of
        None \<Rightarrow> Hangs
      | Some k \<Rightarrow> Rebooting (k\<lparr>k_io := outb 0x64 0xFE (k_io k)\<rparr>))"

definition shell_unknown :: "device \<Rightarrow> string \<Rightarrow> kernel \<Rightarrow> kernel option" where
  "shell_unknown dev cmdline k =
     do {
       k \<leftarrow> set_color COLOR_RED COLOR_DARK k;
       k \<leftarrow> print_both dev (''Unknown command: '' @ [CHR 0x27]) k;
       k \<leftarrow> print_both dev cmdline k;
       k \<leftarrow> print_both dev ([CHR 0x27] @ ''. Type '' @ [CHR 0x27] @ ''help'' @ [CHR 0x27] @ '' for commands.'' @ [LF]) k;
       set_color COLOR_WHITE COLOR_DARK k
     }"

definition shell_execute :: "device \<Rightarrow> char \<Rightarrow> string \<Rightarrow> kernel \<Rightarrow> outcome" where
  "shell_execute dev oob cmdline k =
     (let cmdline = skip_spaces cmdline in
      if deref cmdline = NUL then Returns k
      else if streql cmdline ''help'' then returns (shell_help dev k)
      else if streql cmdline ''clear'' then returns (shell_clear dev k)
      else if streql cmdline ''meminfo'' then returns (shell_meminfo k)
      else if streql cmdline ''ticks'' then returns (shell_ticks k)
      else if streql cmdline ''tasks'' then returns (shell_tasks k)
      else if streql cmdline ''ls'' then returns (shell_ls dev k)
      else if strstarts cmdline ''cat '' then returns (shell_cat dev oob cmdline k)
      else if strstarts cmdline ''echo '' then returns (shell_echo dev cmdline k)
      else if streql cmdline ''reboot'' then shell_reboot dev k
      else if streql cmdline ''panic'' then panics dev ''Explicit user-triggered kernel panic via shell command!'' k
      else returns (shell_unknown dev cmdline k))"

definition shell_init :: "device \<Rightarrow> kernel \<Rightarrow> kernel option" where
  "shell_init dev k =
     do {
       k \<leftarrow> set_color COLOR_GREEN COLOR_DARK k;
       k \<leftarrow> print_both dev ([LF] @ ''=== NovaOS Interactive Shell ==='' @ [LF]) k;
       k \<leftarrow> set_color COLOR_WHITE COLOR_DARK k;
       print_both dev (''Type '' @ [CHR 0x27] @ ''help'' @ [CHR 0x27] @ '' to see available commands.'' @ [LF, LF]) k
     }"

subsection \<open>The loop\<close>

record shell =
  sh_buf :: string
  sh_idx :: u64

definition shell_boot :: shell where
  "shell_boot = \<lparr>sh_buf = replicate 128 NUL, sh_idx = 0\<rparr>"

definition shell_prompt :: "device \<Rightarrow> kernel \<Rightarrow> kernel option" where
  "shell_prompt dev k =
     do {
       k \<leftarrow> set_color COLOR_CYAN COLOR_DARK k;
       k \<leftarrow> print_both dev ''NovaOS> '' k;
       set_color COLOR_WHITE COLOR_DARK k
     }"

definition shell_enter :: "device \<Rightarrow> char \<Rightarrow> shell \<Rightarrow> kernel \<Rightarrow> shell \<times> outcome" where
  "shell_enter dev oob sh k =
     (case put_char LF k of
        None \<Rightarrow> (sh, Hangs)
      | Some k \<Rightarrow>
          let sh = sh\<lparr>sh_buf := (sh_buf sh)[unat (sh_idx sh) := NUL]\<rparr> in
          case shell_execute dev oob (sh_buf sh) k of
            Returns k \<Rightarrow> (sh\<lparr>sh_idx := 0\<rparr>, returns (shell_prompt dev k))
          | r \<Rightarrow> (sh, r))"

definition shell_key :: "device \<Rightarrow> char \<Rightarrow> char \<Rightarrow> shell \<Rightarrow> kernel \<Rightarrow> shell \<times> outcome" where
  "shell_key dev oob c sh k =
     (if c = LF then shell_enter dev oob sh k
      else if c = CHR 0x08
      then if 0 < sh_idx sh
           then let sh = sh\<lparr>sh_idx := sh_idx sh - 1\<rparr> in (sh, returns (put_char (CHR 0x08) k))
           else (sh, Returns k)
      else if 32 \<le> (of_char c :: nat) \<and> (of_char c :: nat) \<le> 126
      then if sh_idx sh < 128 - 1
           then let sh = sh\<lparr>sh_buf := (sh_buf sh)[unat (sh_idx sh) := c], sh_idx := sh_idx sh + 1\<rparr> in
                (sh, returns (put_char c k))
           else (sh, Returns k)
      else (sh, Returns k))"

definition shell_round :: "device \<Rightarrow> char \<Rightarrow> shell \<Rightarrow> kernel \<Rightarrow> shell \<times> outcome" where
  "shell_round dev oob sh k =
     (if keyboard_has_char (k_kbd k)
      then let (c, kb) = kb_take (k_kbd k) in shell_key dev oob c sh (k\<lparr>k_kbd := kb\<rparr>)
      else (sh, Returns k))"

subsection \<open>What the commands print\<close>

lemma cstr_skip_spaces: "cstr (skip_spaces s) = dropWhile (\<lambda>c. c = CHR '' '') (cstr s)"
  by (induction s) auto

lemma strstarts_iff: "strstarts s p \<longleftrightarrow> (\<exists>t. cstr s = cstr p @ t)"
proof (induction p arbitrary: s)
  case (Cons c p)
  then show ?case by (cases s) auto
qed simp

lemma cstr_drop_prefix: "cstr s = p @ t \<Longrightarrow> cstr (drop (length p) s) = t"
proof (induction p arbitrary: s)
  case (Cons c p)
  then show ?case by (cases s) (auto split: if_splits)
qed simp

lemma set_cstr_subset: "x \<in> set (cstr s) \<Longrightarrow> x \<in> set s"
  by (auto simp: cstr_def dest: set_takeWhileD)

text \<open>
  The reference: the reply to a command line as a list of output actions, computed from the characters of the
  line and the list of files.
\<close>

datatype reply = Reply "act list" | Reset "act list" | Stop string

definition help_text :: "string list" where
  "help_text = [''  help       - Display this assistance list'', ''  clear      - Clear the screen console'',
    ''  meminfo    - Show physical memory & heap statistics'', ''  ticks      - Show system PIT timer tick count'',
    ''  tasks      - List active kernel tasks'', ''  ls         - List files in virtual filesystem'',
    ''  cat <file> - Display contents of a file'', ''  echo <txt> - Print text to console'',
    ''  reboot     - Reset the computer'', ''  panic      - Test kernel panic red screen'']"

definition number_line :: "string \<Rightarrow> u64 \<Rightarrow> act" where
  "number_line label n = Screen (label @ dec_string n @ [LF])"

definition colored :: "u32 \<Rightarrow> act list \<Rightarrow> act list" where
  "colored fg as = Color fg COLOR_DARK # as @ [Color COLOR_WHITE COLOR_DARK]"

definition list_entry :: "string \<times> string \<times> u64 \<Rightarrow> act list" where
  "list_entry e = (case e of (n, d, z) \<Rightarrow>
     [Both ''  '', Both n, number_line ''  ('' z, Both ('' bytes)'' @ [LF])])"

text \<open>What the commands can see of the kernel.\<close>

record facts =
  f_files :: "(string \<times> string \<times> u64) list"
  f_free :: u64
  f_total :: u64
  f_ticks :: u64
  f_count :: u32
  f_current :: u32

definition kernel_facts :: "kernel \<Rightarrow> facts" where
  "kernel_facts k =
     \<lparr>f_files = files (k_vfs k), f_free = s_free_pages (k_pmm k), f_total = s_total_pages (k_pmm k),
      f_ticks = pit_ticks (k_pit k), f_count = s_count (k_sched k), f_current = s_current (k_sched k)\<rparr>"

definition shell_reply :: "char \<Rightarrow> string \<Rightarrow> facts \<Rightarrow> reply" where
  "shell_reply oob line i =
     (let line = dropWhile (\<lambda>c. c = CHR '' '') line; fs = f_files i in
      if line = [] then Reply []
      else if line = ''help'' then
        Reply (colored COLOR_CYAN [Both (''Available NovaOS Shell Commands:'' @ [LF])] @ map (\<lambda>l. Both (l @ [LF])) help_text)
      else if line = ''clear'' then
        Reply (Blank # colored COLOR_GREEN [Both (''=== NovaOS Interactive Shell ==='' @ [LF])])
      else if line = ''meminfo'' then
        Reply (colored COLOR_YELLOW
          [number_line ''PMM Free Pages : '' (f_free i),
           number_line ''PMM Total Pages: '' (f_total i),
           number_line ''PMM Used (KB)  : '' ((f_total i - f_free i) * 4096 div 1024)])
      else if line = ''ticks'' then
        Reply (colored COLOR_YELLOW [number_line ''Timer Ticks: '' (f_ticks i)])
      else if line = ''tasks'' then
        Reply (colored COLOR_YELLOW [number_line ''Active Tasks: '' (ucast (f_count i)),
          number_line ''Current Task ID: '' (ucast (f_current i))])
      else if line = ''ls'' then
        Reply (colored COLOR_CYAN [Both (''RAM Disk Files:'' @ [LF])] @ concat (map list_entry fs))
      else if take 4 line = ''cat '' then
        (let f = dropWhile (\<lambda>c. c = CHR '' '') (drop 4 line) in
         case List.find (\<lambda>e. fst e = f) fs of
           Some (n, d, z) \<Rightarrow>
             Reply (colored COLOR_GREEN ([Both (cstr d)] @ (if byte_at oob d (z - 1) = LF then [] else [Both [LF]])))
         | None \<Rightarrow> Reply (colored COLOR_RED [Both ''File not found: '', Both f, Both [LF]]))
      else if take 5 line = ''echo '' then Reply [Both (drop 5 line), Both [LF]]
      else if line = ''reboot'' then Reset [Both (''Rebooting system...'' @ [LF])]
      else if line = ''panic'' then Stop ''Explicit user-triggered kernel panic via shell command!''
      else Reply (colored COLOR_RED
        [Both (''Unknown command: '' @ [CHR 0x27]), Both line,
         Both ([CHR 0x27] @ ''. Type '' @ [CHR 0x27] @ ''help'' @ [CHR 0x27] @ '' for commands.'' @ [LF])]))"

lemma performs_cong: "performs dev P as \<Longrightarrow> as = bs \<Longrightarrow> performs dev P bs"
  by simp

lemma performs_help:
  "performs dev (shell_help dev)
     (colored COLOR_CYAN [Both (''Available NovaOS Shell Commands:'' @ [LF])] @ map (\<lambda>l. Both (l @ [LF])) help_text)"
  unfolding shell_help_def
  by (rule performs_cong, (rule performs_rules | simp add: colored_def help_text_def)+)

lemma performs_shell_clear:
  "performs dev (shell_clear dev) (Blank # colored COLOR_GREEN [Both (''=== NovaOS Interactive Shell ==='' @ [LF])])"
  unfolding shell_clear_def by (rule performs_cong, (rule performs_rules | simp add: colored_def)+)

lemma performs_echo:
  assumes "CHR 0x09 \<notin> set (cstr (drop 5 cmdline))"
  shows "performs dev (shell_echo dev cmdline) [Both (cstr (drop 5 cmdline)), Both [LF]]"
  unfolding shell_echo_def by (rule performs_cong, (rule performs_rules | simp add: assms)+)

lemma performs_unknown:
  assumes "CHR 0x09 \<notin> set (cstr cmdline)"
  shows "performs dev (shell_unknown dev cmdline) (colored COLOR_RED
        [Both (''Unknown command: '' @ [CHR 0x27]), Both (cstr cmdline),
         Both ([CHR 0x27] @ ''. Type '' @ [CHR 0x27] @ ''help'' @ [CHR 0x27] @ '' for commands.'' @ [LF])])"
  unfolding shell_unknown_def by (rule performs_cong, (rule performs_rules | simp add: colored_def assms)+)

lemma performs_prompt: "performs dev (shell_prompt dev) (colored COLOR_CYAN [Both ''NovaOS> ''])"
  unfolding shell_prompt_def by (rule performs_cong, (rule performs_rules | simp add: colored_def)+)

lemma performs_init:
  "performs dev (shell_init dev) (colored COLOR_GREEN [Both ([LF] @ ''=== NovaOS Interactive Shell ==='' @ [LF])] @
     [Both (''Type '' @ [CHR 0x27] @ ''help'' @ [CHR 0x27] @ '' to see available commands.'' @ [LF, LF])])"
  unfolding shell_init_def by (rule performs_cong, (rule performs_rules | simp add: colored_def)+)

lemma performs_ls_loop:
  "\<forall>n \<in> set ns. CHR 0x09 \<notin> set (cstr (vn_name n)) \<Longrightarrow>
     performs dev (shell_ls_loop dev ns) (concat (map (list_entry \<circ> file_of) ns))"
proof (induction ns)
  case (Cons n ns)
  then have n: "CHR 0x09 \<notin> set (cstr (vn_name n))" and IH: "performs dev (shell_ls_loop dev ns) (concat (map (list_entry \<circ> file_of) ns))"
    by (auto simp del: map_map o_apply)
  have entry: "list_entry (file_of n) = [Both ''  '', Both (cstr (vn_name n)), Screen (''  ('' @ dec_string (vn_size n) @ [LF]),
      Both ('' bytes)'' @ [LF])]" by (simp add: list_entry_def file_of_def number_line_def)
  have e: "shell_ls_loop dev (n # ns) = (\<lambda>k.
     do {
       k \<leftarrow> print_both dev ''  '' k;
       k \<leftarrow> print_both dev (vn_name n) k;
       k \<leftarrow> print_dec ''  ('' (vn_size n) k;
       k \<leftarrow> print_both dev ('' bytes)'' @ [LF]) k;
       shell_ls_loop dev ns k
     })" by (rule ext) simp
  show ?case
    unfolding e
    by (rule performs_cong, (rule performs_rules IH | simp add: n entry o_def)+)
next
  case Nil
  have e: "shell_ls_loop dev [] = Some" by (rule ext) simp
  show ?case unfolding e by (simp add: performs_Some)
qed

text \<open>Commands that read the state print what the state was when they started.\<close>

definition prints :: "device \<Rightarrow> (kernel \<Rightarrow> kernel option) \<Rightarrow> kernel \<Rightarrow> act list \<Rightarrow> bool" where
  "prints dev P k as \<longleftrightarrow> (\<forall>c. con_rep (k_fb k) c \<longrightarrow> uart_live dev \<longrightarrow>
     (\<exists>k'. P k = Some k' \<and> krep dev k k' (fold act_step as (c, []))))"

lemma prints_performs: "performs dev Q as \<Longrightarrow> P k = Q k \<Longrightarrow> as = bs \<Longrightarrow> prints dev P k bs"
  unfolding prints_def using performs_start by metis

lemma prints_meminfo:
  "prints dev shell_meminfo k (colored COLOR_YELLOW
     [number_line ''PMM Free Pages : '' (s_free_pages (k_pmm k)),
      number_line ''PMM Total Pages: '' (s_total_pages (k_pmm k)),
      number_line ''PMM Used (KB)  : '' ((s_total_pages (k_pmm k) - s_free_pages (k_pmm k)) * 4096 div 1024)])"
  by (rule prints_performs [OF _ shell_meminfo_def],
      (rule performs_rules | simp add: colored_def number_line_def pmm_used_bytes_def)+)

lemma prints_ticks:
  "prints dev shell_ticks k (colored COLOR_YELLOW [number_line ''Timer Ticks: '' (pit_ticks (k_pit k))])"
  by (rule prints_performs [OF _ shell_ticks_def], (rule performs_rules | simp add: colored_def number_line_def)+)

lemma prints_tasks:
  "prints dev shell_tasks k (colored COLOR_YELLOW [number_line ''Active Tasks: '' (ucast (s_count (k_sched k))),
     number_line ''Current Task ID: '' (ucast (s_current (k_sched k)))])"
  by (rule prints_performs [OF _ shell_tasks_def],
      (rule performs_rules | simp add: colored_def number_line_def sched_task_count_def sched_current_id_def)+)

definition plain_files :: "vfs \<Rightarrow> bool" where
  "plain_files fs \<longleftrightarrow> (\<forall>(n, d, z) \<in> set (files fs). CHR 0x09 \<notin> set n \<and> CHR 0x09 \<notin> set (cstr d))"

lemma plain_init: "vfs_inv (vfs_init vfs_boot)" "files (vfs_init vfs_boot) = init_files" "plain_files (vfs_init vfs_boot)"
proof -
  show i: "vfs_inv (vfs_init vfs_boot)" "files (vfs_init vfs_boot) = init_files"
    using vfs_init_spec [of vfs_boot] by (simp_all add: vfs_boot_def const_defs)
  have "\<forall>(n, d, z) \<in> set init_files. CHR 0x09 \<notin> set n \<and> CHR 0x09 \<notin> set d"
    by (simp add: init_files_def sysinfo_content_def readme_content_def credits_content_def)
  then show "plain_files (vfs_init vfs_boot)"
    unfolding plain_files_def i by (auto simp: cstr_def dest: set_takeWhileD)
qed

lemma listed_nodes:
  assumes "vfs_inv fs"
  shows "map (file_of \<circ> (\<lambda>i. fs ! i)) (vfs_list 16 fs) = files fs"
proof -
  have "nused fs \<le> 16" using used_prefix(1) [OF assms] .
  then have "vfs_list 16 fs = [0..<nused fs]"
    using list_loop_at [OF assms, of 0 "[]" 16] by (simp add: vfs_list_def min_def)
  moreover have "length fs = 16" using assms by (simp add: inv_defs)
  ultimately show ?thesis using files_eq [OF assms] \<open>nused fs \<le> 16\<close> by (auto simp: list_eq_iff_nth_eq)
qed

lemma prints_ls:
  assumes "vfs_inv (k_vfs k)" "plain_files (k_vfs k)"
  shows "prints dev (shell_ls dev) k
    (colored COLOR_CYAN [Both (''RAM Disk Files:'' @ [LF])] @ concat (map list_entry (files (k_vfs k))))"
proof -
  let ?ns = "map (\<lambda>i. k_vfs k ! i) (vfs_list 16 (k_vfs k))"
  have f: "map file_of ?ns = files (k_vfs k)" using listed_nodes [OF assms(1)] by simp
  have "\<forall>n \<in> set ?ns. CHR 0x09 \<notin> set (cstr (vn_name n))"
  proof
    fix n assume "n \<in> set ?ns"
    then have "file_of n \<in> set (files (k_vfs k))" unfolding f [symmetric] by force
    then show "CHR 0x09 \<notin> set (cstr (vn_name n))" using assms(2) by (auto simp: plain_files_def file_of_def)
  qed
  note L = performs_ls_loop [OF this, of dev]
  have m: "concat (map list_entry (files (k_vfs k))) = concat (map (list_entry \<circ> file_of) ?ns)"
    unfolding f [symmetric] by (simp only: map_map o_assoc)
  have "performs dev (\<lambda>k1. do {
       k1 \<leftarrow> set_color COLOR_CYAN COLOR_DARK k1;
       k1 \<leftarrow> print_both dev (''RAM Disk Files:'' @ [LF]) k1;
       k1 \<leftarrow> set_color COLOR_WHITE COLOR_DARK k1;
       shell_ls_loop dev ?ns k1
     }) (colored COLOR_CYAN [Both (''RAM Disk Files:'' @ [LF])] @ concat (map (list_entry \<circ> file_of) ?ns))"
    by (rule performs_cong, (rule performs_rules L | simp add: colored_def)+)
  then show ?thesis unfolding m by (rule prints_performs) (simp_all only: shell_ls_def)
qed

lemma prints_cat:
  assumes "vfs_inv (k_vfs k)" "plain_files (k_vfs k)" "cstr cmdline = ''cat '' @ t" "CHR 0x09 \<notin> set t"
  shows "prints dev (shell_cat dev oob cmdline) k
    (let f = dropWhile (\<lambda>c. c = CHR '' '') t in
     case List.find (\<lambda>e. fst e = f) (files (k_vfs k)) of
       Some (n, d, z) \<Rightarrow> colored COLOR_GREEN ([Both (cstr d)] @ (if byte_at oob d (z - 1) = LF then [] else [Both [LF]]))
     | None \<Rightarrow> colored COLOR_RED [Both ''File not found: '', Both f, Both [LF]])"
proof -
  let ?fname = "skip_spaces (drop 4 cmdline)" and ?f = "dropWhile (\<lambda>c. c = CHR '' '') t"
  have fn: "cstr ?fname = ?f" using cstr_drop_prefix [OF assms(3)] by (simp add: cstr_skip_spaces numeral_eq_Suc)
  have tab: "CHR 0x09 \<notin> set (cstr ?fname)" using assms(4) set_dropWhileD [of "CHR 0x09"] unfolding fn by fast
  note O = vfs_open_files [OF assms(1), of ?fname, unfolded fn]
  show ?thesis
  proof (cases "vfs_open ?fname (k_vfs k)")
    case None
    then have "List.find (\<lambda>e. fst e = ?f) (files (k_vfs k)) = None" using O by simp
    moreover have "performs dev (\<lambda>k1. do {
         k1 \<leftarrow> set_color COLOR_RED COLOR_DARK k1;
         k1 \<leftarrow> print_both dev ''File not found: '' k1;
         k1 \<leftarrow> print_both dev ?fname k1;
         k1 \<leftarrow> print_both dev [LF] k1;
         set_color COLOR_WHITE COLOR_DARK k1
       }) (colored COLOR_RED [Both ''File not found: '', Both ?f, Both [LF]])"
      by (rule performs_cong, (rule performs_rules | simp add: colored_def tab [unfolded fn] fn)+)
    ultimately show ?thesis
      by (intro prints_performs) (assumption, simp_all add: shell_cat_def None)
  next
    case (Some i)
    let ?n = "k_vfs k ! i"
    have F: "List.find (\<lambda>e. fst e = ?f) (files (k_vfs k)) = Some (file_of ?n)" using O Some by simp
    then have "file_of ?n \<in> set (files (k_vfs k))" by (auto simp: find_Some_iff)
    then have d: "CHR 0x09 \<notin> set (cstr (vn_data ?n))" using assms(2) by (auto simp: plain_files_def file_of_def)
    let ?nl = "byte_at oob (vn_data ?n) (vn_size ?n - 1) \<noteq> LF"
    have nl: "performs dev (\<lambda>k1. if ?nl then print_both dev [LF] k1 else Some k1) (if ?nl then [Both [LF]] else [])"
      using performs_both [of "[LF]" dev] performs_Some [of dev] by (cases ?nl) (simp_all add: fun_eq_iff)
    have "performs dev (\<lambda>k1. do {
         k1 \<leftarrow> set_color COLOR_GREEN COLOR_DARK k1;
         k1 \<leftarrow> print_both dev (vn_data ?n) k1;
         k1 \<leftarrow> (if ?nl then print_both dev [LF] k1 else Some k1);
         set_color COLOR_WHITE COLOR_DARK k1
       }) (colored COLOR_GREEN ([Both (cstr (vn_data ?n))] @ (if ?nl then [Both [LF]] else [])))"
      by (rule performs_cong, (rule performs_rules nl | simp add: colored_def d)+)
    then show ?thesis
      by (rule prints_performs) (simp_all add: shell_cat_def Some F file_of_def Let_def)
  qed
qed

text \<open>The command line against its reference.\<close>

lemma returns_prints:
  assumes "prints dev P k as" "con_rep (k_fb k) c" "uart_live dev"
  shows "\<exists>k'. returns (P k) = Returns k' \<and> krep dev k k' (fold act_step as (c, []))"
  using assms by (auto simp: prints_def returns_def)

lemma returns_performs:
  assumes "performs dev P as" "con_rep (k_fb k) c" "uart_live dev"
  shows "\<exists>k'. returns (P k) = Returns k' \<and> krep dev k k' (fold act_step as (c, []))"
  using performs_start [OF assms] by (metis option.simps(5) returns_def)

definition meets :: "device \<Rightarrow> kernel \<Rightarrow> con \<Rightarrow> outcome \<Rightarrow> reply \<Rightarrow> bool" where
  "meets dev k c out r = (case r of
     Reply as \<Rightarrow> \<exists>k'. out = Returns k' \<and> krep dev k k' (fold act_step as (c, []))
   | Reset as \<Rightarrow> \<exists>k'. out = Rebooting (k'\<lparr>k_io := outb 0x64 0xFE (k_io k')\<rparr>) \<and> krep dev k k' (fold act_step as (c, []))
   | Stop msg \<Rightarrow> \<exists>w. out = Panicked (k\<lparr>k_cpu := cli (k_cpu k), k_io := w,
         k_fb := (k_fb k)\<lparr>fb_pix := red_screen (k_panic k) (fb_pix (k_fb k))\<rparr>\<rparr>) \<and>
       sent (panic_report msg) (k_io k) w)"

lemma meets_panics:
  assumes "uart_live dev"
  shows "meets dev k c (panics dev msg k) (Stop msg)"
  using kernel_panic_spec [OF assms, of "k_panic k" msg "k_cpu k" "k_io k" "fb_pix (k_fb k)"]
  by (auto simp: meets_def panics_def)

lemma meets_reboot:
  assumes "con_rep (k_fb k) c" "uart_live dev"
  shows "meets dev k c (shell_reboot dev k) (Reset [Both (''Rebooting system...'' @ [LF])])"
proof -
  have "performs dev (print_both dev (''Rebooting system...'' @ [LF])) [Both (''Rebooting system...'' @ [LF])]"
    by (rule performs_cong, rule performs_rules) simp_all
  then obtain k' where "print_both dev (''Rebooting system...'' @ [LF]) k = Some k'"
    "krep dev k k' (fold act_step [Both (''Rebooting system...'' @ [LF])] (c, []))"
    using performs_start assms by blast
  then show ?thesis by (auto simp: meets_def shell_reboot_def)
qed

lemma meets_if:
  "(b \<Longrightarrow> meets dev k c x r) \<Longrightarrow> (\<not> b \<Longrightarrow> meets dev k c y q) \<Longrightarrow>
   meets dev k c (if b then x else y) (if b then r else q)"
  by simp

lemma deref_cstr: "deref s = NUL \<longleftrightarrow> cstr s = []"
  by (cases s) auto

lemma prefix_take: "(\<exists>t. l = p @ t) \<longleftrightarrow> take (length p) l = p"
  by (metis append_take_drop_id append_eq_conv_conj)

lemma word_conds:
  assumes "NUL \<notin> set p"
  shows "streql s p \<longleftrightarrow> cstr s = p" "strstarts s p \<longleftrightarrow> take (length p) (cstr s) = p"
  using assms by (simp_all add: streql_iff strstarts_iff cstr_id prefix_take)

lemma command_words:
  "streql s ''help'' \<longleftrightarrow> cstr s = ''help''" "streql s ''clear'' \<longleftrightarrow> cstr s = ''clear''"
  "streql s ''meminfo'' \<longleftrightarrow> cstr s = ''meminfo''" "streql s ''ticks'' \<longleftrightarrow> cstr s = ''ticks''"
  "streql s ''tasks'' \<longleftrightarrow> cstr s = ''tasks''" "streql s ''ls'' \<longleftrightarrow> cstr s = ''ls''"
  "streql s ''reboot'' \<longleftrightarrow> cstr s = ''reboot''" "streql s ''panic'' \<longleftrightarrow> cstr s = ''panic''"
  "strstarts s ''cat '' \<longleftrightarrow> take 4 (cstr s) = ''cat ''" "strstarts s ''echo '' \<longleftrightarrow> take 5 (cstr s) = ''echo ''"
  by (rule word_conds(1), simp)+ (use word_conds(2) [of "''cat ''"] word_conds(2) [of "''echo ''"] in \<open>simp_all add: eval_nat_numeral\<close>)

lemma echo_rest:
  assumes "take 5 (cstr s) = ''echo ''"
  shows "cstr (drop 5 s) = drop 5 (cstr s)"
proof -
  have "cstr s = ''echo '' @ drop 5 (cstr s)" using assms by (metis append_take_drop_id)
  from cstr_drop_prefix [OF this] show ?thesis by (simp add: eval_nat_numeral)
qed

lemma shell_execute_meets:
  assumes fb: "con_rep (k_fb k) c" "uart_live dev" and fs: "vfs_inv (k_vfs k)" "plain_files (k_vfs k)"
    and tab: "CHR 0x09 \<notin> set (cstr cmdline)"
  shows "meets dev k c (shell_execute dev oob cmdline k) (shell_reply oob (cstr cmdline) (kernel_facts k))"
proof -
  define s where "s = skip_spaces cmdline"
  have l: "dropWhile (\<lambda>c. c = CHR '' '') (cstr cmdline) = cstr s" by (simp add: s_def cstr_skip_spaces)
  have t: "CHR 0x09 \<notin> set (cstr s)" using tab set_dropWhileD unfolding l [symmetric] by fast
  have R: "meets dev k c (returns (P k)) (Reply as)" if "prints dev P k as" for P as
    using returns_prints [OF that fb] by (simp add: meets_def)
  have Q: "meets dev k c (returns (P k)) (Reply as)" if "performs dev P as" for P as
    using returns_performs [OF that fb] by (simp add: meets_def)
  have cat: "meets dev k c (returns (shell_cat dev oob s k))
      (let f = dropWhile (\<lambda>c. c = CHR '' '') (drop 4 (cstr s)) in
         case List.find (\<lambda>e. fst e = f) (files (k_vfs k)) of
           Some (n, d, z) \<Rightarrow>
             Reply (colored COLOR_GREEN ([Both (cstr d)] @ (if byte_at oob d (z - 1) = LF then [] else [Both [LF]])))
         | None \<Rightarrow> Reply (colored COLOR_RED [Both ''File not found: '', Both f, Both [LF]]))"
    if "take 4 (cstr s) = ''cat ''"
  proof -
    have e: "cstr s = ''cat '' @ drop 4 (cstr s)" using that by (metis append_take_drop_id)
    have "CHR 0x09 \<notin> set (drop 4 (cstr s))" using t by (meson in_set_dropD)
    from R [OF prints_cat [OF fs e this, of dev oob]] show ?thesis
      by (auto simp: Let_def split: option.splits)
  qed
  have echo: "meets dev k c (returns (shell_echo dev s k)) (Reply [Both (drop 5 (cstr s)), Both [LF]])"
    if "take 5 (cstr s) = ''echo ''"
  proof -
    note e = echo_rest [OF that]
    have "CHR 0x09 \<notin> set (cstr (drop 5 s))" unfolding e using t by (meson in_set_dropD)
    from Q [OF performs_echo [OF this]] show ?thesis unfolding e .
  qed
  have nil: "meets dev k c (Returns k) (Reply [])" using krep_refl [OF fb] by (simp add: meets_def)
  note branches = nil R [OF prints_meminfo] R [OF prints_ticks] R [OF prints_tasks] R [OF prints_ls [OF fs]]
    Q [OF performs_help] Q [OF performs_shell_clear] Q [OF performs_unknown [OF t]]
    cat [unfolded Let_def] echo meets_reboot [OF fb] meets_panics [OF fb(2)]
  show ?thesis
    unfolding shell_execute_def shell_reply_def kernel_facts_def facts.simps l Let_def s_def [symmetric] command_words deref_cstr
    by (rule meets_if branches | assumption)+
qed

subsection \<open>The line editor\<close>

definition sh_line :: "shell \<Rightarrow> string" where
  "sh_line sh = take (unat (sh_idx sh)) (sh_buf sh)"

definition printable :: "char \<Rightarrow> bool" where
  "printable c \<longleftrightarrow> 32 \<le> (of_char c :: nat) \<and> (of_char c :: nat) \<le> 126"

definition shell_inv :: "shell \<Rightarrow> bool" where
  [inv_defs]: "shell_inv sh \<longleftrightarrow> length (sh_buf sh) = 128 \<and> unat (sh_idx sh) \<le> 127 \<and> list_all printable (sh_line sh)"

text \<open>The effect of a key on the line, and what is echoed.\<close>

definition edit :: "char \<Rightarrow> string \<Rightarrow> string" where
  "edit c l = (if c = CHR 0x08 then butlast l else if printable c \<and> length l < 127 then l @ [c] else l)"

definition echo :: "char \<Rightarrow> string \<Rightarrow> act list" where
  "echo c l = (if c = CHR 0x08 then (if l = [] then [] else [Screen [CHR 0x08]])
     else if printable c \<and> length l < 127 then [Screen [c]] else [])"

lemma printable_plain: "printable c \<Longrightarrow> c \<noteq> NUL \<and> c \<noteq> CHR 0x09 \<and> c \<noteq> LF \<and> c \<noteq> CHR 0x08"
  by (auto simp: printable_def)

lemma shell_boot_ok: "shell_inv shell_boot" "sh_line shell_boot = []"
  by (simp_all add: shell_inv_def shell_boot_def sh_line_def)

lemma length_sh_line: "shell_inv sh \<Longrightarrow> length (sh_line sh) = unat (sh_idx sh)"
  by (simp add: inv_defs sh_line_def)

lemma shell_key_edits:
  assumes inv: "shell_inv sh" and c: "c \<noteq> LF" and rep: "krep dev k0 k ct"
  shows "\<exists>sh' k'. shell_key dev oob c sh k = (sh', Returns k') \<and> shell_inv sh' \<and> sh_line sh' = edit c (sh_line sh) \<and>
    krep dev k0 k' (fold act_step (echo c (sh_line sh)) ct)"
proof -
  let ?i = "unat (sh_idx sh)"
  have len: "length (sh_line sh) = ?i" "length (sh_buf sh) = 128" "?i \<le> 127"
    using inv length_sh_line [OF inv] by (simp_all add: inv_defs)
  have P: "\<exists>k'. returns (put_char x k) = Returns k' \<and> krep dev k0 k' (fold act_step [Screen [x]] ct)"
    if "x \<noteq> CHR 0x09" "x \<noteq> NUL" for x
    using performs_put_char [OF that, of dev] rep unfolding performs_def by (fastforce simp: returns_def)
  consider "c = CHR 0x08" "sh_line sh = []" | "c = CHR 0x08" "sh_line sh \<noteq> []"
    | "c \<noteq> CHR 0x08" "printable c" "?i < 127" | "c \<noteq> CHR 0x08" "\<not> (printable c \<and> ?i < 127)" by blast
  then show ?thesis
  proof cases
    case 1
    then have "\<not> 0 < sh_idx sh" using len(1) by (simp add: word_less_nat_alt)
    with 1 c inv rep show ?thesis by (auto simp: shell_key_def edit_def echo_def)
  next
    case 2
    then have i: "0 < ?i" using len(1) by (metis length_greater_0_conv)
    then have i0: "0 < sh_idx sh" by (simp add: word_less_nat_alt)
    let ?sh = "sh\<lparr>sh_idx := sh_idx sh - 1\<rparr>"
    have "unat (sh_idx sh - 1) = ?i - 1" using i by (simp add: unat_sub word_le_nat_alt)
    then have L: "sh_line ?sh = butlast (sh_line sh)" using len by (simp add: sh_line_def butlast_take)
    moreover have "shell_inv ?sh"
      using inv L \<open>unat (sh_idx sh - 1) = ?i - 1\<close> by (auto simp: inv_defs list_all_iff dest: in_set_butlastD)
    ultimately show ?thesis using 2 c i0 P [of "CHR 0x08"] by (auto simp: shell_key_def edit_def echo_def)
  next
    case 3
    let ?sh = "sh\<lparr>sh_buf := (sh_buf sh)[?i := c], sh_idx := sh_idx sh + 1\<rparr>"
    have i: "unat (sh_idx sh + 1) = ?i + 1" using 3(3) by (subst unat_add_lt) simp_all
    have L: "sh_line ?sh = sh_line sh @ [c]"
      using 3(3) len(2) unfolding sh_line_def by (simp add: i take_Suc_conv_app_nth)
    have "shell_inv ?sh" using inv L 3 i len by (simp add: inv_defs)
    moreover have "sh_idx sh < 128 - 1" using 3(3) by (simp add: word_less_nat_alt)
    ultimately show ?thesis
      using 3 c L P [of c] printable_plain [OF 3(2)] len(1) by (auto simp: shell_key_def edit_def echo_def printable_def)
  next
    case 4
    have "sh_idx sh < 127 \<longleftrightarrow> ?i < 127" by (simp add: word_less_nat_alt)
    with 4 c inv rep len(1) show ?thesis by (auto simp: shell_key_def edit_def echo_def printable_def)
  qed
qed

definition demo_kernel :: kernel where
  "demo_kernel = (kernel_boot (\<lambda>_. 0) cpu_zero)\<lparr>k_fb := demo_fb, k_vfs := vfs_init vfs_boot\<rparr>"

lemma demo_kernel_ok:
  "con_rep (k_fb demo_kernel) (con_blank 5 10 COLOR_WHITE COLOR_DARK)" "vfs_inv (k_vfs demo_kernel)"
  "plain_files (k_vfs demo_kernel)" "k_kbd demo_kernel = kbd_boot" "files (k_vfs demo_kernel) = init_files"
  using demo_fb_rep plain_init by (simp_all add: demo_kernel_def kernel_boot_def)

subsection \<open>Properties\<close>

text \<open>
  Claim C9. Every command does what the reference says.  For any command line, on a live serial line and a sound
  console and file table without tabs in the texts involved, \<open>shell_execute\<close> ends as \<open>shell_reply\<close> computes from the
  characters of the line: it returns after exactly the listed output to screen and serial line, in the listed
  colours, with every other part of the kernel unchanged; \<open>reboot\<close> pulses the reset line after its message;
  \<open>panic\<close> halts with the report sent, interrupts disabled and exactly the pixels of the registered framebuffer red
  (\<open>red_screen\<close>).  The reference for \<open>meminfo\<close> has the three numbers of the page allocator that the code prints; the
  help text and the README promise heap statistics as well, which the command does not show.
\<close>

theorem shell_execute_correct:
  assumes "con_rep (k_fb k) c" "uart_live dev" "vfs_inv (k_vfs k)" "plain_files (k_vfs k)" "CHR 0x09 \<notin> set (cstr cmdline)"
  shows "meets dev k c (shell_execute dev oob cmdline k) (shell_reply oob (cstr cmdline) (kernel_facts k))"
  by (rule shell_execute_meets [OF assms])

lemma shell_execute_correct_witness:
  "\<exists>k'. shell_execute ready_dev NUL ''  cat credits.txt'' demo_kernel = Returns k' \<and>
     sent credits_content (k_io demo_kernel) (k_io k')"
proof -
  have c: "cstr credits_content = credits_content" by (simp add: credits_content_def cstr_id)
  have r: "shell_reply NUL (cstr ''  cat credits.txt'') (kernel_facts demo_kernel) =
      Reply (colored COLOR_GREEN [Both credits_content])"
    by (simp add: shell_reply_def kernel_facts_def demo_kernel_ok init_files_def byte_at_def credits_content_def)
  have "meets ready_dev demo_kernel (con_blank 5 10 COLOR_WHITE COLOR_DARK)
      (shell_execute ready_dev NUL ''  cat credits.txt'' demo_kernel) (Reply (colored COLOR_GREEN [Both credits_content]))"
    using shell_execute_correct [OF demo_kernel_ok(1) uart_live_ready demo_kernel_ok(2,3), of "''  cat credits.txt''" NUL]
    unfolding r by simp
  then show ?thesis by (auto simp: meets_def colored_def krep_def serial_rep_def serial_app_def c)
qed

end
