(* ===== verification/Kernel_Main.thy ===== *)
theory Kernel_Main
  imports Shell
begin

section \<open>Boot: kernel_main.cpp\<close>

text \<open>
  \<open>_start\<close> in the order of the source, from what the boot loader hands over (\<open>boot_info\<close>) and the addresses that
  the linker fixes (\<open>link\<close>): serial line, segment table, the checks of the loader's answers, framebuffer, page
  allocator and heap, interrupt controller, timer, keyboard, interrupt table, files, scheduler, shell.  The phases
  \<open>start_early\<close> to \<open>start_enable\<close> are the numbered steps of the function, \<open>start_to_sti\<close> runs them up to \<open>sti\<close> and \<open>start\<close> up to the call of
  \<open>shell_task\<close>, with which theory \<open>System\<close> goes on.  The lemmas follow the phases and end in what holds when the shell takes
  over.
\<close>

subsection \<open>What the loader provides\<close>

record limine_framebuffer =
  lf_address :: u64
  lf_width :: u64
  lf_height :: u64
  lf_pitch :: u64
  lf_bpp :: u16
  lf_memory_model :: u8
  lf_red_mask_size :: u8
  lf_red_mask_shift :: u8
  lf_green_mask_size :: u8
  lf_green_mask_shift :: u8
  lf_blue_mask_size :: u8
  lf_blue_mask_shift :: u8

record limine_framebuffer_response =
  fr_revision :: u64
  fr_framebuffer_count :: u64
  fr_framebuffers :: "limine_framebuffer list"

record limine_memmap_response =
  mr_revision :: u64
  mr_entry_count :: u64
  mr_entries :: "memmap_entry list"

record limine_hhdm_response =
  hr_revision :: u64
  hr_offset :: u64

text \<open>The request structures, which the loader finds by their identifiers and fills; \<open>None\<close> is a null response.\<close>

definition LIMINE_COMMON_MAGIC :: "u64 list" where
  "LIMINE_COMMON_MAGIC = [0xc7b1dd30df4c8b88, 0x0a82e883a194f07b]"

definition LIMINE_FRAMEBUFFER_REQUEST :: "u64 list" where
  "LIMINE_FRAMEBUFFER_REQUEST = LIMINE_COMMON_MAGIC @ [0x9d5827dcd881dd75, 0xa3148604f6fab11b]"

definition LIMINE_MEMMAP_REQUEST :: "u64 list" where
  "LIMINE_MEMMAP_REQUEST = LIMINE_COMMON_MAGIC @ [0x67cf3d9d378a806f, 0xe304acdfc50c3c62]"

definition LIMINE_HHDM_REQUEST :: "u64 list" where
  "LIMINE_HHDM_REQUEST = LIMINE_COMMON_MAGIC @ [0x48dcf1cb8ad2b852, 0x63984e959a98244b]"

record 'r limine_request =
  rq_id :: "u64 list"
  rq_revision :: u64
  rq_response :: "'r option"

record boot_info =
  limine_base_revision :: "u64 list"
  framebuffer_request :: "limine_framebuffer_response limine_request"
  memmap_request :: "limine_memmap_response limine_request"
  hhdm_request :: "limine_hhdm_response limine_request"

abbreviation framebuffer_response :: "boot_info \<Rightarrow> limine_framebuffer_response option" where
  "framebuffer_response bi \<equiv> rq_response (framebuffer_request bi)"

abbreviation memmap_response :: "boot_info \<Rightarrow> limine_memmap_response option" where
  "memmap_response bi \<equiv> rq_response (memmap_request bi)"

abbreviation hhdm_response :: "boot_info \<Rightarrow> limine_hhdm_response option" where
  "hhdm_response bi \<equiv> rq_response (hhdm_request bi)"

definition LIMINE_BASE_REVISION :: "u64 \<Rightarrow> u64 list" where
  "LIMINE_BASE_REVISION N = [0xf9562b2d5c95a6c8, 0x6a7b384944536bdc, N]"

text \<open>The requests as they are in the kernel image, and as a loader leaves them that supports the revision.\<close>

definition boot_image :: boot_info where
  "boot_image =
     \<lparr>limine_base_revision = LIMINE_BASE_REVISION 2,
      framebuffer_request = \<lparr>rq_id = LIMINE_FRAMEBUFFER_REQUEST, rq_revision = 0, rq_response = None\<rparr>,
      memmap_request = \<lparr>rq_id = LIMINE_MEMMAP_REQUEST, rq_revision = 0, rq_response = None\<rparr>,
      hhdm_request = \<lparr>rq_id = LIMINE_HHDM_REQUEST, rq_revision = 0, rq_response = None\<rparr>\<rparr>"

definition answered :: "limine_framebuffer_response option \<Rightarrow> limine_memmap_response option \<Rightarrow> limine_hhdm_response option \<Rightarrow>
    boot_info \<Rightarrow> boot_info" where
  "answered fr mr hr bi = bi\<lparr>limine_base_revision := (limine_base_revision bi)[2 := 0],
     framebuffer_request := (framebuffer_request bi)\<lparr>rq_response := fr\<rparr>,
     memmap_request := (memmap_request bi)\<lparr>rq_response := mr\<rparr>, hhdm_request := (hhdm_request bi)\<lparr>rq_response := hr\<rparr>\<rparr>"

definition LIMINE_BASE_REVISION_SUPPORTED :: "boot_info \<Rightarrow> bool" where
  "LIMINE_BASE_REVISION_SUPPORTED bi \<longleftrightarrow> limine_base_revision bi ! 2 = 0"

record link =
  lk_gdt :: gdt_addrs
  lk_idt :: idt_addrs
  lk_ticker :: u64

subsection \<open>The boot sequence\<close>

definition sti :: "cpu \<Rightarrow> cpu" where
  "sti c = c\<lparr>rflags := set_bit 9 (rflags c)\<rparr>"

definition start_early :: "device \<Rightarrow> link \<Rightarrow> kernel \<Rightarrow> kernel option" where
  "start_early dev lk k =
     (let k = k\<lparr>k_io := init_serial (k_io k)\<rparr> in
      do {
        k \<leftarrow> serial dev ([LF] @ ''=== NovaOS Kernel Booting ==='' @ [LF]) k;
        let k = k\<lparr>k_gdt := Some (gdt_init (lk_gdt lk))\<rparr>;
        serial dev (''[M2] GDT loaded (Null, KCode, KData, UCode, UData, TSS).'' @ [LF]) k
      })"

definition start_framebuffer :: "device \<Rightarrow> limine_framebuffer \<Rightarrow> kernel \<Rightarrow> kernel option" where
  "start_framebuffer dev fb k =
     (let k = k\<lparr>k_panic := set_panic_framebuffer (lf_address fb) (ucast (lf_width fb)) (ucast (lf_height fb))
                 (ucast (lf_pitch fb)) (k_panic k)\<rparr>;
          k = k\<lparr>k_fb := fb_init (ucast (lf_width fb)) (ucast (lf_height fb)) (ucast (lf_pitch fb)) (k_fb k)\<rparr>
      in serial dev (''[M1] GOP Framebuffer initialized.'' @ [LF]) k)"

definition start_memory :: "device \<Rightarrow> boot_info \<Rightarrow> kernel \<Rightarrow> kernel option" where
  "start_memory dev bi k =
     (case (memmap_response bi, hhdm_response bi) of
        (Some mr, Some hr) \<Rightarrow>
          do {
            p \<leftarrow> pmm_init (hr_offset hr) (take (unat (mr_entry_count mr)) (mr_entries mr)) (k_pmm k);
            k \<leftarrow> serial dev (''[M3] PMM initialized (Bitmap physical allocator).'' @ [LF]) (k\<lparr>k_pmm := p\<rparr>);
            let (p, h) = heap_init (k_pmm k, k_heap k);
            serial dev (''[M3] Kernel Heap initialized (kmalloc/kfree ready).'' @ [LF]) (k\<lparr>k_pmm := p, k_heap := h\<rparr>)
          }
      | _ \<Rightarrow> serial dev (''[M3] Warning: Memory map or HHDM unavailable.'' @ [LF]) k)"

definition start_drivers :: "device \<Rightarrow> kernel \<Rightarrow> kernel option" where
  "start_drivers dev k =
     (let k = k\<lparr>k_io := pic_init dev 32 40 (k_io k)\<rparr> in
      do {
        k \<leftarrow> serial dev (''[M4] PIC remapped (Master: 32, Slave: 40).'' @ [LF]) k;
        w \<leftarrow> pit_init dev 100 (k_io k);
        k \<leftarrow> serial dev (''[M4] PIT timer configured at 100 Hz.'' @ [LF]) (k\<lparr>k_io := w\<rparr>);
        let k = k\<lparr>k_io := keyboard_init dev (k_io k)\<rparr>;
        serial dev (''[M4] PS/2 Keyboard driver active.'' @ [LF]) k
      })"

definition start_idt :: "device \<Rightarrow> link \<Rightarrow> kernel \<Rightarrow> kernel option" where
  "start_idt dev lk k =
     serial dev (''[M2/M4] IDT installed (32 Exceptions + IRQ0 + IRQ1).'' @ [LF]) (k\<lparr>k_idt := Some (idt_init (lk_idt lk))\<rparr>)"

definition start_vfs :: "device \<Rightarrow> kernel \<Rightarrow> kernel option" where
  "start_vfs dev k =
     serial dev (''[M6] Virtual File System mounted (RAM Disk).'' @ [LF]) (k\<lparr>k_vfs := vfs_init (k_vfs k)\<rparr>)"

definition start_sched :: "device \<Rightarrow> link \<Rightarrow> kernel \<Rightarrow> kernel option" where
  "start_sched dev lk k =
     (let k = k\<lparr>k_sched := sched_init (k_sched k)\<rparr> in
      do {
        (_, s, h) \<leftarrow> sched_create_task (lk_ticker lk) ''ticker'' (k_sched k, k_heap k);
        serial dev (''[M5] Round-robin scheduler active.'' @ [LF]) (k\<lparr>k_sched := s, k_heap := h\<rparr>)
      })"

definition start_enable :: "device \<Rightarrow> kernel \<Rightarrow> kernel option" where
  "start_enable dev k =
     do {
       k \<leftarrow> shell_init dev k;
       k \<leftarrow> serial dev (''[M7] Interactive Kernel Shell ready.'' @ [LF]) k;
       Some (k\<lparr>k_cpu := sti (k_cpu k)\<rparr>)
     }"

definition start_services :: "device \<Rightarrow> link \<Rightarrow> boot_info \<Rightarrow> limine_framebuffer \<Rightarrow> kernel \<Rightarrow> kernel option" where
  "start_services dev lk bi fb k =
     do {
       k \<leftarrow> start_framebuffer dev fb k;
       k \<leftarrow> start_memory dev bi k;
       k \<leftarrow> start_drivers dev k;
       k \<leftarrow> start_idt dev lk k;
       k \<leftarrow> start_vfs dev k;
       k \<leftarrow> start_sched dev lk k;
       start_enable dev k
     }"

definition start_to_sti :: "device \<Rightarrow> link \<Rightarrow> boot_info \<Rightarrow> kernel \<Rightarrow> outcome" where
  "start_to_sti dev lk bi k =
     (case start_early dev lk k of
        None \<Rightarrow> Hangs
      | Some k \<Rightarrow>
          if \<not> LIMINE_BASE_REVISION_SUPPORTED bi then panics dev ''Limine base revision unsupported!'' k
          else case framebuffer_response bi of
            None \<Rightarrow> panics dev ''No framebuffer provided by bootloader!'' k
          | Some r \<Rightarrow>
              if fr_framebuffer_count r < 1 then panics dev ''No framebuffer provided by bootloader!'' k
              else returns (start_services dev lk bi (fr_framebuffers r ! 0) k))"

definition finish_message :: string where
  "finish_message = ''[boot] Interrupts enabled (STI). Boot sequence finished!'' @ [LF, LF]"

definition start :: "device \<Rightarrow> link \<Rightarrow> boot_info \<Rightarrow> kernel \<Rightarrow> outcome" where
  "start dev lk bi k = (case start_to_sti dev lk bi k of Returns k \<Rightarrow> returns (serial dev finish_message k) | r \<Rightarrow> r)"

subsection \<open>The phases\<close>

lemma serial_ok:
  assumes "uart_live dev"
  obtains w where "serial dev s k = Some (k\<lparr>k_io := w\<rparr>)" "sent (cstr s) (k_io k) w"
  using print_serial_sent [OF assms, of s "k_io k"] by (auto simp: serial_def)

definition banner_log :: string where
  "banner_log = [LF] @ ''=== NovaOS Kernel Booting ==='' @ [LF] @
     ''[M2] GDT loaded (Null, KCode, KData, UCode, UData, TSS).'' @ [LF]"

lemma start_early_ok:
  assumes "uart_live dev"
  obtains w where "start_early dev lk k = Some (k\<lparr>k_io := w, k_gdt := Some (gdt_init (lk_gdt lk))\<rparr>)"
    "sent banner_log (init_serial (k_io k)) w"
proof -
  let ?k = "k\<lparr>k_io := init_serial (k_io k)\<rparr>"
  let ?s = "[LF] @ ''=== NovaOS Kernel Booting ==='' @ [LF]"
  let ?t = "''[M2] GDT loaded (Null, KCode, KData, UCode, UData, TSS).'' @ [LF]"
  obtain w1 where 1: "serial dev ?s ?k = Some (?k\<lparr>k_io := w1\<rparr>)" "sent (cstr ?s) (k_io ?k) w1"
    by (rule serial_ok [OF assms])
  let ?k1 = "?k\<lparr>k_io := w1, k_gdt := Some (gdt_init (lk_gdt lk))\<rparr>"
  obtain w2 where 2: "serial dev ?t ?k1 = Some (?k1\<lparr>k_io := w2\<rparr>)" "sent (cstr ?t) (k_io ?k1) w2"
    by (rule serial_ok [OF assms])
  show ?thesis
  proof (rule that)
    show "start_early dev lk k = Some (k\<lparr>k_io := w2, k_gdt := Some (gdt_init (lk_gdt lk))\<rparr>)"
      using 1(1) 2(1) by (simp add: start_early_def Let_def)
    show "sent banner_log (init_serial (k_io k)) w2"
      using sent_trans [of "cstr ?s" "init_serial (k_io k)" w1 "cstr ?t" w2] 1(2) 2(2) by (simp add: banner_log_def)
  qed
qed

text \<open>The interrupt controllers as the kernel programs them: only the timer and the keyboard are unmasked.\<close>

definition irqs_programmed :: "io \<Rightarrow> bool" where
  "irqs_programmed w \<longleftrightarrow> pics_ready w \<and> vector_base (master w) = 32 \<and> vector_base (slave w) = 40 \<and>
     imr (master w) = 0xFC \<and> imr (slave w) = 0xFF"

lemma irqs_programmed_sent: "sent s w w' \<Longrightarrow> irqs_programmed w' = irqs_programmed w"
  using sent_chips by (auto simp: irqs_programmed_def pics_ready_def)

definition driver_log :: string where
  "driver_log = ''[M4] PIC remapped (Master: 32, Slave: 40).'' @ [LF] @ ''[M4] PIT timer configured at 100 Hz.'' @ [LF] @
     ''[M4] PS/2 Keyboard driver active.'' @ [LF]"

lemma outs_drivers:
  "outs 0x3F8 (pic_init dev m s w) = outs 0x3F8 w" "outs 0x40 (pic_init dev m s w) = outs 0x40 w"
  "outs 0x3F8 (pic_enable_irq dev i w) = outs 0x3F8 w" "outs 0x40 (pic_enable_irq dev i w) = outs 0x40 w"
  "pit_init dev hz w = Some w' \<Longrightarrow> outs 0x3F8 w' = outs 0x3F8 w"
  by (auto simp: pic_init_def pic_enable_irq_def pit_init_def io_wait_def inb_def outb_def Let_def const_defs split: if_splits)

lemma pit_init_chips:
  assumes "pit_init dev 100 w = Some w'" "pic_readback dev" "pics_ready w"
  shows "master w' = (master w)\<lparr>imr := imr (master w) AND NOT 1\<rparr>" "slave w' = slave w" "pics_ready w'"
proof -
  obtain u where u: "w' = pic_enable_irq dev 0 u" "master u = master w" "slave u = slave w"
    using assms(1) by (auto simp: pit_init_def Let_def const_defs)
  then have "pics_ready u" using assms(3) by (simp add: pics_ready_def)
  from pic_enable_low [OF assms(2) this, of 0] u
  show *: "master w' = (master w)\<lparr>imr := imr (master w) AND NOT 1\<rparr>" "slave w' = slave w" by simp_all
  show "pics_ready w'" using assms(3) unfolding pics_ready_def * by simp
qed

lemma start_drivers_ok:
  assumes "uart_live dev" "pic_readback dev"
  obtains w where "start_drivers dev k = Some (k\<lparr>k_io := w\<rparr>)" "irqs_programmed w"
    "outs 0x3F8 w = outs 0x3F8 (k_io k) @ map of_char (crlf driver_log)" "outs 0x40 w = outs 0x40 (k_io k) @ [0x9B, 0x2E]"
proof -
  let ?s1 = "''[M4] PIC remapped (Master: 32, Slave: 40).'' @ [LF]" and ?s2 = "''[M4] PIT timer configured at 100 Hz.'' @ [LF]"
    and ?s3 = "''[M4] PS/2 Keyboard driver active.'' @ [LF]"
  let ?w1 = "pic_init dev 32 40 (k_io k)"
  let ?k1 = "k\<lparr>k_io := ?w1\<rparr>"
  obtain w2 where 2: "serial dev ?s1 ?k1 = Some (?k1\<lparr>k_io := w2\<rparr>)" "sent (cstr ?s1) (k_io ?k1) w2"
    by (rule serial_ok [OF assms(1)])
  obtain w3 where 3: "pit_init dev 100 w2 = Some w3" "outs 0x40 w3 = outs 0x40 w2 @ [0x9B, 0x2E]"
    by (simp add: pit_init_def Let_def pic_enable_irq_def inb_def outb_def const_defs)
  let ?k3 = "k\<lparr>k_io := w3\<rparr>"
  obtain w4 where 4: "serial dev ?s2 ?k3 = Some (?k3\<lparr>k_io := w4\<rparr>)" "sent (cstr ?s2) (k_io ?k3) w4"
    by (rule serial_ok [OF assms(1)])
  let ?w5 = "pic_enable_irq dev 1 w4"
  let ?k5 = "k\<lparr>k_io := ?w5\<rparr>"
  obtain w6 where 6: "serial dev ?s3 ?k5 = Some (?k5\<lparr>k_io := w6\<rparr>)" "sent (cstr ?s3) (k_io ?k5) w6"
    by (rule serial_ok [OF assms(1)])
  note c1 = pic_init_chips [of dev 32 40 "k_io k"] and c2 = sent_chips [OF 2(2)] and c4 = sent_chips [OF 4(2)]
  have r2: "pics_ready w2" using c1(1) c2 by (simp add: pics_ready_def)
  note c3 = pit_init_chips [OF 3(1) assms(2) r2]
  have r4: "pics_ready w4" using c3(3) c4 by (simp add: pics_ready_def)
  note c5 = pic_enable_low [OF assms(2) r4, of 1]
  show ?thesis
  proof (rule that)
    show "start_drivers dev k = Some (k\<lparr>k_io := w6\<rparr>)"
      using 2(1) 3(1) 4(1) 6(1) by (simp add: start_drivers_def keyboard_init_def Let_def)
    have "irqs_programmed ?w5" using c1 c2 c3 c4 c5 r4 by (simp add: irqs_programmed_def pics_ready_def)
    then show "irqs_programmed w6" using irqs_programmed_sent [OF 6(2)] by simp
    show "outs 0x3F8 w6 = outs 0x3F8 (k_io k) @ map of_char (crlf driver_log)"
      using sent_outs [OF 2(2), of "0x3F8"] sent_outs [OF 4(2), of "0x3F8"] sent_outs [OF 6(2), of "0x3F8"]
        outs_drivers(5) [OF 3(1)] by (simp add: outs_drivers driver_log_def)
    show "outs 0x40 w6 = outs 0x40 (k_io k) @ [0x9B, 0x2E]"
      using sent_outs [OF 2(2), of "0x40"] sent_outs [OF 4(2), of "0x40"] sent_outs [OF 6(2), of "0x40"] 3(2)
      by (simp add: outs_drivers)
  qed
qed

definition greeting :: "act list" where
  "greeting = colored COLOR_GREEN [Both ([LF] @ ''=== NovaOS Interactive Shell ==='' @ [LF])] @
     [Both (''Type '' @ [CHR 0x27] @ ''help'' @ [CHR 0x27] @ '' to see available commands.'' @ [LF, LF])]"

definition greeting_log :: string where
  "greeting_log = [LF] @ ''=== NovaOS Interactive Shell ==='' @ [LF] @
     ''Type '' @ [CHR 0x27] @ ''help'' @ [CHR 0x27] @ '' to see available commands.'' @ [LF, LF] @
     ''[M7] Interactive Kernel Shell ready.'' @ [LF]"

lemma start_enable_ok:
  assumes "uart_live dev" "con_rep (k_fb k) c"
  obtains f w where "start_enable dev k = Some (k\<lparr>k_fb := f, k_io := w, k_cpu := sti (k_cpu k)\<rparr>)"
    "con_rep f (fst (fold act_step greeting (c, [])))" "sent greeting_log (k_io k) w"
proof -
  let ?t = "''[M7] Interactive Kernel Shell ready.'' @ [LF]"
  obtain k1 where k1: "shell_init dev k = Some k1" "krep dev k k1 (fold act_step greeting (c, []))"
    unfolding greeting_def by (rule performs_start [OF performs_init assms(2,1)])
  then obtain f w1 where 1: "k1 = k\<lparr>k_fb := f, k_io := w1\<rparr>" "con_rep f (fst (fold act_step greeting (c, [])))"
    "sent (snd (fold act_step greeting (c, []))) (k_io k) w1"
    unfolding krep_def screen_rep_def serial_rep_def by blast
  obtain w2 where 2: "serial dev ?t k1 = Some (k1\<lparr>k_io := w2\<rparr>)" "sent (cstr ?t) (k_io k1) w2"
    by (rule serial_ok [OF assms(1)])
  have "sent (snd (fold act_step greeting (c, [])) @ cstr ?t) (k_io k) w2" using sent_trans [OF 1(3), of "cstr ?t" w2] 1(1) 2(2) by simp
  then have "sent greeting_log (k_io k) w2"
    by (simp add: greeting_def greeting_log_def colored_def serial_app_def)
  moreover have "start_enable dev k = Some (k\<lparr>k_fb := f, k_io := w2, k_cpu := sti (k_cpu k)\<rparr>)"
    unfolding start_enable_def k1(1) using 2(1) 1(1) by simp
  ultimately show ?thesis using that 1(2) by blast
qed

text \<open>
  A framebuffer the console can draw on: at least one cell, a pitch that covers the width, and pixel numbers within 32
  bits.
\<close>

definition fb_fits :: "limine_framebuffer \<Rightarrow> bool" where
  "fb_fits fb \<longleftrightarrow> 8 \<le> unat (lf_width fb) \<and> 10 \<le> unat (lf_height fb) \<and> unat (lf_width fb) \<le> unat (lf_pitch fb) div 4 \<and>
     unat (lf_pitch fb) < 2 ^ 32 \<and> unat (lf_height fb) * (unat (lf_pitch fb) div 4) \<le> 2 ^ 32"

definition boot_console :: "limine_framebuffer \<Rightarrow> con" where
  "boot_console fb = con_blank (unat (lf_height fb) div 10) (unat (lf_width fb) div 8) COLOR_WHITE COLOR_DARK"

lemma start_framebuffer_ok:
  assumes "uart_live dev" "fb_fits fb" "s_fg (k_fb k) = COLOR_WHITE" "s_bg (k_fb k) = COLOR_DARK"
  defines "p \<equiv> set_panic_framebuffer (lf_address fb) (ucast (lf_width fb)) (ucast (lf_height fb)) (ucast (lf_pitch fb)) (k_panic k)"
  obtains f w where "start_framebuffer dev fb k = Some (k\<lparr>k_panic := p, k_fb := f, k_io := w\<rparr>)" "con_rep f (boot_console fb)"
    "sent (''[M1] GOP Framebuffer initialized.'' @ [LF]) (k_io k) w"
proof -
  let ?w = "ucast (lf_width fb) :: u32" and ?h = "ucast (lf_height fb) :: u32" and ?p = "ucast (lf_pitch fb) :: u32"
  have b: "unat (lf_width fb) < 2 ^ 32" "unat (lf_pitch fb) < 2 ^ 32" using assms(2) by (auto simp: fb_fits_def)
  have "unat (lf_height fb) * 2 \<le> unat (lf_height fb) * (unat (lf_pitch fb) div 4)"
    using assms(2) by (intro mult_le_mono2) (auto simp: fb_fits_def)
  also have "\<dots> \<le> 2 ^ 32" using assms(2) by (simp add: fb_fits_def)
  finally have u: "unat ?w = unat (lf_width fb)" "unat ?h = unat (lf_height fb)" "unat ?p = unat (lf_pitch fb)"
    using b by (simp_all add: unsigned_ucast_eq take_bit_eq_mod)
  let ?k = "k\<lparr>k_panic := p, k_fb := fb_init ?w ?h ?p (k_fb k)\<rparr>"
  let ?s = "''[M1] GOP Framebuffer initialized.'' @ [LF]"
  have "con_rep (fb_init ?w ?h ?p (k_fb k)) (boot_console fb)"
    using fb_init_rep [of ?w ?h ?p "k_fb k"] assms(2-4) unfolding u by (simp add: boot_console_def fb_fits_def)
  moreover obtain w where "serial dev ?s ?k = Some (?k\<lparr>k_io := w\<rparr>)" "sent (cstr ?s) (k_io ?k) w"
    by (rule serial_ok [OF assms(1)])
  ultimately show ?thesis using that by (simp add: start_framebuffer_def Let_def p_def)
qed

definition service_log :: string where
  "service_log = ''[M2/M4] IDT installed (32 Exceptions + IRQ0 + IRQ1).'' @ [LF] @
     ''[M6] Virtual File System mounted (RAM Disk).'' @ [LF] @ ''[M5] Round-robin scheduler active.'' @ [LF]"

lemma start_tables_ok:
  assumes "uart_live dev" "sched_create_task (lk_ticker lk) ''ticker'' (sched_init (k_sched k), k_heap k) = Some (r, s, h)"
  obtains w where "do { k \<leftarrow> start_idt dev lk k; k \<leftarrow> start_vfs dev k; start_sched dev lk k } =
      Some (k\<lparr>k_idt := Some (idt_init (lk_idt lk)), k_vfs := vfs_init (k_vfs k), k_sched := s, k_heap := h, k_io := w\<rparr>)"
    "sent service_log (k_io k) w"
proof -
  let ?s1 = "''[M2/M4] IDT installed (32 Exceptions + IRQ0 + IRQ1).'' @ [LF]"
  let ?s2 = "''[M6] Virtual File System mounted (RAM Disk).'' @ [LF]" and ?s3 = "''[M5] Round-robin scheduler active.'' @ [LF]"
  let ?k1 = "k\<lparr>k_idt := Some (idt_init (lk_idt lk))\<rparr>"
  obtain w1 where 1: "serial dev ?s1 ?k1 = Some (?k1\<lparr>k_io := w1\<rparr>)" "sent (cstr ?s1) (k_io ?k1) w1"
    by (rule serial_ok [OF assms(1)])
  let ?k2 = "?k1\<lparr>k_io := w1, k_vfs := vfs_init (k_vfs k)\<rparr>"
  obtain w2 where 2: "serial dev ?s2 ?k2 = Some (?k2\<lparr>k_io := w2\<rparr>)" "sent (cstr ?s2) (k_io ?k2) w2"
    by (rule serial_ok [OF assms(1)])
  let ?k3 = "?k2\<lparr>k_io := w2, k_sched := s, k_heap := h\<rparr>"
  obtain w3 where 3: "serial dev ?s3 ?k3 = Some (?k3\<lparr>k_io := w3\<rparr>)" "sent (cstr ?s3) (k_io ?k3) w3"
    by (rule serial_ok [OF assms(1)])
  have "sent (cstr ?s1 @ cstr ?s2 @ cstr ?s3) (k_io k) w3"
    using sent_trans [of "cstr ?s1" "k_io k" w1 "cstr ?s2 @ cstr ?s3" w3] sent_trans [of "cstr ?s2" w1 w2 "cstr ?s3" w3]
      1(2) 2(2) 3(2) by simp
  then show ?thesis
    using that 1(1) 2(1) 3(1) assms(2) by (simp add: start_idt_def start_vfs_def start_sched_def service_log_def Let_def)
qed

definition early_log :: "string \<Rightarrow> string" where
  "early_log memory_log = ''[M1] GOP Framebuffer initialized.'' @ [LF] @ memory_log @ driver_log @ service_log @ greeting_log"

definition boot_log :: "string \<Rightarrow> string" where
  "boot_log memory_log = early_log memory_log @ finish_message"

lemma start_services_ok:
  assumes dev: "uart_live dev" "pic_readback dev"
    and fb: "fb_fits fb" "s_fg (k_fb k) = COLOR_WHITE" "s_bg (k_fb k) = COLOR_DARK"
    and mem: "\<And>k'. k_pmm k' = k_pmm k \<Longrightarrow> k_heap k' = k_heap k \<Longrightarrow>
      \<exists>w. start_memory dev bi k' = Some (k'\<lparr>k_pmm := p, k_heap := h, k_io := w\<rparr>) \<and> sent mlog (k_io k') w"
    and task: "sched_create_task (lk_ticker lk) ''ticker'' (sched_init (k_sched k), h) = Some (r, s, h')"
  obtains f w k' where "start_services dev lk bi fb k = Some k'"
    "k' = k\<lparr>k_fb := f, k_io := w, k_panic := k_panic k', k_pmm := p, k_heap := h', k_idt := Some (idt_init (lk_idt lk)),
        k_vfs := vfs_init (k_vfs k), k_sched := s, k_cpu := sti (k_cpu k)\<rparr>"
    "con_rep f (fst (fold act_step greeting (boot_console fb, [])))" "irqs_programmed w"
    "outs 0x3F8 w = outs 0x3F8 (k_io k) @ map of_char (crlf (early_log mlog))" "outs 0x40 w = outs 0x40 (k_io k) @ [0x9B, 0x2E]"
proof -
  obtain f1 w1 pn where 1: "start_framebuffer dev fb k = Some (k\<lparr>k_panic := pn, k_fb := f1, k_io := w1\<rparr>)"
    "con_rep f1 (boot_console fb)" "sent (''[M1] GOP Framebuffer initialized.'' @ [LF]) (k_io k) w1"
    using start_framebuffer_ok [OF dev(1) fb] by metis
  let ?k1 = "k\<lparr>k_panic := pn, k_fb := f1, k_io := w1\<rparr>"
  obtain w2 where 2: "start_memory dev bi ?k1 = Some (?k1\<lparr>k_pmm := p, k_heap := h, k_io := w2\<rparr>)" "sent mlog w1 w2"
    using mem [of ?k1] by auto
  let ?k2 = "?k1\<lparr>k_pmm := p, k_heap := h, k_io := w2\<rparr>"
  obtain w3 where 3: "start_drivers dev ?k2 = Some (?k2\<lparr>k_io := w3\<rparr>)" "irqs_programmed w3"
    "outs 0x3F8 w3 = outs 0x3F8 (k_io ?k2) @ map of_char (crlf driver_log)" "outs 0x40 w3 = outs 0x40 (k_io ?k2) @ [0x9B, 0x2E]"
    by (rule start_drivers_ok [OF dev])
  let ?k3 = "?k2\<lparr>k_io := w3\<rparr>"
  have "sched_create_task (lk_ticker lk) ''ticker'' (sched_init (k_sched ?k3), k_heap ?k3) = Some (r, s, h')" using task by simp
  then obtain w4 where 4: "do { k \<leftarrow> start_idt dev lk ?k3; k \<leftarrow> start_vfs dev k; start_sched dev lk k } =
      Some (?k3\<lparr>k_idt := Some (idt_init (lk_idt lk)), k_vfs := vfs_init (k_vfs ?k3), k_sched := s, k_heap := h', k_io := w4\<rparr>)"
    "sent service_log (k_io ?k3) w4" by (rule start_tables_ok [OF dev(1)])
  let ?k4 = "?k3\<lparr>k_idt := Some (idt_init (lk_idt lk)), k_vfs := vfs_init (k_vfs ?k3), k_sched := s, k_heap := h', k_io := w4\<rparr>"
  have "con_rep (k_fb ?k4) (boot_console fb)" using 1(2) by simp
  then obtain f5 w5 where 5: "start_enable dev ?k4 = Some (?k4\<lparr>k_fb := f5, k_io := w5, k_cpu := sti (k_cpu ?k4)\<rparr>)"
    "con_rep f5 (fst (fold act_step greeting (boot_console fb, [])))" "sent greeting_log (k_io ?k4) w5"
    by (rule start_enable_ok [OF dev(1)])
  let ?k5 = "?k4\<lparr>k_fb := f5, k_io := w5, k_cpu := sti (k_cpu ?k4)\<rparr>"
  show ?thesis
  proof (rule that)
    have "start_services dev lk bi fb k =
        Option.bind (do { k \<leftarrow> start_idt dev lk ?k3; k \<leftarrow> start_vfs dev k; start_sched dev lk k }) (start_enable dev)"
      unfolding start_services_def 1(1) Option.bind.bind_lunit 2(1) 3(1) by simp
    also have "\<dots> = Some ?k5" unfolding 4(1) Option.bind.bind_lunit 5(1) ..
    finally show "start_services dev lk bi fb k = Some ?k5" .
    show "irqs_programmed w5"
      using 3(2) irqs_programmed_sent [OF 4(2)] irqs_programmed_sent [OF 5(3)] by simp
    show "outs 0x3F8 w5 = outs 0x3F8 (k_io k) @ map of_char (crlf (early_log mlog))"
      using sent_outs [OF 1(3), of "0x3F8"] sent_outs [OF 2(2), of "0x3F8"] sent_outs [OF 4(2), of "0x3F8"]
        sent_outs [OF 5(3), of "0x3F8"] 3(3) by (simp add: early_log_def)
    show "outs 0x40 w5 = outs 0x40 (k_io k) @ [0x9B, 0x2E]"
      using sent_outs [OF 1(3), of "0x40"] sent_outs [OF 2(2), of "0x40"] sent_outs [OF 4(2), of "0x40"]
        sent_outs [OF 5(3), of "0x40"] 3(4) by simp
  qed (use 5(2) in simp_all)
qed

subsection \<open>Memory and tasks at boot\<close>

definition boot_map :: "boot_info \<Rightarrow> memmap_entry list" where
  "boot_map bi = (case memmap_response bi of Some mr \<Rightarrow> take (unat (mr_entry_count mr)) (mr_entries mr) | None \<Rightarrow> [])"

definition boot_offset :: "boot_info \<Rightarrow> u64" where
  "boot_offset bi = (case hhdm_response bi of Some hr \<Rightarrow> hr_offset hr | None \<Rightarrow> 0)"

definition usable_page :: "memmap_entry list \<Rightarrow> nat \<Rightarrow> bool" where
  "usable_page es p \<longleftrightarrow> 256 \<le> p \<and> p < npages \<and>
     (\<exists>e \<in> set es. me_type e = LIMINE_MEMMAP_USABLE \<and> unat (me_base e) \<le> 4096 * p \<and> 4096 * p + 4096 \<le> entry_end e)"

text \<open>
  The memory map is sound, the lowest usable page above the first megabyte is \<open>P\<close>, and with it 64 pages in a row are
  usable; their addresses in the direct map do not wrap around.
\<close>

definition memory_ok :: "boot_info \<Rightarrow> nat \<Rightarrow> bool" where
  "memory_ok bi P \<longleftrightarrow> memmap_response bi \<noteq> None \<and> hhdm_response bi \<noteq> None \<and> memmap_ok (boot_map bi) \<and>
     (\<forall>p \<in> {P..<P + 64}. usable_page (boot_map bi) p) \<and> (\<forall>p. usable_page (boot_map bi) p \<longrightarrow> P \<le> p) \<and>
     unat (boot_offset bi) + P * 4096 + 262144 < 2 ^ 64"

definition memory_log :: string where
  "memory_log = ''[M3] PMM initialized (Bitmap physical allocator).'' @ [LF] @
     ''[M3] Kernel Heap initialized (kmalloc/kfree ready).'' @ [LF]"

definition warning_log :: string where
  "warning_log = ''[M3] Warning: Memory map or HHDM unavailable.'' @ [LF]"

definition memory_phase :: "device \<Rightarrow> boot_info \<Rightarrow> memory \<Rightarrow> pmm \<Rightarrow> heap \<Rightarrow> string \<Rightarrow> bool" where
  "memory_phase dev bi mem p h mlog \<longleftrightarrow> (\<forall>k. k_pmm k = pmm_boot \<longrightarrow> k_heap k = \<lparr>hmem = mem, s_head = 0\<rparr> \<longrightarrow>
     (\<exists>w. start_memory dev bi k = Some (k\<lparr>k_pmm := p, k_heap := h, k_io := w\<rparr>) \<and> sent mlog (k_io k) w))"

lemma start_memory_ok:
  assumes dev: "uart_live dev" and ok: "memory_ok bi P"
  obtains p h where "memory_phase dev bi mem p h memory_log" "pmm_inv p"
    "free_set p = {q. usable_page (boot_map bi) q} - {P..<P + 64}" "heap_rep h fresh_pool"
    "unat (s_head h) = unat (boot_offset bi) + P * 4096" "\<And>x. x \<notin> span (s_head h) 32 \<Longrightarrow> hmem h x = mem x"
proof -
  let ?h0 = "\<lparr>hmem = mem, s_head = 0\<rparr> :: heap"
  obtain mr hr where r: "memmap_response bi = Some mr" "hhdm_response bi = Some hr" using ok by (auto simp: memory_ok_def)
  then have m: "boot_map bi = take (unat (mr_entry_count mr)) (mr_entries mr)" "boot_offset bi = hr_offset hr"
    by (simp_all add: boot_map_def boot_offset_def)
  have "memmap_ok (boot_map bi)" using ok by (simp add: memory_ok_def)
  then obtain s where s: "pmm_init (hr_offset hr) (boot_map bi) pmm_boot = Some s" "pmm_inv s" "g_hhdm_offset s = boot_offset bi"
    "free_set s = {q. usable_page (boot_map bi) q}"
    using pmm_init_ready [of "boot_map bi" "hr_offset hr"] unfolding m(2) usable_page_def by blast
  obtain p h where i: "heap_init (s, ?h0) = (p, h)" by (cases "heap_init (s, ?h0)")
  have "{P..<P + 64} \<subseteq> free_set s" "\<forall>q \<in> free_set s. P \<le> q" "unat (g_hhdm_offset s) + P * 4096 + 262144 < 2 ^ 64"
    using ok s(3,4) by (auto simp: memory_ok_def)
  note H = heap_init_ready [OF s(2) this, of ?h0, unfolded i prod.case s(3,4)]
  let ?s1 = "''[M3] PMM initialized (Bitmap physical allocator).'' @ [LF]"
  let ?s2 = "''[M3] Kernel Heap initialized (kmalloc/kfree ready).'' @ [LF]"
  have "memory_phase dev bi mem p h memory_log"
    unfolding memory_phase_def
  proof (intro allI impI)
    fix k :: kernel assume k: "k_pmm k = pmm_boot" "k_heap k = ?h0"
    let ?k1 = "k\<lparr>k_pmm := s\<rparr>"
    obtain w1 where 1: "serial dev ?s1 ?k1 = Some (?k1\<lparr>k_io := w1\<rparr>)" "sent (cstr ?s1) (k_io ?k1) w1"
      by (rule serial_ok [OF dev])
    let ?k2 = "k\<lparr>k_io := w1, k_pmm := p, k_heap := h\<rparr>"
    obtain w2 where 2: "serial dev ?s2 ?k2 = Some (?k2\<lparr>k_io := w2\<rparr>)" "sent (cstr ?s2) (k_io ?k2) w2"
      by (rule serial_ok [OF dev])
    have "?k2\<lparr>k_io := w2\<rparr> = k\<lparr>k_pmm := p, k_heap := h, k_io := w2\<rparr>" by (cases k) simp
    then have "start_memory dev bi k = Some (k\<lparr>k_pmm := p, k_heap := h, k_io := w2\<rparr>)"
      using r s(1) k 1(1) 2(1) i by (simp add: start_memory_def m)
    moreover have "sent memory_log (k_io k) w2"
      using sent_trans [of "cstr ?s1" "k_io k" w1 "cstr ?s2" w2] 1(2) 2(2) by (simp add: memory_log_def)
    ultimately show "\<exists>w. start_memory dev bi k = Some (k\<lparr>k_pmm := p, k_heap := h, k_io := w\<rparr>) \<and> sent memory_log (k_io k) w"
      by blast
  qed
  with H show ?thesis by (intro that) auto
qed

lemma start_memory_missing:
  assumes "uart_live dev" "memmap_response bi = None \<or> hhdm_response bi = None"
  shows "memory_phase dev bi mem pmm_boot \<lparr>hmem = mem, s_head = 0\<rparr> warning_log"
  unfolding memory_phase_def
proof (intro allI impI)
  fix k :: kernel assume k: "k_pmm k = pmm_boot" "k_heap k = \<lparr>hmem = mem, s_head = 0\<rparr>"
  obtain w where w: "serial dev warning_log k = Some (k\<lparr>k_io := w\<rparr>)" "sent (cstr warning_log) (k_io k) w"
    by (rule serial_ok [OF assms(1)])
  have "k\<lparr>k_io := w\<rparr> = k\<lparr>k_pmm := pmm_boot, k_heap := \<lparr>hmem = mem, s_head = 0\<rparr>, k_io := w\<rparr>" using k by simp
  then show "\<exists>w. start_memory dev bi k = Some (k\<lparr>k_pmm := pmm_boot, k_heap := \<lparr>hmem = mem, s_head = 0\<rparr>, k_io := w\<rparr>) \<and>
      sent warning_log (k_io k) w"
    using w assms(2) by (auto simp: start_memory_def warning_log_def split: option.splits)
qed

text \<open>The scheduler on the fresh pool: the boot context is task 0 and the ticker becomes task 1.\<close>

lemma fresh_pool_alloc:
  assumes "heap_rep h fresh_pool"
  shows "fst (the (kmalloc 16384 h)) \<noteq> 0"
proof -
  have n: "unat (((16384 :: u64) + 7) AND NOT 7) = 16384" by (subst round_up_8) simp_all
  have a: "abs_malloc 16384 fresh_pool = Some (0, [(16384, False), (245696, True)])" by (simp add: fresh_pool_def)
  obtain h' where k: "kmalloc 16384 h = Some (s_head h + of_nat (0 + 32), h')"
    using kmalloc_spec [OF assms, of 16384] unfolding n a by auto
  have "block_at 0 fresh_pool = Some (262112, True)" by (simp add: fresh_pool_def)
  from alloc_nonnull [OF assms this] k show ?thesis by simp
qed

lemma sys_ok_start:
  assumes "heap_rep h fresh_pool" "B \<inter> pool_span h = {}"
  shows "sys_ok B (sched_init sched_boot, h, c)"
proof -
  have "pool_ok h" using assms(1) blocks_wf_fresh by (auto simp: inv_defs)
  with assms(2) show ?thesis
    using sched_inv_boot by (simp add: sys_ok_def stacks_ok_def) (simp add: sched_init_def)
qed

lemma start_task:
  assumes "heap_rep h fresh_pool" "B \<inter> pool_span h = {}"
  obtains s h' where "sched_create_task e ''ticker'' (sched_init sched_boot, h) = Some (1, s, h')" "sys_ok B (s, h', c)"
    "s_count s = 2" "s_current s = 0" "cstr (t_name (task s 1)) = ''ticker''"
    "task_ctx (s, h', c) 1 = \<lparr>ctx_regs = replicate 6 0, ctx_rip = e, ctx_rsp = t_stack_base (task s 1) + 16384\<rparr>"
proof -
  have i: "s_count (sched_init sched_boot) = 1" "s_current (sched_init sched_boot) = 0" by (simp_all add: sched_init_def)
  show ?thesis
    using sys_create [OF sys_ok_start [OF assms], of e "''ticker''" c] fresh_pool_alloc [OF assms(1)] that by (auto simp: i)
qed

lemma sched_create_head:
  assumes "sched_inv s" "pool_ok h" "sched_create_task e n (s, h) = Some (r, s', h')"
  shows "s_head h' = s_head h"
proof (rule sched_create_returns [OF assms(1,2), of e n])
  fix p h1 m
  assume k: "kmalloc 16384 h = Some (p, h1)" and eq: "sched_create_task e n (s, h) = Some (s_count s,
         s\<lparr>s_tasks := (s_tasks s)[unat (s_count s) := \<lparr>t_rsp = p + 16328, t_stack_base = p, t_state = READY,
             t_id = s_count s, t_name = copy_str (t_name (task s (s_count s))) n 24\<rparr>],
           s_count := s_count s + 1\<rparr>, h1\<lparr>hmem := m\<rparr>)"
  from eq assms(3) have "h' = h1\<lparr>hmem := m\<rparr>" by simp
  then show ?thesis using kmalloc_outside_pool [OF assms(2) k] by simp
qed (use assms(3) in simp_all)

text \<open>The stack of a task lies in the pool.\<close>

lemma task_stack_in_pool:
  assumes "sys_ok B (s, h, c)" "0 < i" "i < unat (s_count s)"
  shows "span (t_stack_base (s_tasks s ! i)) 16384 \<subseteq> pool_span h"
proof -
  obtain t where t: "16384 \<le> t" "(t_stack_base (s_tasks s ! i), t) \<in> live h"
    using assms by (auto simp: sys_ok_def stacks_ok_def)
  have "span (t_stack_base (s_tasks s ! i)) t \<subseteq> pool_span h" using live_in_pool t(2) assms(1) by (simp add: sys_ok_def)
  then show ?thesis using span_mono [OF t(1)] by blast
qed

lemma start_task_null:
  "\<exists>s. sched_create_task e ''ticker'' (sched_init sched_boot, \<lparr>hmem = mem, s_head = 0\<rparr>) =
     Some (0xFFFFFFFF, s, \<lparr>hmem = mem, s_head = 0\<rparr>) \<and> sched_inv s \<and> s_count s = 1 \<and> s_current s = 0"
proof -
  have k: "kmalloc (TASK_STACK_PAGES * 4096) \<lparr>hmem = mem, s_head = 0\<rparr> = Some (0, \<lparr>hmem = mem, s_head = 0\<rparr>)"
    by (simp add: kmalloc_def kmalloc_loop.simps [of _ 0] const_defs)
  have i: "s_count (sched_init sched_boot) = 1" "s_current (sched_init sched_boot) = 0" by (simp_all add: sched_init_def)
  have full: "\<not> MAX_TASKS \<le> 1" by (simp add: MAX_TASKS_def word_le_nat_alt)
  let ?s = "sched_init sched_boot"
  let ?t = "(task ?s 1)\<lparr>t_id := 1, t_state := READY, t_name := copy_str (t_name (task ?s 1)) ''ticker'' 24, t_stack_base := 0\<rparr>"
  have "sched_create_task e ''ticker'' (?s, \<lparr>hmem = mem, s_head = 0\<rparr>) =
      Some (0xFFFFFFFF, upd_task 1 (\<lambda>_. ?t) ?s, \<lparr>hmem = mem, s_head = 0\<rparr>)"
    by (simp add: sched_create_task_def setup_initial_stack_def i k full Let_def)
  moreover have "sched_inv (upd_task 1 (\<lambda>_. ?t) ?s)"
    using sched_inv_boot by (auto simp: inv_defs upd_task_def i nth_list_update)
  ultimately show ?thesis by (simp add: upd_task_def i)
qed

subsection \<open>The whole sequence\<close>

text \<open>The loader supports the requested revision and provides a framebuffer.\<close>

definition boot_fb :: "boot_info \<Rightarrow> limine_framebuffer" where
  "boot_fb bi = fr_framebuffers (the (framebuffer_response bi)) ! 0"

definition loader_ok :: "boot_info \<Rightarrow> bool" where
  "loader_ok bi \<longleftrightarrow> LIMINE_BASE_REVISION_SUPPORTED bi \<and> fb_fits (boot_fb bi) \<and>
     (case framebuffer_response bi of Some r \<Rightarrow> 1 \<le> fr_framebuffer_count r | None \<Rightarrow> False)"

lemma start_to_sti_ok:
  assumes dev: "uart_live dev" "pic_readback dev" and bi: "loader_ok bi" and mem: "memory_phase dev bi mem p h mlog"
    and task: "sched_create_task (lk_ticker lk) ''ticker'' (sched_init sched_boot, h) = Some (r, s, h')"
  obtains k where "start_to_sti dev lk bi (kernel_boot mem c) = Returns k" "k_pmm k = p" "k_heap k = h'" "k_sched k = s"
    "k_cpu k = sti c" "k_kbd k = kbd_boot" "k_vfs k = vfs_init vfs_boot" "k_pit k = \<lparr>pit_s_ticks = 0\<rparr>"
    "k_gdt k = Some (gdt_init (lk_gdt lk))" "k_idt k = Some (idt_init (lk_idt lk))"
    "con_rep (k_fb k) (fst (fold act_step greeting (boot_console (boot_fb bi), [])))" "irqs_programmed (k_io k)"
    "outs 0x3F8 (k_io k) = 0x03 # map of_char (crlf (banner_log @ early_log mlog))" "outs 0x40 (k_io k) = [0x9B, 0x2E]"
proof -
  let ?b = "kernel_boot mem c"
  obtain w where 1: "start_early dev lk ?b = Some (?b\<lparr>k_io := w, k_gdt := Some (gdt_init (lk_gdt lk))\<rparr>)"
    "sent banner_log (init_serial (k_io ?b)) w" by (rule start_early_ok [OF dev(1)])
  let ?k = "?b\<lparr>k_io := w, k_gdt := Some (gdt_init (lk_gdt lk))\<rparr>"
  have o: "outs 0x3F8 (k_io ?k) = 0x03 # map of_char (crlf banner_log)" "outs 0x40 (k_io ?k) = []"
    using sent_outs [OF 1(2)] by (simp_all add: init_serial_def outb_def kernel_boot_def)
  have fb: "fb_fits (boot_fb bi)" using bi by (simp add: loader_ok_def)
  have colors: "s_fg (k_fb ?k) = COLOR_WHITE" "s_bg (k_fb ?k) = COLOR_DARK" by (simp_all add: kernel_boot_def fb_boot_def)
  have m: "\<exists>w. start_memory dev bi k' = Some (k'\<lparr>k_pmm := p, k_heap := h, k_io := w\<rparr>) \<and> sent mlog (k_io k') w"
    if "k_pmm k' = k_pmm ?k" "k_heap k' = k_heap ?k" for k' :: kernel
    using mem that by (simp add: memory_phase_def kernel_boot_def)
  have t: "sched_create_task (lk_ticker lk) ''ticker'' (sched_init (k_sched ?k), h) = Some (r, s, h')"
    using task by (simp add: kernel_boot_def)
  obtain f w' k where S: "start_services dev lk bi (boot_fb bi) ?k = Some k"
    and k: "k = ?k\<lparr>k_fb := f, k_io := w', k_panic := k_panic k, k_pmm := p, k_heap := h', k_idt := Some (idt_init (lk_idt lk)),
        k_vfs := vfs_init (k_vfs ?k), k_sched := s, k_cpu := sti (k_cpu ?k)\<rparr>"
    and R: "con_rep f (fst (fold act_step greeting (boot_console (boot_fb bi), [])))" "irqs_programmed w'"
      "outs 0x3F8 w' = outs 0x3F8 (k_io ?k) @ map of_char (crlf (early_log mlog))" "outs 0x40 w' = outs 0x40 (k_io ?k) @ [0x9B, 0x2E]"
    by (rule start_services_ok [OF dev fb colors m t])
  have st: "start_to_sti dev lk bi ?b = Returns k"
    using bi S unfolding start_to_sti_def 1(1) loader_ok_def boot_fb_def
    by (auto simp: returns_def not_less split: option.splits)
  have fields: "k_fb k = f" "k_io k = w'" "k_pmm k = p" "k_heap k = h'" "k_sched k = s" "k_cpu k = sti c" "k_kbd k = kbd_boot"
    "k_vfs k = vfs_init vfs_boot" "k_pit k = \<lparr>pit_s_ticks = 0\<rparr>"
    "k_gdt k = Some (gdt_init (lk_gdt lk))" "k_idt k = Some (idt_init (lk_idt lk))"
    by (subst k, simp add: kernel_boot_def)+
  show ?thesis by (rule that [OF st]) (use fields R o in simp_all)
qed

lemma start_ok:
  assumes dev: "uart_live dev" "pic_readback dev" and bi: "loader_ok bi" and mem: "memory_phase dev bi mem p h mlog"
    and task: "sched_create_task (lk_ticker lk) ''ticker'' (sched_init sched_boot, h) = Some (r, s, h')"
  obtains k where "start dev lk bi (kernel_boot mem c) = Returns k" "k_pmm k = p" "k_heap k = h'" "k_sched k = s"
    "k_cpu k = sti c" "k_kbd k = kbd_boot" "k_vfs k = vfs_init vfs_boot" "k_pit k = \<lparr>pit_s_ticks = 0\<rparr>"
    "k_gdt k = Some (gdt_init (lk_gdt lk))" "k_idt k = Some (idt_init (lk_idt lk))"
    "con_rep (k_fb k) (fst (fold act_step greeting (boot_console (boot_fb bi), [])))" "irqs_programmed (k_io k)"
    "outs 0x3F8 (k_io k) = 0x03 # map of_char (crlf (banner_log @ boot_log mlog))" "outs 0x40 (k_io k) = [0x9B, 0x2E]"
proof -
  obtain k where k: "start_to_sti dev lk bi (kernel_boot mem c) = Returns k" "k_pmm k = p" "k_heap k = h'" "k_sched k = s"
    "k_cpu k = sti c" "k_kbd k = kbd_boot" "k_vfs k = vfs_init vfs_boot" "k_pit k = \<lparr>pit_s_ticks = 0\<rparr>"
    "k_gdt k = Some (gdt_init (lk_gdt lk))" "k_idt k = Some (idt_init (lk_idt lk))"
    "con_rep (k_fb k) (fst (fold act_step greeting (boot_console (boot_fb bi), [])))" "irqs_programmed (k_io k)"
    "outs 0x3F8 (k_io k) = 0x03 # map of_char (crlf (banner_log @ early_log mlog))" "outs 0x40 (k_io k) = [0x9B, 0x2E]"
    by (rule start_to_sti_ok [OF assms])
  obtain w where w: "serial dev finish_message k = Some (k\<lparr>k_io := w\<rparr>)" "sent (cstr finish_message) (k_io k) w" by (rule serial_ok [OF dev(1)])
  have "cstr finish_message = finish_message" by (simp add: finish_message_def)
  note W = w(2) [unfolded this]
  show ?thesis
    by (rule that [of "k\<lparr>k_io := w\<rparr>"])
      (use k w(1) irqs_programmed_sent [OF W] sent_outs [OF W, of "0x3F8"] sent_outs [OF W, of "0x40"] in
        \<open>simp_all add: start_def returns_def boot_log_def\<close>)
qed

subsection \<open>A machine to boot\<close>

definition demo_framebuffer :: limine_framebuffer_response where
  "demo_framebuffer = \<lparr>fr_revision = 0, fr_framebuffer_count = 1, fr_framebuffers =
     [\<lparr>lf_address = 0xFFFF8000FD000000, lf_width = 1280, lf_height = 800, lf_pitch = 5120, lf_bpp = 32, lf_memory_model = 1,
       lf_red_mask_size = 8, lf_red_mask_shift = 16, lf_green_mask_size = 8, lf_green_mask_shift = 8,
       lf_blue_mask_size = 8, lf_blue_mask_shift = 0\<rparr>]\<rparr>"

definition demo_boot :: boot_info where
  "demo_boot = answered (Some demo_framebuffer)
     (Some \<lparr>mr_revision = 0, mr_entry_count = 2, mr_entries =
       [\<lparr>me_base = 0, me_length = 0x9F000, me_type = 0\<rparr>, \<lparr>me_base = 0x100000, me_length = 0x100000, me_type = 0\<rparr>]\<rparr>)
     (Some \<lparr>hr_revision = 0, hr_offset = 0xFFFF800000000000\<rparr>) boot_image"

text \<open>The same machine with a loader that has no memory map.\<close>

definition demo_blind :: boot_info where
  "demo_blind = answered (Some demo_framebuffer) None (Some \<lparr>hr_revision = 0, hr_offset = 0xFFFF800000000000\<rparr>) boot_image"

definition demo_link :: link where
  "demo_link = \<lparr>
     lk_gdt = \<lparr>addr_kernel_tss = 0xFFFFFFFF80010000, addr_kernel_stack = 0xFFFFFFFF80012000, addr_full_gdt = 0xFFFFFFFF80011000\<rparr>,
     lk_idt = \<lparr>isr_stub_table = map (\<lambda>i. 0xFFFFFFFF80001000 + 16 * of_nat i) [0..<32],
       addr_irq_stub_0 = 0xFFFFFFFF80001200, addr_irq_stub_1 = 0xFFFFFFFF80001300, addr_idt = 0xFFFFFFFF80014000\<rparr>,
     lk_ticker = 0xFFFFFFFF80002000\<rparr>"

lemma demo_boot_ok: "loader_ok demo_boot" "memory_ok demo_boot 256" "boot_offset demo_boot = 0xFFFF800000000000"
  "loader_ok demo_blind"
proof -
  note image = answered_def boot_image_def LIMINE_BASE_REVISION_def demo_framebuffer_def
  show "loader_ok demo_boot" "loader_ok demo_blind"
    by (simp_all add: loader_ok_def LIMINE_BASE_REVISION_SUPPORTED_def demo_boot_def demo_blind_def image boot_fb_def fb_fits_def)
  have m: "boot_map demo_boot = [\<lparr>me_base = 0, me_length = 0x9F000, me_type = 0\<rparr>, \<lparr>me_base = 0x100000, me_length = 0x100000, me_type = 0\<rparr>]"
    by (simp add: boot_map_def demo_boot_def image)
  show off: "boot_offset demo_boot = 0xFFFF800000000000" by (simp add: boot_offset_def demo_boot_def image)
  have "memmap_ok (boot_map demo_boot)"
    unfolding m by (simp add: memmap_ok_def memmap_entry_ok_def usable_def entry_end_def const_defs)
  moreover have "usable_page (boot_map demo_boot) p \<longleftrightarrow> 256 \<le> p \<and> p < 512" for p
    unfolding m usable_page_def by (auto simp: entry_end_def const_defs)
  moreover have "memmap_response demo_boot \<noteq> None" "hhdm_response demo_boot \<noteq> None" by (simp_all add: demo_boot_def image)
  ultimately show "memory_ok demo_boot 256" unfolding memory_ok_def off by auto
qed

subsection \<open>Properties\<close>

text \<open>
  Claim C7. With a loader that answers all requests, a live serial line and interrupt controllers that read back their
  masks, \<open>_start\<close> reaches the shell: the boot messages have gone out in order, the controllers deliver from vectors 32 and 40
  with only timer and keyboard unmasked, the timer runs at 1193180 / 11931 Hz, both descriptor tables are loaded, the
  greeting is on a cleared screen, the three files are mounted, no key is pending and interrupts are enabled.
\<close>

theorem start_boots:
  assumes "uart_live dev" "pic_readback dev" "loader_ok bi" "memory_ok bi P"
  shows "\<exists>k. start dev lk bi (kernel_boot mem c) = Returns k \<and>
    outs 0x3F8 (k_io k) = 0x03 # map of_char (crlf (banner_log @ boot_log memory_log)) \<and>
    irqs_programmed (k_io k) \<and> outs 0x40 (k_io k) = [0x9B, 0x2E] \<and>
    k_gdt k = Some (gdt_init (lk_gdt lk)) \<and> k_idt k = Some (idt_init (lk_idt lk)) \<and>
    con_rep (k_fb k) (fst (fold act_step greeting (boot_console (boot_fb bi), []))) \<and>
    vfs_inv (k_vfs k) \<and> files (k_vfs k) = init_files \<and>
    kbd_inv (k_kbd k) \<and> kb_items (k_kbd k) = [] \<and> bit (rflags (k_cpu k)) 9"
proof -
  obtain p h where m: "memory_phase dev bi mem p h memory_log" "heap_rep h fresh_pool"
    by (rule start_memory_ok [OF assms(1,4)])
  obtain s h' where t: "sched_create_task (lk_ticker lk) ''ticker'' (sched_init sched_boot, h) = Some (1, s, h')"
    using start_task [OF m(2), of "{}"] by (metis inf_bot_left)
  show ?thesis
    by (rule start_ok [OF assms(1-3) m(1) t, of c]) (use plain_init kbd_inv_boot in \<open>auto simp: sti_def bit_simps\<close>)
qed

lemma start_boots_witness:
  "\<exists>k. start pic_dev demo_link demo_boot (kernel_boot (\<lambda>_. 0) cpu_zero) = Returns k \<and> irqs_programmed (k_io k) \<and> files (k_vfs k) = init_files"
  using start_boots [OF pic_dev_ok(2,1) demo_boot_ok(1,2), of demo_link "\<lambda>_. 0" cpu_zero] by blast

text \<open>
  Claim C18. The memory and the tasks at the end of the boot, when the loader provides a memory map and the direct-map offset,
  the lowest usable page \<open>P\<close> above the first megabyte starts 64 usable pages in a row, and the loader's stack \<open>B\<close> does not
  meet the 256 KB of these pages in the direct map: the free pages are the usable pages above the first megabyte without
  the 64 pages of the heap, the counter agrees with the bitmap, the heap starts at the address of \<open>P\<close> in the direct map, and there
  are two tasks, the boot context running on \<open>B\<close> and the ticker, which will start at its entry point on an empty
  stack of its own inside the heap, hence disjoint from \<open>B\<close>.  (Without 64 pages in a row \<open>heap_init\<close> does not notice that its
  pool is too short, see \<open>heap_init_ignores_oom\<close>.)
\<close>

theorem start_memory_ready:
  assumes "uart_live dev" "pic_readback dev" "loader_ok bi" "memory_ok bi P"
    and "B \<inter> span (boot_offset bi + of_nat P * 4096) 262144 = {}"
  shows "\<exists>k. start dev lk bi (kernel_boot mem c) = Returns k \<and>
    pmm_inv (k_pmm k) \<and> free_set (k_pmm k) = {q. usable_page (boot_map bi) q} - {P..<P + 64} \<and>
    s_head (k_heap k) = boot_offset bi + of_nat P * 4096 \<and>
    sys_ok B (k_sched k, k_heap k, k_cpu k) \<and> s_count (k_sched k) = 2 \<and> s_current (k_sched k) = 0 \<and>
    span (t_stack_base (task (k_sched k) 1)) 16384 \<subseteq> span (boot_offset bi + of_nat P * 4096) 262144 \<and>
    span (t_stack_base (task (k_sched k) 1)) 16384 \<inter> B = {} \<and>
    cstr (t_name (task (k_sched k) 1)) = ''ticker'' \<and>
    task_ctx (k_sched k, k_heap k, k_cpu k) 1 =
      \<lparr>ctx_regs = replicate 6 0, ctx_rip = lk_ticker lk, ctx_rsp = t_stack_base (task (k_sched k) 1) + 16384\<rparr>"
proof -
  obtain p h where m: "memory_phase dev bi mem p h memory_log" "pmm_inv p"
    "free_set p = {q. usable_page (boot_map bi) q} - {P..<P + 64}" "heap_rep h fresh_pool"
    "unat (s_head h) = unat (boot_offset bi) + P * 4096"
    by (rule start_memory_ok [OF assms(1,4)])
  have "of_nat (unat (s_head h)) = boot_offset bi + of_nat P * 4096" unfolding m(5) by simp
  then have "B \<inter> pool_span h = {}" using assms(5) by (simp add: pool_span_def)
  then obtain s h' where t: "sched_create_task (lk_ticker lk) ''ticker'' (sched_init sched_boot, h) = Some (1, s, h')"
    "sys_ok B (s, h', sti c)" "s_count s = 2" "s_current s = 0" "cstr (t_name (task s 1)) = ''ticker''"
    "task_ctx (s, h', sti c) 1 = \<lparr>ctx_regs = replicate 6 0, ctx_rip = lk_ticker lk, ctx_rsp = t_stack_base (task s 1) + 16384\<rparr>"
    by (rule start_task [OF m(4)])
  have head: "s_head h = boot_offset bi + of_nat P * 4096" using \<open>of_nat (unat (s_head h)) = _\<close> by simp
  have "s_head h' = s_head h"
    by (rule sched_create_head [OF sched_inv_boot _ t(1)]) (use m(4) blocks_wf_fresh in \<open>auto simp: pool_ok_def\<close>)
  moreover have "span (t_stack_base (task s 1)) 16384 \<subseteq> pool_span h'"
    using task_stack_in_pool [OF t(2), of 1] t(3) by simp
  moreover have "B \<inter> pool_span h' = {}" using t(2) by (simp add: sys_ok_def stacks_ok_def)
  ultimately have st: "s_head h' = boot_offset bi + of_nat P * 4096"
    "span (t_stack_base (task s 1)) 16384 \<subseteq> span (boot_offset bi + of_nat P * 4096) 262144"
    "span (t_stack_base (task s 1)) 16384 \<inter> B = {}"
    using head by (auto simp: pool_span_def)
  show ?thesis by (rule start_ok [OF assms(1-3) m(1) t(1), of c]) (use m t st in auto)
qed

lemma start_memory_ready_witness:
  "\<exists>k. start pic_dev demo_link demo_boot (kernel_boot (\<lambda>_. 0) cpu_zero) = Returns k \<and>
     sys_ok (span 0xFFFF800000200000 65536) (k_sched k, k_heap k, k_cpu k) \<and> s_count (k_sched k) = 2"
proof -
  have "span 0xFFFF800000200000 65536 \<inter> span (boot_offset demo_boot + of_nat 256 * 4096) 262144 = {}"
    unfolding demo_boot_ok(3) by (subst Int_commute, rule span_disjoint_le) simp_all
  from start_memory_ready [OF pic_dev_ok(2,1) demo_boot_ok(1,2) this, of demo_link "\<lambda>_. 0" cpu_zero] show ?thesis by blast
qed

text \<open>
  Without a memory map or without the direct-map offset the boot goes on with a warning: no page and no block can
  be allocated, the ticker cannot be created and the result of \<open>sched_create_task\<close> is ignored, so the boot context stays the
  only task and the shell is reached all the same.
\<close>

lemma start_without_memory:
  assumes "uart_live dev" "pic_readback dev" "loader_ok bi" "memmap_response bi = None \<or> hhdm_response bi = None"
  shows "\<exists>k. start dev lk bi (kernel_boot mem c) = Returns k \<and>
    outs 0x3F8 (k_io k) = 0x03 # map of_char (crlf (banner_log @ boot_log warning_log)) \<and>
    pmm_alloc (k_pmm k) = (0, k_pmm k) \<and> (\<forall>n. kmalloc n (k_heap k) = Some (0, k_heap k)) \<and>
    sched_inv (k_sched k) \<and> s_count (k_sched k) = 1 \<and> bit (rflags (k_cpu k)) 9"
proof -
  let ?h = "\<lparr>hmem = mem, s_head = 0\<rparr> :: heap"
  obtain s where s: "sched_create_task (lk_ticker lk) ''ticker'' (sched_init sched_boot, ?h) = Some (0xFFFFFFFF, s, ?h)"
    "sched_inv s" "s_count s = 1" using start_task_null [of "lk_ticker lk" mem] by blast
  have a: "kmalloc n ?h = Some (0, ?h)" for n by (simp add: kmalloc_def kmalloc_loop.simps [of _ 0])
  have "free_set pmm_boot = {}" by (simp add: free_set_def page_free_def pmm_boot_def)
  then have p: "pmm_alloc pmm_boot = (0, pmm_boot)" by (simp add: pmm_alloc_eq)
  obtain k where "start dev lk bi (kernel_boot mem c) = Returns k" "k_pmm k = pmm_boot" "k_heap k = ?h" "k_sched k = s" "k_cpu k = sti c"
    "outs 0x3F8 (k_io k) = 0x03 # map of_char (crlf (banner_log @ boot_log warning_log))"
    by (rule start_ok [OF assms(1-3) start_memory_missing [OF assms(1,4), of mem] s(1), of c])
  then show ?thesis using s(2,3) a p by (auto simp: sti_def bit_simps)
qed

text \<open>
  Claim C32. When the loader does not support the requested revision or provides no framebuffer, the boot ends in a panic:
  after the banner the report with the reason has gone out, interrupts are disabled, nothing has been drawn, and no part
  of the kernel but the segment table has been initialised.
\<close>

theorem start_panics:
  assumes "uart_live dev"
    and "\<not> LIMINE_BASE_REVISION_SUPPORTED bi \<or> (case framebuffer_response bi of None \<Rightarrow> True | Some r \<Rightarrow> fr_framebuffer_count r = 0)"
  shows "\<exists>w. start dev lk bi (kernel_boot mem c) =
      Panicked ((kernel_boot mem c)\<lparr>k_io := w, k_gdt := Some (gdt_init (lk_gdt lk)), k_cpu := cli c\<rparr>) \<and>
    outs 0x3F8 w = 0x03 # map of_char (crlf (banner_log @ panic_report
      (if LIMINE_BASE_REVISION_SUPPORTED bi then ''No framebuffer provided by bootloader!'' else ''Limine base revision unsupported!'')))"
proof -
  let ?b = "kernel_boot mem c"
  let ?msg = "if LIMINE_BASE_REVISION_SUPPORTED bi then ''No framebuffer provided by bootloader!'' else ''Limine base revision unsupported!''"
  obtain w where 1: "start_early dev lk ?b = Some (?b\<lparr>k_io := w, k_gdt := Some (gdt_init (lk_gdt lk))\<rparr>)"
    "sent banner_log (init_serial (k_io ?b)) w" by (rule start_early_ok [OF assms(1)])
  let ?k = "?b\<lparr>k_io := w, k_gdt := Some (gdt_init (lk_gdt lk))\<rparr>"
  have "start dev lk bi ?b = panics dev ?msg ?k"
    using assms(2) unfolding start_def start_to_sti_def 1(1) by (auto simp: panics_def split: option.splits)
  moreover obtain w' where "panics dev ?msg ?k = Panicked (?k\<lparr>k_cpu := cli (k_cpu ?k), k_io := w',
         k_fb := (k_fb ?k)\<lparr>fb_pix := red_screen (k_panic ?k) (fb_pix (k_fb ?k))\<rparr>\<rparr>)"
    and w': "sent (panic_report ?msg) (k_io ?k) w'"
    using meets_panics [OF assms(1), of ?k "con_blank 0 0 0 0" ?msg] by (auto simp: meets_def)
  ultimately have "start dev lk bi ?b = Panicked (?b\<lparr>k_io := w', k_gdt := Some (gdt_init (lk_gdt lk)), k_cpu := cli c\<rparr>)"
    by (simp add: kernel_boot_def red_screen_def panic_boot_def)
  moreover have "outs 0x3F8 w' = 0x03 # map of_char (crlf (banner_log @ panic_report ?msg))"
    using sent_outs [OF 1(2), of "0x3F8"] sent_outs [OF w', of "0x3F8"] by (simp add: init_serial_def outb_def kernel_boot_def)
  ultimately show ?thesis by blast
qed

lemma start_panics_witness:
  "\<exists>k. start ready_dev demo_link boot_image (kernel_boot (\<lambda>_. 0) cpu_zero) = Panicked k \<and>
     outs 0x3F8 (k_io k) = 0x03 # map of_char (crlf (banner_log @ panic_report ''Limine base revision unsupported!''))"
proof -
  have "\<not> LIMINE_BASE_REVISION_SUPPORTED boot_image"
    by (simp add: LIMINE_BASE_REVISION_SUPPORTED_def boot_image_def LIMINE_BASE_REVISION_def)
  then show ?thesis using start_panics [OF uart_live_ready, of boot_image demo_link "\<lambda>_. 0" cpu_zero] by auto
qed


end
