(* ===== verification/Calls.thy ===== *)
theory Calls
  imports Shell
begin

section \<open>The shell as a sequence of calls\<close>

text \<open>
  Interrupts arrive between any two operations of the shell.  Here the shell is cut into the operations between
  which they can arrive: a colour change, one character on the screen, one on the serial line, one read of a counter.  \<open>shell_calls\<close>
  is the list of operations that \<open>shell_execute\<close> goes through for a command line, \<open>key_calls\<close> the one for a character
  read by \<open>shell_task\<close>.  A counter is read when its turn comes (\<open>Read\<close>), which is after the interrupts that came before, and the
  buffer is handed to \<open>shell_execute\<close> when \<open>Execute\<close> is reached.  The file table is read when a command starts: nothing changes it after
  the boot.

  Run without interruption the operations are the shell of theory \<open>Shell\<close>.
\<close>

subsection \<open>Operations\<close>

text \<open>The numbers that commands read.\<close>

datatype stat = Free_Pages | Total_Pages | Used_KB | Timer_Ticks | Task_Count | Current_Id

fun stat_value :: "stat \<Rightarrow> kernel \<Rightarrow> u64" where
  "stat_value Free_Pages k = pmm_free_pages (k_pmm k)"
| "stat_value Total_Pages k = pmm_total_pages (k_pmm k)"
| "stat_value Used_KB k = pmm_used_bytes (k_pmm k) div 1024"
| "stat_value Timer_Ticks k = pit_ticks (k_pit k)"
| "stat_value Task_Count k = ucast (sched_task_count (k_sched k))"
| "stat_value Current_Id k = ucast (sched_current_id (k_sched k))"

datatype call = Set_Color u32 u32 | Clear | Put char | Tx char | Read string stat | Execute | Rewind | Pulse | Panic_With string

definition print_calls :: "string \<Rightarrow> call list" where
  "print_calls s = map Put (cstr s)"

definition both :: "string \<Rightarrow> call list" where
  "both s = print_calls s @ map Tx (cstr s)"

definition dec_calls :: "string \<Rightarrow> u64 \<Rightarrow> call list" where
  "dec_calls label v = print_calls label @ print_calls (dec_string v) @ [Put LF]"

definition help_calls :: "call list" where
  "help_calls =
     Set_Color COLOR_CYAN COLOR_DARK # both (''Available NovaOS Shell Commands:'' @ [LF]) @
     Set_Color COLOR_WHITE COLOR_DARK #
     both (''  help       - Display this assistance list'' @ [LF]) @
     both (''  clear      - Clear the screen console'' @ [LF]) @
     both (''  meminfo    - Show physical memory & heap statistics'' @ [LF]) @
     both (''  ticks      - Show system PIT timer tick count'' @ [LF]) @
     both (''  tasks      - List active kernel tasks'' @ [LF]) @
     both (''  ls         - List files in virtual filesystem'' @ [LF]) @
     both (''  cat <file> - Display contents of a file'' @ [LF]) @
     both (''  echo <txt> - Print text to console'' @ [LF]) @
     both (''  reboot     - Reset the computer'' @ [LF]) @
     both (''  panic      - Test kernel panic red screen'' @ [LF])"

definition clear_calls :: "call list" where
  "clear_calls = Clear # Set_Color COLOR_GREEN COLOR_DARK # both (''=== NovaOS Interactive Shell ==='' @ [LF]) @
     [Set_Color COLOR_WHITE COLOR_DARK]"

definition meminfo_calls :: "call list" where
  "meminfo_calls = [Set_Color COLOR_YELLOW COLOR_DARK, Read ''PMM Free Pages : '' Free_Pages, Read ''PMM Total Pages: '' Total_Pages,
     Read ''PMM Used (KB)  : '' Used_KB, Set_Color COLOR_WHITE COLOR_DARK]"

definition ticks_calls :: "call list" where
  "ticks_calls = [Set_Color COLOR_YELLOW COLOR_DARK, Read ''Timer Ticks: '' Timer_Ticks, Set_Color COLOR_WHITE COLOR_DARK]"

definition tasks_calls :: "call list" where
  "tasks_calls = [Set_Color COLOR_YELLOW COLOR_DARK, Read ''Active Tasks: '' Task_Count, Read ''Current Task ID: '' Current_Id,
     Set_Color COLOR_WHITE COLOR_DARK]"

definition entry_calls :: "VFSNode \<Rightarrow> call list" where
  "entry_calls n = both ''  '' @ both (vn_name n) @ dec_calls ''  ('' (vn_size n) @ both ('' bytes)'' @ [LF])"

definition ls_calls :: "vfs \<Rightarrow> call list" where
  "ls_calls fs = Set_Color COLOR_CYAN COLOR_DARK # both (''RAM Disk Files:'' @ [LF]) @ Set_Color COLOR_WHITE COLOR_DARK #
     concat (map (\<lambda>i. entry_calls (fs ! i)) (vfs_list 16 fs))"

definition cat_calls :: "char \<Rightarrow> string \<Rightarrow> vfs \<Rightarrow> call list" where
  "cat_calls oob cmdline fs =
     (let fname = skip_spaces (drop 4 cmdline) in
      case vfs_open fname fs of
        Some i \<Rightarrow>
          let node = fs ! i in
          Set_Color COLOR_GREEN COLOR_DARK # both (vn_data node) @
          (if byte_at oob (vn_data node) (vn_size node - 1) \<noteq> LF then both [LF] else []) @ [Set_Color COLOR_WHITE COLOR_DARK]
      | None \<Rightarrow>
          Set_Color COLOR_RED COLOR_DARK # both ''File not found: '' @ both fname @ both [LF] @ [Set_Color COLOR_WHITE COLOR_DARK])"

definition echo_calls :: "string \<Rightarrow> call list" where
  "echo_calls cmdline = both (drop 5 cmdline) @ both [LF]"

definition reboot_calls :: "call list" where
  "reboot_calls = both (''Rebooting system...'' @ [LF]) @ [Pulse]"

definition unknown_calls :: "string \<Rightarrow> call list" where
  "unknown_calls cmdline =
     Set_Color COLOR_RED COLOR_DARK # both (''Unknown command: '' @ [CHR 0x27]) @ both cmdline @
     both ([CHR 0x27] @ ''. Type '' @ [CHR 0x27] @ ''help'' @ [CHR 0x27] @ '' for commands.'' @ [LF]) @
     [Set_Color COLOR_WHITE COLOR_DARK]"

definition shell_calls :: "char \<Rightarrow> string \<Rightarrow> kernel \<Rightarrow> call list" where
  "shell_calls oob cmdline k =
     (let cmdline = skip_spaces cmdline in
      if deref cmdline = NUL then []
      else if streql cmdline ''help'' then help_calls
      else if streql cmdline ''clear'' then clear_calls
      else if streql cmdline ''meminfo'' then meminfo_calls
      else if streql cmdline ''ticks'' then ticks_calls
      else if streql cmdline ''tasks'' then tasks_calls
      else if streql cmdline ''ls'' then ls_calls (k_vfs k)
      else if strstarts cmdline ''cat '' then cat_calls oob cmdline (k_vfs k)
      else if strstarts cmdline ''echo '' then echo_calls cmdline
      else if streql cmdline ''reboot'' then reboot_calls
      else if streql cmdline ''panic'' then [Panic_With ''Explicit user-triggered kernel panic via shell command!'']
      else unknown_calls cmdline)"

definition prompt_calls :: "call list" where
  "prompt_calls = Set_Color COLOR_CYAN COLOR_DARK # both ''NovaOS> '' @ [Set_Color COLOR_WHITE COLOR_DARK]"

definition key_calls :: "char \<Rightarrow> shell \<Rightarrow> shell \<times> call list" where
  "key_calls c sh =
     (if c = LF then (sh, Put LF # Execute # Rewind # prompt_calls)
      else if c = CHR 0x08
      then if 0 < sh_idx sh then (sh\<lparr>sh_idx := sh_idx sh - 1\<rparr>, [Put (CHR 0x08)]) else (sh, [])
      else if 32 \<le> (of_char c :: nat) \<and> (of_char c :: nat) \<le> 126
      then if sh_idx sh < 128 - 1
           then (sh\<lparr>sh_buf := (sh_buf sh)[unat (sh_idx sh) := c], sh_idx := sh_idx sh + 1\<rparr>, [Put c])
           else (sh, [])
      else (sh, []))"

text \<open>A look at the keyboard buffer.\<close>

definition shell_look :: "shell \<Rightarrow> kernel \<Rightarrow> shell \<times> call list \<times> kernel" where
  "shell_look sh k =
     (if keyboard_has_char (k_kbd k)
      then let (c, kb) = kb_take (k_kbd k); (sh, xs) = key_calls c sh in (sh, xs, k\<lparr>k_kbd := kb\<rparr>)
      else (sh, [], k))"

subsection \<open>Their effect\<close>

text \<open>
  An operation changes the shell's own variables, does its output, and may be followed by operations of its
  own: the digits of a number once it is read, the command once the line is terminated.
\<close>

fun shell_op :: "call \<Rightarrow> shell \<Rightarrow> shell" where
  "shell_op Execute sh = sh\<lparr>sh_buf := (sh_buf sh)[unat (sh_idx sh) := NUL]\<rparr>"
| "shell_op Rewind sh = sh\<lparr>sh_idx := 0\<rparr>"
| "shell_op _ sh = sh"

fun call_out :: "device \<Rightarrow> call \<Rightarrow> kernel \<Rightarrow> outcome" where
  "call_out dev (Set_Color fg bg) k = returns (set_color fg bg k)"
| "call_out dev Clear k = returns (clear_screen k)"
| "call_out dev (Put c) k = returns (put_char c k)"
| "call_out dev (Tx c) k = returns (serial dev [c] k)"
| "call_out dev Pulse k = Rebooting (k\<lparr>k_io := outb 0x64 0xFE (k_io k)\<rparr>)"
| "call_out dev (Panic_With message) k = panics dev message k"
| "call_out dev _ k = Returns k"

fun expand :: "char \<Rightarrow> call \<Rightarrow> shell \<Rightarrow> kernel \<Rightarrow> call list" where
  "expand oob (Read label x) sh k = dec_calls label (stat_value x k)"
| "expand oob Execute sh k = shell_calls oob (sh_buf sh) k"
| "expand oob _ sh k = []"

definition is_read :: "call \<Rightarrow> bool" where
  "is_read c \<longleftrightarrow> (case c of Read _ _ \<Rightarrow> True | _ \<Rightarrow> False)"

lemma is_read_simps [simp]:
  "is_read (Read l x)" "\<not> is_read (Put c)" "\<not> is_read (Tx c)" "\<not> is_read (Set_Color fg bg)" "\<not> is_read Clear" "\<not> is_read Execute"
  "\<not> is_read Rewind" "\<not> is_read Pulse" "\<not> is_read (Panic_With m)"
  by (simp_all add: is_read_def)

lemmas call_list_defs = print_calls_def both_def dec_calls_def help_calls_def clear_calls_def meminfo_calls_def ticks_calls_def
  tasks_calls_def entry_calls_def ls_calls_def cat_calls_def echo_calls_def reboot_calls_def unknown_calls_def

text \<open>A command holds no further command, and the digits of a number no further read.\<close>

lemma expand_shallow: "Execute \<notin> set (expand oob c sh k)" "is_read c \<Longrightarrow> filter is_read (expand oob c sh k) = []"
proof -
  have both: "Execute \<notin> set (both s)" "Execute \<notin> set (dec_calls s v)" for s v by (auto simp: both_def print_calls_def dec_calls_def)
  have "Execute \<notin> set (shell_calls oob s k)" for s
    by (auto simp: shell_calls_def help_calls_def clear_calls_def meminfo_calls_def ticks_calls_def tasks_calls_def ls_calls_def entry_calls_def
        cat_calls_def echo_calls_def reboot_calls_def unknown_calls_def both Let_def split: option.splits)
  then show "Execute \<notin> set (expand oob c sh k)" using both by (cases c) auto
  show "is_read c \<Longrightarrow> filter is_read (expand oob c sh k) = []" by (cases c) (auto simp: dec_calls_def print_calls_def filter_empty_conv)
qed

function run_calls :: "device \<Rightarrow> char \<Rightarrow> call list \<Rightarrow> shell \<Rightarrow> kernel \<Rightarrow> shell \<times> outcome" where
  "run_calls dev oob [] sh k = (sh, Returns k)"
| "run_calls dev oob (c # xs) sh k =
     (let sh = shell_op c sh in
      case call_out dev c k of
        Returns k' \<Rightarrow> run_calls dev oob (expand oob c sh k @ xs) sh k'
      | r \<Rightarrow> (sh, r))"
  by pat_completeness auto

termination
proof (relation "measures [\<lambda>(dev, oob, xs, sh, k). count_list xs Execute, \<lambda>(dev, oob, xs, sh, k). length (filter is_read xs),
    \<lambda>(dev, oob, xs, sh, k). length xs]", simp)
  fix dev oob c xs and sh sh' :: shell and k k' :: kernel
  have "count_list (expand oob c sh' k) Execute = 0" using expand_shallow(1) by (simp add: count_list_0_iff)
  then show "((dev, oob, expand oob c sh' k @ xs, sh', k'), dev, oob, c # xs, sh, k) \<in> measures
      [\<lambda>(dev, oob, xs, sh, k). count_list xs Execute, \<lambda>(dev, oob, xs, sh, k). length (filter is_read xs), \<lambda>(dev, oob, xs, sh, k). length xs]"
    using expand_shallow(2) [of c oob sh' k] by (cases c) simp_all
qed

subsection \<open>Without interruption\<close>

text \<open>\<open>plays k P xs\<close>: from \<open>k\<close> on, the code \<open>P\<close> is the list of operations \<open>xs\<close>.\<close>

definition plays :: "device \<Rightarrow> char \<Rightarrow> kernel \<Rightarrow> (kernel \<Rightarrow> kernel option) \<Rightarrow> call list \<Rightarrow> bool" where
  "plays dev oob k P xs \<longleftrightarrow> (\<forall>sh ys. run_calls dev oob (xs @ ys) sh k =
     (case P k of Some k' \<Rightarrow> run_calls dev oob ys sh k' | None \<Rightarrow> (sh, Hangs)))"

named_theorems plays_rules \<open>code as lists of operations\<close>

lemma plays_bind [plays_rules]:
  "plays dev oob k P xs \<Longrightarrow> (\<And>k'. P k = Some k' \<Longrightarrow> plays dev oob k' Q ys) \<Longrightarrow> plays dev oob k (\<lambda>k. Option.bind (P k) Q) (xs @ ys)"
  by (cases "P k") (simp_all add: plays_def)

lemma plays_Some [plays_rules]: "plays dev oob k Some []"
  by (simp add: plays_def)

lemma plays_color [plays_rules]: "plays dev oob k (set_color fg bg) [Set_Color fg bg]"
  by (simp add: plays_def returns_def set_color_def)

lemma plays_clear [plays_rules]: "plays dev oob k clear_screen [Clear]"
  by (simp add: plays_def returns_def clear_screen_def)

lemma plays_put_char [plays_rules]: "plays dev oob k (put_char c) [Put c]"
  by (simp add: plays_def returns_def split: option.splits)

lemma print_step: "c \<noteq> NUL \<Longrightarrow> (do { f \<leftarrow> fb_print (c # s) (k_fb k); Some (k\<lparr>k_fb := f\<rparr>) }) =
    (do { k \<leftarrow> put_char c k; f \<leftarrow> fb_print s (k_fb k); Some (k\<lparr>k_fb := f\<rparr>) })"
  by (cases "fb_putchar c (k_fb k)") (simp_all add: put_char_def)

lemma plays_print: "plays dev oob k (\<lambda>k. do { f \<leftarrow> fb_print s (k_fb k); Some (k\<lparr>k_fb := f\<rparr>) }) (print_calls s)"
proof (induction s arbitrary: k)
  case (Cons c s)
  show ?case
  proof (cases "c = NUL")
    case False
    then have "plays dev oob k (\<lambda>k. do { k \<leftarrow> put_char c k; f \<leftarrow> fb_print s (k_fb k); Some (k\<lparr>k_fb := f\<rparr>) }) ([Put c] @ print_calls s)"
      by (intro plays_rules Cons)
    then show ?thesis unfolding plays_def print_step [OF False, of s] using False by (simp add: print_calls_def)
  qed (simp add: plays_def print_calls_def)
qed (simp add: plays_def print_calls_def)

lemma serial_step: "c \<noteq> NUL \<Longrightarrow> serial dev (c # s) k = Option.bind (serial dev [c] k) (serial dev s)"
  by (auto simp: serial_def split: Option.bind_splits)

lemma plays_serial [plays_rules]: "plays dev oob k (serial dev s) (map Tx (cstr s))"
proof (induction s arbitrary: k)
  case (Cons c s)
  show ?case
  proof (cases "c = NUL")
    case False
    have "plays dev oob k (serial dev [c]) [Tx c]" by (simp add: plays_def returns_def split: option.splits)
    then have "plays dev oob k (\<lambda>k. Option.bind (serial dev [c] k) (serial dev s)) ([Tx c] @ map Tx (cstr s))"
      by (intro plays_rules Cons)
    then show ?thesis unfolding plays_def serial_step [OF False, of dev s] using False by simp
  qed (simp add: plays_def serial_def)
qed (simp add: plays_def serial_def)

lemma plays_both [plays_rules]: "plays dev oob k (print_both dev s) (both s)"
proof -
  have "print_both dev s = (\<lambda>k. do { k \<leftarrow> (do { f \<leftarrow> fb_print s (k_fb k); Some (k\<lparr>k_fb := f\<rparr>) }); serial dev s k })"
    by (rule ext) (auto simp: print_both_def serial_def split: Option.bind_splits)
  then show ?thesis unfolding both_def by (simp only:) (intro plays_rules plays_print)
qed

lemma dec_calls_eq: "dec_calls p v = print_calls (cstr p @ dec_string v @ [LF])"
proof -
  have "NUL \<notin> set (dec_string v)" using dec_string_spec(1) [of v] isdigit_plain by (auto simp: list_all_iff)
  then have "NUL \<notin> set (cstr p @ dec_string v @ [LF])" by simp
  from cstr_id [OF this] cstr_id [OF \<open>NUL \<notin> set (dec_string v)\<close>] show ?thesis by (simp add: dec_calls_def print_calls_def)
qed

lemma plays_dec [plays_rules]: "plays dev oob k (print_dec p v) (dec_calls p v)"
  using plays_print [of dev oob k "cstr p @ dec_string v @ [LF]"]
  by (simp add: dec_calls_eq plays_def print_dec_def fb_print_dec_eq del: fb_print.simps)

lemma plays_read: "stat_value x k = v \<Longrightarrow> plays dev oob k (print_dec p v) [Read p x]"
  using plays_dec [of dev oob k p v] by (simp add: plays_def)

text \<open>Output does not change the numbers.\<close>

lemma plays_reads:
  "k_pmm k' = k_pmm k \<Longrightarrow> plays dev oob k' (print_dec p (pmm_free_pages (k_pmm k))) [Read p Free_Pages]"
  "k_pmm k' = k_pmm k \<Longrightarrow> plays dev oob k' (print_dec p (pmm_total_pages (k_pmm k))) [Read p Total_Pages]"
  "k_pmm k' = k_pmm k \<Longrightarrow> plays dev oob k' (print_dec p (pmm_used_bytes (k_pmm k) div 1024)) [Read p Used_KB]"
  "k_pit k' = k_pit k \<Longrightarrow> plays dev oob k' (print_dec p (pit_ticks (k_pit k))) [Read p Timer_Ticks]"
  "k_sched k' = k_sched k \<Longrightarrow> plays dev oob k' (print_dec p (ucast (sched_task_count (k_sched k)))) [Read p Task_Count]"
  "k_sched k' = k_sched k \<Longrightarrow> plays dev oob k' (print_dec p (ucast (sched_current_id (k_sched k)))) [Read p Current_Id]"
  by (rule plays_read, simp)+

lemma plays_cong: "plays dev oob k Q xs \<Longrightarrow> P k = Q k \<Longrightarrow> xs = ys \<Longrightarrow> plays dev oob k P ys"
  by (simp add: plays_def)

lemma plays_help: "plays dev oob k (shell_help dev) help_calls"
  unfolding shell_help_def help_calls_def by (rule plays_cong [OF _ refl], (rule plays_rules)+) simp

lemma plays_shell_clear: "plays dev oob k (shell_clear dev) clear_calls"
  unfolding shell_clear_def clear_calls_def by (rule plays_cong [OF _ refl], (rule plays_rules)+) simp

lemma plays_echo: "plays dev oob k (shell_echo dev cmdline) (echo_calls cmdline)"
  unfolding shell_echo_def echo_calls_def by (rule plays_rules)+

lemma plays_unknown: "plays dev oob k (shell_unknown dev cmdline) (unknown_calls cmdline)"
  unfolding shell_unknown_def unknown_calls_def by (rule plays_cong [OF _ refl], (rule plays_rules)+) simp

lemma plays_prompt: "plays dev oob k (shell_prompt dev) prompt_calls"
  unfolding shell_prompt_def prompt_calls_def by (rule plays_cong [OF _ refl], (rule plays_rules)+) simp

lemma plays_meminfo: "plays dev oob k shell_meminfo meminfo_calls"
  by (rule plays_cong [OF _ shell_meminfo_def],
      (rule plays_bind plays_color plays_reads | force simp: set_color_def print_dec_def meminfo_calls_def split: Option.bind_splits)+)

lemma plays_ticks: "plays dev oob k shell_ticks ticks_calls"
  by (rule plays_cong [OF _ shell_ticks_def],
      (rule plays_bind plays_color plays_reads | force simp: set_color_def print_dec_def ticks_calls_def split: Option.bind_splits)+)

lemma plays_tasks: "plays dev oob k shell_tasks tasks_calls"
  by (rule plays_cong [OF _ shell_tasks_def],
      (rule plays_bind plays_color plays_reads | force simp: set_color_def print_dec_def tasks_calls_def split: Option.bind_splits)+)

lemma plays_ls_loop: "plays dev oob k (shell_ls_loop dev ns) (concat (map entry_calls ns))"
proof (induction ns arbitrary: k)
  case (Cons n ns)
  show ?case
    by (rule plays_cong [OF _ shell_ls_loop.simps(2)], (rule plays_rules Cons)+) (simp add: entry_calls_def)
qed (simp add: plays_def)

lemma plays_ls: "plays dev oob k (shell_ls dev) (ls_calls (k_vfs k))"
  by (rule plays_cong [OF _ shell_ls_def], (rule plays_rules plays_ls_loop)+) (simp add: ls_calls_def o_def)

lemma plays_if: "(b \<Longrightarrow> plays dev oob k P xs) \<Longrightarrow> (\<not> b \<Longrightarrow> plays dev oob k Q ys) \<Longrightarrow>
    plays dev oob k (\<lambda>k. if b then P k else Q k) (if b then xs else ys)"
  by simp

lemma plays_cat: "plays dev oob k (shell_cat dev oob cmdline) (cat_calls oob cmdline (k_vfs k))"
proof (cases "vfs_open (skip_spaces (drop 4 cmdline)) (k_vfs k)")
  case None
  show ?thesis
    by (rule plays_cong [OF _ shell_cat_def], simp only: None option.case Let_def, (rule plays_rules)+) (simp add: cat_calls_def None)
next
  case (Some i)
  show ?thesis
    by (rule plays_cong [OF _ shell_cat_def], simp only: Some option.case Let_def, (rule plays_rules plays_if)+)
      (simp add: cat_calls_def Some Let_def)
qed

text \<open>The same for code that may end in a reset or a panic.\<close>

definition ends :: "device \<Rightarrow> char \<Rightarrow> kernel \<Rightarrow> outcome \<Rightarrow> call list \<Rightarrow> bool" where
  "ends dev oob k out xs \<longleftrightarrow> (\<forall>sh ys. run_calls dev oob (xs @ ys) sh k =
     (case out of Returns k' \<Rightarrow> run_calls dev oob ys sh k' | r \<Rightarrow> (sh, r)))"

lemma ends_plays: "plays dev oob k P xs \<Longrightarrow> ends dev oob k (returns (P k)) xs"
  by (cases "P k") (simp_all add: ends_def plays_def returns_def)

lemma ends_if: "(b \<Longrightarrow> ends dev oob k x xs) \<Longrightarrow> (\<not> b \<Longrightarrow> ends dev oob k y ys) \<Longrightarrow>
    ends dev oob k (if b then x else y) (if b then xs else ys)"
  by simp

lemma ends_nil: "ends dev oob k (Returns k) []"
  by (simp add: ends_def)

lemma ends_reboot: "ends dev oob k (shell_reboot dev k) reboot_calls"
  using plays_both [of dev oob k "''Rebooting system...'' @ [LF]"]
  by (cases "print_both dev (''Rebooting system...'' @ [LF]) k") (simp_all add: ends_def plays_def shell_reboot_def reboot_calls_def)

lemma ends_panic: "ends dev oob k (panics dev message k) [Panic_With message]"
  by (simp add: ends_def panics_def split: option.splits)

lemma ends_execute: "ends dev oob k (shell_execute dev oob cmdline k) (shell_calls oob cmdline k)"
  unfolding shell_execute_def shell_calls_def Let_def
  by (rule ends_if ends_nil ends_reboot ends_panic ends_plays plays_help plays_shell_clear plays_meminfo plays_ticks plays_tasks
      plays_ls plays_cat plays_echo plays_unknown)+

lemma run_calls_execute:
  "run_calls dev oob (shell_calls oob cmdline k @ ys) sh k =
     (case shell_execute dev oob cmdline k of Returns k' \<Rightarrow> run_calls dev oob ys sh k' | r \<Rightarrow> (sh, r))"
  using ends_execute by (simp add: ends_def)

lemma run_calls_put: "run_calls dev oob [Put c] sh k = (sh, returns (put_char c k))"
  by (simp add: returns_def split: option.splits)

lemma run_calls_prompt: "run_calls dev oob prompt_calls sh k = (sh, returns (shell_prompt dev k))"
  using plays_prompt [of dev oob k, unfolded plays_def, rule_format, of "[]" sh] by (simp add: returns_def split: option.splits)

lemma run_calls_enter: "run_calls dev oob (Put LF # Execute # Rewind # prompt_calls) sh k = shell_enter dev oob sh k"
  by (cases "put_char LF k")
    (simp_all add: shell_enter_def returns_def run_calls_execute run_calls_prompt Let_def split: outcome.splits)

subsection \<open>A round of the shell\<close>

lemma key_calls_run: "shell_key dev oob c sh k = (case key_calls c sh of (sh', xs) \<Rightarrow> run_calls dev oob xs sh' k)"
  by (simp add: key_calls_def shell_key_def run_calls_enter run_calls_put Let_def del: run_calls.simps(2))

text \<open>
  The operations are the shell.  For every state, one round of \<open>shell_task\<close>, with the whole of \<open>shell_execute\<close> when
  the character is Enter, is the look at the keyboard buffer followed by the operations that it gives, run one
  after the other: the same buffer and index, and the same end, which is a kernel state, a panic, a reset or a call that does
  not return.
\<close>

lemma shell_round_calls: "shell_round dev oob sh k = (case shell_look sh k of (sh', xs, k') \<Rightarrow> run_calls dev oob xs sh' k')"
  by (simp add: shell_round_def shell_look_def key_calls_run split: prod.splits del: run_calls.simps(2))

end
