(* ===== verification/Transition.thy ===== *)
theory Transition
  imports Main
begin

section \<open>Labelled transition systems\<close>

text \<open>
  Runs of a step relation whose steps carry labels, what an invariant of single steps gives for runs, and the
  interface of a forward simulation: a concrete system whose every step is matched by an abstract one with the
  same label has, for every run, an abstract run with the same trace.
\<close>

inductive run :: "('s \<Rightarrow> 'l \<Rightarrow> 's \<Rightarrow> bool) \<Rightarrow> 's \<Rightarrow> 'l list \<Rightarrow> 's \<Rightarrow> bool" for step where
  run_Nil: "run step s [] s"
| run_Cons: "step s l s' \<Longrightarrow> run step s' ls s'' \<Longrightarrow> run step s (l # ls) s''"

inductive_simps run_Nil_iff [simp]: "run step s [] t"
inductive_simps run_Cons_iff: "run step s (l # ls) t"

lemma run_append: "run step s (ls @ ms) u \<longleftrightarrow> (\<exists>t. run step s ls t \<and> run step t ms u)"
  by (induction ls arbitrary: s) (auto simp: run_Cons_iff)

lemma run_invariant:
  assumes "run step s ls t" "P s" "\<And>s l t. P s \<Longrightarrow> step s l t \<Longrightarrow> P t"
  shows "P t"
  using assms(1,2) by (induction rule: run.induct) (use assms(3) in blast)+

text \<open>A state without outgoing steps ends every run.\<close>

lemma run_stuck: "run step s ls t \<Longrightarrow> (\<And>l t. \<not> step s l t) \<Longrightarrow> ls = [] \<and> t = s"
  by (cases ls) (auto simp: run_Cons_iff)

locale forward_simulation =
  fixes cstep :: "'c \<Rightarrow> 'l \<Rightarrow> 'c \<Rightarrow> bool"
    and astep :: "'a \<Rightarrow> 'l \<Rightarrow> 'a \<Rightarrow> bool"
    and rel :: "'c \<Rightarrow> 'a \<Rightarrow> bool"
  assumes sim: "rel c a \<Longrightarrow> cstep c l c' \<Longrightarrow> \<exists>a'. astep a l a' \<and> rel c' a'"
begin

lemma runs: "run cstep c ls c' \<Longrightarrow> rel c a \<Longrightarrow> \<exists>a'. run astep a ls a' \<and> rel c' a'"
proof (induction arbitrary: a rule: run.induct)
  case (run_Cons c l c1 ls c2)
  obtain a1 where a1: "astep a l a1" "rel c1 a1" using sim [OF run_Cons.prems run_Cons.hyps(1)] by blast
  obtain a2 where "run astep a1 ls a2" "rel c2 a2" using run_Cons.IH [OF a1(2)] by blast
  with a1(1) show ?case using run.run_Cons by metis
qed auto

end

end
