(* ===== verification/Desk.thy ===== *)
theory Desk
  imports Calls Transition "HOL-Library.Sublist"
begin

section \<open>The kernel as its user sees it\<close>

text \<open>
  An abstract machine for the whole running kernel: a text screen, the text on the serial line, the line being
  edited, the keys that wait, the numbers that the commands report, and what the shell is about to do.  It knows nothing of
  pixels, memory, descriptor tables, stacks or registers.  Events are a look of the shell at the
  keyboard, one operation of its answer, the start of a command line, its halt, a key, a timer tick, a loop step of
  the background task and a processor exception.

  A session is \<open>At\<close> a desk while the shell can run.  It is \<open>Frozen\<close> once the timer has ended a time slice with a second
  task present, because the background task is then entered with interrupts masked.  It is \<open>Off\<close> after a reset or
  a panic, with the text that the serial line has carried.
\<close>

subsection \<open>State and events\<close>

datatype event = Round | Call | Exec string | Halt | Key u8 | Tick | Spin | Fault nat

text \<open>Where the loop of \<open>shell_task\<close> stands: before the look at the keyboard buffer, before \<open>hlt\<close>, or halted in it.\<close>

datatype place = Check | Before_Hlt | Halted

definition wake :: "place \<Rightarrow> place" where
  "wake p = (if p = Halted then Check else p)"

text \<open>What the shell still has to do: output, a number that is read when it is printed, a command line, an end.\<close>

datatype item = Do act | Number string stat | Exec_Line | New_Line | Pulse_Reset | Stop_With string

record desk =
  d_con :: con
  d_sent :: string
  d_line :: string
  d_keys :: string
  d_shift :: bool
  d_caps :: bool
  d_place :: place
  d_todo :: "item list"
  d_phase :: u32
  d_facts :: facts

datatype session = At desk | Frozen desk | Off string

subsection \<open>Answers\<close>

text \<open>Text goes out character by character, first to the screen.\<close>

fun act_items :: "act \<Rightarrow> item list" where
  "act_items (Both s) = map (\<lambda>c. Do (Screen [c])) s @ map (\<lambda>c. Do (Line [c])) s"
| "act_items (Screen s) = map (\<lambda>c. Do (Screen [c])) s"
| "act_items (Line s) = map (\<lambda>c. Do (Line [c])) s"
| "act_items a = [Do a]"

definition items :: "act list \<Rightarrow> item list" where
  "items as = concat (map act_items as)"

fun stat_fact :: "stat \<Rightarrow> facts \<Rightarrow> u64" where
  "stat_fact Free_Pages i = f_free i"
| "stat_fact Total_Pages i = f_total i"
| "stat_fact Used_KB i = (f_total i - f_free i) * 4096 div 1024"
| "stat_fact Timer_Ticks i = f_ticks i"
| "stat_fact Task_Count i = ucast (f_count i)"
| "stat_fact Current_Id i = ucast (f_current i)"

definition in_yellow :: "item list \<Rightarrow> item list" where
  "in_yellow xs = Do (Color COLOR_YELLOW COLOR_DARK) # xs @ [Do (Color COLOR_WHITE COLOR_DARK)]"

fun reply_items :: "reply \<Rightarrow> item list" where
  "reply_items (Reply as) = items as"
| "reply_items (Reset as) = items as @ [Pulse_Reset]"
| "reply_items (Stop msg) = [Stop_With msg]"

text \<open>
  The reply of \<open>shell_reply\<close>, with the numbers left open in the commands that report numbers: a tick that comes in the
  middle of the command counts.
\<close>

definition late_reply :: "char \<Rightarrow> string \<Rightarrow> facts \<Rightarrow> item list" where
  "late_reply oob line i =
     (let word = dropWhile (\<lambda>c. c = CHR '' '') line in
      if word = ''meminfo'' then in_yellow [Number ''PMM Free Pages : '' Free_Pages, Number ''PMM Total Pages: '' Total_Pages,
          Number ''PMM Used (KB)  : '' Used_KB]
      else if word = ''ticks'' then in_yellow [Number ''Timer Ticks: '' Timer_Ticks]
      else if word = ''tasks'' then in_yellow [Number ''Active Tasks: '' Task_Count, Number ''Current Task ID: '' Current_Id]
      else reply_items (shell_reply oob line i))"

subsection \<open>Steps\<close>

definition perform :: "act list \<Rightarrow> desk \<Rightarrow> desk" where
  "perform as d = (let (c, t) = fold act_step as (d_con d, d_sent d) in d\<lparr>d_con := c, d_sent := t\<rparr>)"

definition prompt :: "item list" where
  "prompt = items (colored COLOR_CYAN [Both ''NovaOS> ''])"

definition desk_char :: "char \<Rightarrow> desk \<Rightarrow> desk" where
  "desk_char c d =
     (if c = LF then d\<lparr>d_todo := Do (Screen [LF]) # Exec_Line # New_Line # prompt\<rparr>
      else d\<lparr>d_line := edit c (d_line d), d_todo := items (echo c (d_line d))\<rparr>)"

definition desk_round :: "desk \<Rightarrow> desk" where
  "desk_round d =
     (let d = d\<lparr>d_place := Before_Hlt\<rparr> in
      case d_keys d of [] \<Rightarrow> d | c # ks \<Rightarrow> desk_char c (d\<lparr>d_keys := ks\<rparr>))"

fun desk_item :: "char \<Rightarrow> item \<Rightarrow> desk \<Rightarrow> session" where
  "desk_item oob (Do a) d = At (perform [a] d)"
| "desk_item oob (Number label x) d = At (d\<lparr>d_todo := items [number_line label (stat_fact x (d_facts d))] @ d_todo d\<rparr>)"
| "desk_item oob Exec_Line d = At (d\<lparr>d_todo := late_reply oob (d_line d) (d_facts d) @ d_todo d\<rparr>)"
| "desk_item oob New_Line d = At (d\<lparr>d_line := []\<rparr>)"
| "desk_item oob Pulse_Reset d = Off (d_sent d)"
| "desk_item oob (Stop_With msg) d = Off (d_sent d @ panic_report msg)"

definition item_event :: "item \<Rightarrow> desk \<Rightarrow> event" where
  "item_event x d = (if x = Exec_Line then Exec (d_line d) else Call)"

definition desk_press :: "u8 \<Rightarrow> desk \<Rightarrow> desk" where
  "desk_press sc d =
     d\<lparr>d_place := wake (d_place d), d_keys := take 255 (d_keys d @ key_out (d_shift d) (d_caps d) sc),
       d_shift := shift_next sc (d_shift d), d_caps := caps_next sc (d_caps d)\<rparr>"

definition slice_ends :: "desk \<Rightarrow> bool" where
  "slice_ends d \<longleftrightarrow> (d_phase d + 1) mod SCHED_SLICE = 0 \<and> 1 < f_count (d_facts d)"

definition desk_tick :: "desk \<Rightarrow> session" where
  "desk_tick d =
     (let d' = d\<lparr>d_place := wake (d_place d), d_phase := d_phase d + 1, d_facts := (d_facts d)\<lparr>f_ticks := f_ticks (d_facts d) + 1\<rparr>\<rparr>
      in if slice_ends d then Frozen d' else At d')"

inductive desk_step :: "char \<Rightarrow> session \<Rightarrow> event \<Rightarrow> session \<Rightarrow> bool" for oob where
  round: "d_place d = Check \<Longrightarrow> d_todo d = [] \<Longrightarrow> desk_step oob (At d) Round (At (desk_round d))"
| item: "d_todo d = x # xs \<Longrightarrow> desk_step oob (At d) (item_event x d) (desk_item oob x (d\<lparr>d_todo := xs\<rparr>))"
| halt: "d_place d = Before_Hlt \<Longrightarrow> d_todo d = [] \<Longrightarrow> desk_step oob (At d) Halt (At (d\<lparr>d_place := Halted\<rparr>))"
| key: "desk_step oob (At d) (Key sc) (At (desk_press sc d))"
| tick: "desk_step oob (At d) Tick (desk_tick d)"
| spin: "desk_step oob (Frozen d) Spin (Frozen d)"
| fault: "fr_interrupt_number f = of_nat v \<Longrightarrow> desk_step oob (At d) (Fault v) (Off (d_sent d @ isr_report j1 j2 f))"
| fault_frozen: "fr_interrupt_number f = of_nat v \<Longrightarrow> desk_step oob (Frozen d) (Fault v) (Off (d_sent d @ isr_report j1 j2 f))"

inductive_cases desk_step_FrozenE: "desk_step oob (Frozen d) e s"
inductive_cases desk_step_OffE: "desk_step oob (Off t) e s"

subsection \<open>Output\<close>

lemma perform_fields [simp]:
  "d_con (perform as d) = fst (fold act_step as (d_con d, []))" "d_sent (perform as d) = d_sent d @ snd (fold act_step as (d_con d, []))"
  "d_line (perform as d) = d_line d" "d_keys (perform as d) = d_keys d" "d_shift (perform as d) = d_shift d"
  "d_caps (perform as d) = d_caps d" "d_place (perform as d) = d_place d" "d_phase (perform as d) = d_phase d"
  "d_facts (perform as d) = d_facts d" "d_todo (perform as d) = d_todo d"
  using fst_acts [of as "d_con d" "d_sent d" "[]"] snd_acts [of as "d_con d" "d_sent d"]
  by (simp_all add: perform_def split_beta)

text \<open>The items of an action, done one after the other, have the effect of the action.\<close>

fun item_acts :: "item list \<Rightarrow> act list" where
  "item_acts [] = []"
| "item_acts (x # xs) = (case x of Do a \<Rightarrow> a # item_acts xs | _ \<Rightarrow> item_acts xs)"

definition act_text :: "act \<Rightarrow> string" where
  "act_text a = (case a of Both s \<Rightarrow> s | Screen s \<Rightarrow> s | Line s \<Rightarrow> s | _ \<Rightarrow> [])"

lemma item_acts_append: "item_acts (xs @ ys) = item_acts xs @ item_acts ys"
  by (induction xs) (auto split: item.splits)

lemma screen_chars: "NUL \<notin> set s \<Longrightarrow> fold act_step (item_acts (map (\<lambda>c. Do (Screen [c])) s)) (k, t) = (con_print s k, t)"
  by (induction s arbitrary: k) (auto simp: con_print_def)

lemma line_chars: "NUL \<notin> set s \<Longrightarrow> fold act_step (item_acts (map (\<lambda>c. Do (Line [c])) s)) (k, t) = (k, serial_app s t)"
  by (induction s arbitrary: t) (auto simp: serial_app_def)

lemma items_effect:
  "\<forall>a \<in> set as. NUL \<notin> set (act_text a) \<Longrightarrow> fold act_step (item_acts (items as)) ct = fold act_step as ct"
proof (induction as arbitrary: ct)
  case (Cons a as)
  have "fold act_step (item_acts (act_items a)) ct = act_step a ct"
    using Cons.prems screen_chars line_chars by (cases a; cases ct) (simp_all add: item_acts_append act_text_def)
  with Cons show ?case by (simp add: items_def item_acts_append)
qed (simp add: items_def)

subsection \<open>Runs\<close>

lemma Off_run: "run (desk_step oob) (Off t) ls s \<Longrightarrow> ls = [] \<and> s = Off t"
  by (rule run_stuck) (auto elim: desk_step_OffE)

lemma Frozen_run: "run (desk_step oob) (Frozen d) ls s \<Longrightarrow> (\<forall>e \<in> set ls. e = Spin \<or> (\<exists>v. e = Fault v)) \<and> (\<forall>d'. s \<noteq> At d')"
proof (induction ls arbitrary: d)
  case (Cons e ls)
  then obtain s1 where s1: "desk_step oob (Frozen d) e s1" "run (desk_step oob) s1 ls s" by (auto simp: run_Cons_iff)
  from s1(1) show ?case
  proof cases
    case spin
    then show ?thesis using Cons.IH s1(2) by auto
  next
    case (fault_frozen f v j1 j2)
    then have "ls = [] \<and> s = Off (d_sent d @ isr_report j1 j2 f)" using Off_run s1(2) by simp
    with fault_frozen show ?thesis by simp
  qed
qed simp

text \<open>A run that is still at the desk has been there all the time.\<close>

lemma At_run_Cons:
  assumes "run (desk_step oob) (At d) (e # ls) (At d')"
  obtains d1 where "desk_step oob (At d) e (At d1)" "run (desk_step oob) (At d1) ls (At d')"
proof -
  obtain s1 where s1: "desk_step oob (At d) e s1" "run (desk_step oob) s1 ls (At d')" using assms by (auto simp: run_Cons_iff)
  show ?thesis
  proof (cases s1)
    case (At d1)
    with s1 that show ?thesis by simp
  qed (use s1(2) Frozen_run Off_run in blast)+
qed

subsection \<open>Commands under any schedule\<close>

fun keys_of :: "event list \<Rightarrow> u8 list" where
  "keys_of [] = []"
| "keys_of (e # es) = (case e of Key sc \<Rightarrow> sc # keys_of es | _ \<Rightarrow> keys_of es)"

fun exec_lines :: "event list \<Rightarrow> string list" where
  "exec_lines [] = []"
| "exec_lines (e # es) = (case e of Exec l \<Rightarrow> l # exec_lines es | _ \<Rightarrow> exec_lines es)"

text \<open>The command lines in a text that is typed on a line, and the line that is left.\<close>

fun script :: "string \<Rightarrow> string \<Rightarrow> string list \<times> string" where
  "script [] l = ([], l)"
| "script (c # xs) l = (if c = LF then (l # fst (script xs []), snd (script xs [])) else script xs (edit c l))"

text \<open>A command that is under way has yet to be started, to be followed by an empty line, or neither.\<close>

definition marks :: "item list \<Rightarrow> item list" where
  "marks xs = filter (\<lambda>x. x = Exec_Line \<or> x = New_Line) xs"

definition under_way :: "desk \<Rightarrow> bool" where
  "under_way d \<longleftrightarrow> marks (d_todo d) \<in> {[], [New_Line], [Exec_Line, New_Line]}"

definition outlook :: "desk \<Rightarrow> string \<Rightarrow> string list \<times> string" where
  "outlook d xs =
     (if marks (d_todo d) = [] then script xs (d_line d)
      else if marks (d_todo d) = [New_Line] then script xs []
      else script (LF # xs) (d_line d))"

lemma marks_simps [simp]:
  "marks [] = []" "marks (x # xs) = (if x = Exec_Line \<or> x = New_Line then x # marks xs else marks xs)" "marks (xs @ ys) = marks xs @ marks ys"
  by (simp_all add: marks_def)

lemma marks_items [simp]: "marks (items as) = []"
proof -
  have "marks (act_items a) = []" for a by (cases a) (auto simp: marks_def)
  then show ?thesis by (induction as) (simp_all add: items_def)
qed

lemma marks_reply [simp]: "marks (late_reply oob l i) = []"
  by (cases "shell_reply oob l i") (simp_all add: late_reply_def in_yellow_def Let_def)

lemma marks_prompt [simp]: "marks prompt = []"
  by (simp add: prompt_def)

text \<open>
  What will be executed and left, once the waiting and the coming keys have been read, does not depend on when they are read, as
  long as the buffer has room for all of them.
\<close>

definition coming :: "desk \<Rightarrow> event list \<Rightarrow> string" where
  "coming d ls = d_keys d @ typed (d_shift d) (d_caps d) (keys_of ls)"

lemma outlook_round:
  assumes "d_todo d = []"
  shows "outlook (desk_round d) (coming (desk_round d) ls) = outlook d (coming d (Round # ls)) \<and> under_way (desk_round d) \<and>
    length (coming (desk_round d) ls) \<le> length (coming d (Round # ls))"
proof (cases "d_keys d")
  case (Cons c ks)
  then show ?thesis using assms by (simp add: outlook_def under_way_def coming_def desk_round_def desk_char_def)
qed (use assms in \<open>simp add: outlook_def under_way_def coming_def desk_round_def\<close>)

lemma outlook_item:
  assumes "d_todo d = x # xs" "under_way d" "desk_item oob x (d\<lparr>d_todo := xs\<rparr>) = At d'"
  shows "outlook d (coming d (item_event x d # ls)) =
      (exec_lines [item_event x d] @ fst (outlook d' (coming d' ls)), snd (outlook d' (coming d' ls))) \<and>
    under_way d' \<and> coming d' ls = coming d (item_event x d # ls)"
  using assms by (cases x) (auto simp: item_event_def outlook_def under_way_def coming_def split: if_splits)

lemma outlook_step:
  assumes "desk_step oob (At d) e (At d')" "under_way d" "length (coming d (e # ls)) \<le> 255"
  shows "outlook d (coming d (e # ls)) = (exec_lines [e] @ fst (outlook d' (coming d' ls)), snd (outlook d' (coming d' ls))) \<and>
    under_way d' \<and> length (coming d' ls) \<le> length (coming d (e # ls))"
  using assms(1)
proof cases
  case round
  then show ?thesis using outlook_round [of d ls] by simp
next
  case (item x xs)
  then show ?thesis using outlook_item [OF item(3) assms(2) item(2) [symmetric], of ls] by simp
next
  case halt
  then show ?thesis using assms(2) by (simp add: outlook_def under_way_def coming_def)
next
  case (key sc)
  then have "length (d_keys d @ key_out (d_shift d) (d_caps d) sc) \<le> 255" using assms(3) by (simp add: coming_def)
  with key assms(2) show ?thesis by (simp add: desk_press_def outlook_def under_way_def coming_def)
next
  case tick
  then show ?thesis using assms(2) by (auto simp: desk_tick_def outlook_def under_way_def coming_def Let_def split: if_splits)
qed

lemma commands_run:
  assumes "run (desk_step oob) (At d) ls (At d')" "under_way d" "length (coming d ls) \<le> 255"
  shows "outlook d (coming d ls) = (exec_lines ls @ fst (outlook d' (d_keys d')), snd (outlook d' (d_keys d'))) \<and> under_way d'"
  using assms
proof (induction ls arbitrary: d)
  case Nil
  then show ?case by (simp add: coming_def)
next
  case (Cons e ls)
  obtain d1 where d1: "desk_step oob (At d) e (At d1)" "run (desk_step oob) (At d1) ls (At d')" by (rule At_run_Cons [OF Cons.prems(1)])
  note S = outlook_step [OF d1(1) Cons.prems(2,3)]
  then have "length (coming d1 ls) \<le> 255" using Cons.prems(3) by linarith
  from Cons.IH [OF d1(2) _ this] S show ?case by (cases e) auto
qed

lemma commands_prefix:
  assumes "run (desk_step oob) (At d) ls s" "under_way d" "length (coming d ls) \<le> 255"
  shows "prefix (exec_lines ls) (fst (outlook d (coming d ls)))"
  using assms
proof (induction ls arbitrary: d)
  case (Cons e ls)
  obtain s1 where s1: "desk_step oob (At d) e s1" "run (desk_step oob) s1 ls s" using Cons.prems(1) by (auto simp: run_Cons_iff)
  show ?case
  proof (cases s1)
    case (At d1)
    note S = outlook_step [OF s1(1) [unfolded At] Cons.prems(2,3)]
    then have "length (coming d1 ls) \<le> 255" using Cons.prems(3) by linarith
    from Cons.IH [OF s1(2) [unfolded At] _ this] S show ?thesis by (cases e) auto
  next
    case (Frozen d1)
    have "exec_lines ls = []" if "\<forall>e \<in> set ls. e = Spin \<or> (\<exists>v. e = Fault v)" for ls using that by (induction ls) auto
    moreover have "exec_lines [e] = []" using s1(1) Frozen by cases (auto elim: desk_item.elims simp: item_event_def)
    ultimately show ?thesis using Frozen_run s1(2) Frozen by (cases e) auto
  next
    case (Off t)
    then have "ls = []" using Off_run s1(2) by simp
    moreover have "exec_lines [e] = []" using s1(1) Off by cases (auto elim: desk_item.elims simp: item_event_def)
    ultimately show ?thesis by (cases e) auto
  qed
qed simp

subsection \<open>Time slices\<close>

lemma slice_parity:
  assumes "\<not> slice_ends d" "desk_tick d = At d'" "1 < f_count (d_facts d)"
  shows "slice_ends d'"
proof -
  have e: "d_phase d' = d_phase d + 1" "f_count (d_facts d') = f_count (d_facts d)" using assms(1,2) by (auto simp: desk_tick_def Let_def)
  show ?thesis using assms(1,3) unfolding slice_ends_def e tick_parity [of "d_phase d + 1"] by argo
qed

lemma item_keeps:
  assumes "desk_item oob x d = s"
  shows "s \<noteq> Frozen d'" "s = At d' \<Longrightarrow> d_phase d' = d_phase d \<and> d_facts d' = d_facts d"
  using assms by (cases x; auto)+

lemma frozen_by_tick:
  assumes "desk_step oob (At d) e (Frozen d')"
  shows "e = Tick \<and> slice_ends d"
  using assms item_keeps(1) [of oob _ _ "Frozen d'" d']
  by (cases rule: desk_step.cases) (auto simp: desk_tick_def Let_def split: if_splits dest: sym)

lemma round_keeps: "d_phase (desk_round d) = d_phase d" "d_facts (desk_round d) = d_facts d"
  by (simp_all add: desk_round_def desk_char_def Let_def split: list.split)

lemma At_step_slice:
  assumes "desk_step oob (At d) e (At d')"
  shows "e \<noteq> Tick \<longrightarrow> slice_ends d' = slice_ends d" "f_count (d_facts d') = f_count (d_facts d)"
    "e = Tick \<longrightarrow> \<not> slice_ends d \<and> desk_tick d = At d'"
proof -
  have "(e \<noteq> Tick \<longrightarrow> slice_ends d' = slice_ends d) \<and> f_count (d_facts d') = f_count (d_facts d) \<and>
      (e = Tick \<longrightarrow> \<not> slice_ends d \<and> desk_tick d = At d')"
    using assms
  proof cases
    case round
    then show ?thesis by (simp add: round_keeps slice_ends_def)
  next
    case (item x xs)
    then show ?thesis using item_keeps(2) [of oob x "d\<lparr>d_todo := xs\<rparr>" "At d'" d'] by (simp add: slice_ends_def item_event_def)
  qed (auto simp: desk_press_def desk_tick_def slice_ends_def Let_def split: if_splits)
  then show "e \<noteq> Tick \<longrightarrow> slice_ends d' = slice_ends d" "f_count (d_facts d') = f_count (d_facts d)"
    "e = Tick \<longrightarrow> \<not> slice_ends d \<and> desk_tick d = At d'" by simp_all
qed

lemma ticks_last_slice: "run (desk_step oob) (At d) ls (At d') \<Longrightarrow> slice_ends d \<Longrightarrow> Tick \<notin> set ls"
proof (induction ls arbitrary: d)
  case (Cons e ls)
  obtain d1 where d1: "desk_step oob (At d) e (At d1)" "run (desk_step oob) (At d1) ls (At d')" by (rule At_run_Cons [OF Cons.prems(1)])
  with Cons.IH [OF d1(2)] At_step_slice [OF d1(1)] Cons.prems(2) show ?case by auto
qed simp

text \<open>With two tasks the desk lives for at most one tick; with one task it is never frozen.\<close>

lemma ticks_bound: "run (desk_step oob) (At d) ls (At d') \<Longrightarrow> 1 < f_count (d_facts d) \<Longrightarrow> count_list ls Tick \<le> 1"
proof (induction ls arbitrary: d)
  case (Cons e ls)
  obtain d1 where d1: "desk_step oob (At d) e (At d1)" "run (desk_step oob) (At d1) ls (At d')" by (rule At_run_Cons [OF Cons.prems(1)])
  note S = At_step_slice [OF d1(1)]
  show ?case
  proof (cases "e = Tick")
    case True
    then have "slice_ends d1" using S(3) slice_parity Cons.prems(2) by blast
    then show ?thesis using ticks_last_slice [OF d1(2)] True by (simp add: count_list_0_iff)
  next
    case False
    then show ?thesis using Cons.IH [OF d1(2)] Cons.prems(2) S(2) by simp
  qed
qed simp

lemma session_ticks:
  assumes "run (desk_step oob) (At d) ls s" "1 < f_count (d_facts d)"
  shows "count_list ls Tick \<le> 2" "count_list ls Tick = 2 \<Longrightarrow> \<nexists>d'. s = At d'"
proof -
  show "count_list ls Tick \<le> 2"
    using assms
  proof (induction ls arbitrary: s rule: rev_induct)
    case (snoc e ls)
    obtain s1 where s1: "run (desk_step oob) (At d) ls s1" "desk_step oob s1 e s" using snoc.prems(1) by (auto simp: run_append run_Cons_iff)
    show ?case
    proof (cases s1)
      case (At d1)
      then show ?thesis using ticks_bound [of oob d ls d1] s1(1) snoc.prems(2) by simp
    next
      case (Frozen d1)
      then have "e \<noteq> Tick" using s1(2) by (auto elim: desk_step_FrozenE)
      then show ?thesis using snoc.IH [OF s1(1) snoc.prems(2)] by simp
    next
      case (Off t)
      then show ?thesis using s1(2) by (auto elim: desk_step_OffE)
    qed
  qed simp
  show "\<nexists>d'. s = At d'" if "count_list ls Tick = 2" using ticks_bound assms that by fastforce
qed

lemma single_task_run:
  "run (desk_step oob) s ls s' \<Longrightarrow> (case s of At d \<Rightarrow> f_count (d_facts d) \<le> 1 | Frozen d \<Rightarrow> False | Off t \<Rightarrow> True) \<Longrightarrow>
   (case s' of At d \<Rightarrow> f_count (d_facts d) \<le> 1 | Frozen d \<Rightarrow> False | Off t \<Rightarrow> True)"
proof (erule run_invariant, assumption)
  fix s e s'
  assume P: "case s of At d \<Rightarrow> f_count (d_facts d) \<le> 1 | Frozen d \<Rightarrow> False | Off t \<Rightarrow> True" and step: "desk_step oob s e s'"
  show "case s' of At d \<Rightarrow> f_count (d_facts d) \<le> 1 | Frozen d \<Rightarrow> False | Off t \<Rightarrow> True"
  proof (cases s)
    case (At d)
    show ?thesis
    proof (cases s')
      case (At d')
      then show ?thesis using At_step_slice(2) [of oob d e d'] P step \<open>s = At d\<close> by simp
    next
      case (Frozen d')
      have "e = Tick \<and> slice_ends d" using frozen_by_tick step unfolding \<open>s = At d\<close> Frozen by blast
      then show ?thesis using P \<open>s = At d\<close> by (auto simp: slice_ends_def)
    qed simp
  qed (use P step in \<open>auto elim: desk_step_OffE\<close>)
qed

end
