(* ===== verification/Replies.thy ===== *)
theory Replies
  imports Desk
begin

section \<open>The shell's operations against the desk\<close>

text \<open>
  Every operation of the shell is an item of the desk.  The operations of a command line are the items of its late reply, and
  each single operation has the effect of its item on screen and serial line.
\<close>

fun item_of :: "call \<Rightarrow> item" where
  "item_of (Set_Color fg bg) = Do (Color fg bg)"
| "item_of Clear = Do Blank"
| "item_of (Put c) = Do (Screen [c])"
| "item_of (Tx c) = Do (Line [c])"
| "item_of (Read label x) = Number (cstr label) x"
| "item_of Execute = Exec_Line"
| "item_of Rewind = New_Line"
| "item_of Pulse = Pulse_Reset"
| "item_of (Panic_With message) = Stop_With message"

text \<open>Operations without tabs, which the console cannot print.\<close>

fun call_plain :: "call \<Rightarrow> bool" where
  "call_plain (Put c) \<longleftrightarrow> c \<noteq> CHR 0x09 \<and> c \<noteq> NUL"
| "call_plain (Tx c) \<longleftrightarrow> c \<noteq> NUL"
| "call_plain (Read label x) \<longleftrightarrow> CHR 0x09 \<notin> set (cstr label)"
| "call_plain _ \<longleftrightarrow> True"

definition answers :: "call list \<Rightarrow> item list \<Rightarrow> bool" where
  "answers xs is \<longleftrightarrow> map item_of xs = is \<and> list_all call_plain xs"

named_theorems answers_rules \<open>lists of operations as items\<close>

lemma answers_append [answers_rules]: "answers xs is \<Longrightarrow> answers ys js \<Longrightarrow> answers (xs @ ys) (is @ js)"
  by (simp add: answers_def)

lemma answers_Nil [answers_rules]: "answers [] []"
  by (simp add: answers_def)

lemma answers_Cons [answers_rules]: "call_plain c \<Longrightarrow> answers xs is \<Longrightarrow> answers (c # xs) (item_of c # is)"
  by (simp add: answers_def)

lemma answers_print: "CHR 0x09 \<notin> set (cstr s) \<Longrightarrow> answers (print_calls s) (act_items (Screen (cstr s)))"
  by (auto simp: answers_def print_calls_def list_all_iff cstr_def dest: set_takeWhileD)

lemma answers_both [answers_rules]: "CHR 0x09 \<notin> set (cstr s) \<Longrightarrow> answers (both s) (act_items (Both (cstr s)))"
  by (auto simp: answers_def both_def print_calls_def list_all_iff cstr_def dest: set_takeWhileD)

lemma answers_dec [answers_rules]:
  assumes "CHR 0x09 \<notin> set (cstr p)"
  shows "answers (dec_calls p v) (act_items (number_line (cstr p) v))"
proof -
  have d: "x \<noteq> CHR 0x09 \<and> x \<noteq> NUL" if "x \<in> set (dec_string v)" for x
    using that dec_string_spec(1) [of v] isdigit_plain by (auto simp: list_all_iff)
  let ?s = "cstr p @ dec_string v @ [LF]"
  have "NUL \<notin> set ?s" "CHR 0x09 \<notin> set ?s" using d assms by auto
  then have "answers (print_calls ?s) (act_items (Screen ?s))" using answers_print [of ?s, unfolded cstr_id [OF \<open>NUL \<notin> set ?s\<close>]] by blast
  then show ?thesis unfolding dec_calls_eq number_line_def .
qed

lemma answers_cong: "answers xs is \<Longrightarrow> is = js \<Longrightarrow> answers xs js"
  by simp

lemma items_simps [simp]: "items [] = []" "items (a # as) = act_items a @ items as" "items (as @ bs) = items as @ items bs"
  by (simp_all add: items_def)

lemma answers_help:
  "answers help_calls (items (colored COLOR_CYAN [Both (''Available NovaOS Shell Commands:'' @ [LF])] @ map (\<lambda>l. Both (l @ [LF])) help_text))"
  unfolding help_calls_def
  by (rule answers_cong, (rule answers_rules | (simp; fail))+) (simp add: colored_def help_text_def del: act_items.simps(1))

lemma answers_clear: "answers clear_calls (items (Blank # colored COLOR_GREEN [Both (''=== NovaOS Interactive Shell ==='' @ [LF])]))"
  unfolding clear_calls_def
  by (rule answers_cong, (rule answers_rules | (simp; fail))+) (simp add: colored_def del: act_items.simps(1))

lemma answers_numbers:
  "answers meminfo_calls (in_yellow [Number ''PMM Free Pages : '' Free_Pages, Number ''PMM Total Pages: '' Total_Pages,
     Number ''PMM Used (KB)  : '' Used_KB])"
  "answers ticks_calls (in_yellow [Number ''Timer Ticks: '' Timer_Ticks])"
  "answers tasks_calls (in_yellow [Number ''Active Tasks: '' Task_Count, Number ''Current Task ID: '' Current_Id])"
  by (simp_all add: answers_def meminfo_calls_def ticks_calls_def tasks_calls_def in_yellow_def)

lemma answers_prompt: "answers prompt_calls prompt"
  unfolding prompt_calls_def prompt_def
  by (rule answers_cong, (rule answers_rules | (simp; fail))+) (simp add: colored_def del: act_items.simps(1))

lemma answers_unknown:
  assumes "CHR 0x09 \<notin> set (cstr cmdline)"
  shows "answers (unknown_calls cmdline) (items (colored COLOR_RED
        [Both (''Unknown command: '' @ [CHR 0x27]), Both (cstr cmdline),
         Both ([CHR 0x27] @ ''. Type '' @ [CHR 0x27] @ ''help'' @ [CHR 0x27] @ '' for commands.'' @ [LF])]))"
  unfolding unknown_calls_def
  by (rule answers_cong, (rule answers_rules assms | (simp; fail))+) (simp add: colored_def del: act_items.simps(1))

lemma answers_echo:
  assumes "CHR 0x09 \<notin> set (cstr (drop 5 cmdline))"
  shows "answers (echo_calls cmdline) (items [Both (cstr (drop 5 cmdline)), Both [LF]])"
  unfolding echo_calls_def
  by (rule answers_cong, (rule answers_rules assms | (simp del: act_items.simps(1); fail))+)

lemma answers_reboot: "answers reboot_calls (items [Both (''Rebooting system...'' @ [LF])] @ [Pulse_Reset])"
  unfolding reboot_calls_def
  by (rule answers_cong, (rule answers_rules | (simp del: act_items.simps(1); fail))+)

lemma answers_entry:
  assumes "CHR 0x09 \<notin> set (cstr (vn_name n))"
  shows "answers (entry_calls n) (items (list_entry (file_of n)))"
  unfolding entry_calls_def
  by (rule answers_cong, (rule answers_rules assms | (simp; fail))+) (simp add: list_entry_def file_of_def del: act_items.simps(1))

lemma answers_entries:
  "\<forall>n \<in> set ns. CHR 0x09 \<notin> set (cstr (vn_name n)) \<Longrightarrow> answers (concat (map entry_calls ns)) (items (concat (map list_entry (map file_of ns))))"
proof (induction ns)
  case (Cons n ns)
  then show ?case using answers_append [OF answers_entry [of n]] by simp
qed (simp add: answers_Nil)

lemma answers_ls:
  assumes "vfs_inv fs" "plain_files fs"
  shows "answers (ls_calls fs) (items (colored COLOR_CYAN [Both (''RAM Disk Files:'' @ [LF])] @ concat (map list_entry (files fs))))"
proof -
  let ?ns = "map (\<lambda>i. fs ! i) (vfs_list 16 fs)"
  have f: "map file_of ?ns = files fs" using listed_nodes [OF assms(1)] by simp
  have "\<forall>n \<in> set ?ns. CHR 0x09 \<notin> set (cstr (vn_name n))"
  proof
    fix n assume "n \<in> set ?ns"
    then have "file_of n \<in> set (files fs)" unfolding f [symmetric] by force
    then show "CHR 0x09 \<notin> set (cstr (vn_name n))" using assms(2) by (auto simp: plain_files_def file_of_def)
  qed
  then have E: "answers (concat (map (\<lambda>i. entry_calls (fs ! i)) (vfs_list 16 fs))) (items (concat (map list_entry (files fs))))"
    using answers_entries [of ?ns, unfolded f] by (simp add: o_def)
  show ?thesis
    unfolding ls_calls_def
    by (rule answers_cong, (rule answers_rules E | (simp; fail))+) (simp add: colored_def del: act_items.simps(1))
qed

lemma answers_cat:
  assumes "vfs_inv fs" "plain_files fs" "cstr cmdline = ''cat '' @ t" "CHR 0x09 \<notin> set t"
  shows "answers (cat_calls oob cmdline fs)
    (let f = dropWhile (\<lambda>c. c = CHR '' '') t in
     case List.find (\<lambda>e. fst e = f) (files fs) of
       Some (n, d, z) \<Rightarrow> items (colored COLOR_GREEN ([Both (cstr d)] @ (if byte_at oob d (z - 1) = LF then [] else [Both [LF]])))
     | None \<Rightarrow> items (colored COLOR_RED [Both ''File not found: '', Both f, Both [LF]]))"
proof -
  let ?fname = "skip_spaces (drop 4 cmdline)" and ?f = "dropWhile (\<lambda>c. c = CHR '' '') t"
  have fn: "cstr ?fname = ?f" using cstr_drop_prefix [OF assms(3)] by (simp add: cstr_skip_spaces numeral_eq_Suc)
  have tab: "CHR 0x09 \<notin> set (cstr ?fname)" using assms(4) set_dropWhileD [of "CHR 0x09"] unfolding fn by fast
  note O = vfs_open_files [OF assms(1), of ?fname, unfolded fn]
  show ?thesis
  proof (cases "vfs_open ?fname fs")
    case None
    then have N: "List.find (\<lambda>e. fst e = ?f) (files fs) = None" using O by simp
    have "answers (cat_calls oob cmdline fs) (items (colored COLOR_RED [Both ''File not found: '', Both ?f, Both [LF]]))"
      unfolding cat_calls_def Let_def None option.case
      by (rule answers_cong, (rule answers_rules tab | (simp; fail))+) (simp add: colored_def fn del: act_items.simps(1))
    then show ?thesis by (simp add: N)
  next
    case (Some i)
    let ?n = "fs ! i"
    have F: "List.find (\<lambda>e. fst e = ?f) (files fs) = Some (file_of ?n)" using O Some by simp
    then have "file_of ?n \<in> set (files fs)" by (auto simp: find_Some_iff)
    then have d: "CHR 0x09 \<notin> set (cstr (vn_data ?n))" using assms(2) by (auto simp: plain_files_def file_of_def)
    let ?nl = "byte_at oob (vn_data ?n) (vn_size ?n - 1) \<noteq> LF"
    have nl: "answers (if ?nl then both [LF] else []) (if ?nl then act_items (Both [LF]) else [])"
      using answers_both [of "[LF]"] answers_Nil by simp
    have "answers (cat_calls oob cmdline fs) (items (colored COLOR_GREEN ([Both (cstr (vn_data ?n))] @ (if ?nl then [Both [LF]] else []))))"
      unfolding cat_calls_def Let_def Some option.case
      by (rule answers_cong, (rule answers_rules d nl | (simp; fail))+) (simp add: colored_def del: act_items.simps(1))
    then show ?thesis by (simp add: F file_of_def if_distrib cong: if_cong)
  qed
qed

text \<open>The command line.\<close>

lemma answers_if:
  "(b \<Longrightarrow> answers xs (reply_items r)) \<Longrightarrow> (\<not> b \<Longrightarrow> answers ys (reply_items q)) \<Longrightarrow>
   answers (if b then xs else ys) (reply_items (if b then r else q))"
  by simp

lemma answers_calls:
  assumes fs: "vfs_inv (k_vfs k)" "plain_files (k_vfs k)" and tab: "CHR 0x09 \<notin> set (cstr cmdline)"
  shows "answers (shell_calls oob cmdline k) (late_reply oob (cstr cmdline) (kernel_facts k))"
proof -
  define s where "s = skip_spaces cmdline"
  have l: "dropWhile (\<lambda>c. c = CHR '' '') (cstr cmdline) = cstr s" by (simp add: s_def cstr_skip_spaces)
  have t: "CHR 0x09 \<notin> set (cstr s)" using tab set_dropWhileD unfolding l [symmetric] by fast
  show ?thesis
  proof (cases "cstr s \<in> {''meminfo'', ''ticks'', ''tasks''}")
    case True
    then show ?thesis using answers_numbers
      unfolding shell_calls_def late_reply_def l Let_def s_def [symmetric] command_words deref_cstr by auto
  next
    case False
    have cat: "answers (cat_calls oob s (k_vfs k)) (reply_items
        (case List.find (\<lambda>e. fst e = dropWhile (\<lambda>c. c = CHR '' '') (drop 4 (cstr s))) (files (k_vfs k)) of
           Some (n, d, z) \<Rightarrow>
             Reply (colored COLOR_GREEN ([Both (cstr d)] @ (if byte_at oob d (z - 1) = LF then [] else [Both [LF]])))
         | None \<Rightarrow> Reply (colored COLOR_RED [Both ''File not found: '', Both (dropWhile (\<lambda>c. c = CHR '' '') (drop 4 (cstr s))), Both [LF]])))"
      if "take 4 (cstr s) = ''cat ''"
    proof -
      have e: "cstr s = ''cat '' @ drop 4 (cstr s)" using that by (metis append_take_drop_id)
      have "CHR 0x09 \<notin> set (drop 4 (cstr s))" using t by (meson in_set_dropD)
      from answers_cat [OF fs e this, of oob] show ?thesis by (auto simp: Let_def split: option.splits)
    qed
    have echo: "answers (echo_calls s) (reply_items (Reply [Both (drop 5 (cstr s)), Both [LF]]))" if "take 5 (cstr s) = ''echo ''"
    proof -
      note e = echo_rest [OF that]
      have "CHR 0x09 \<notin> set (cstr (drop 5 s))" unfolding e using t by (meson in_set_dropD)
      from answers_echo [OF this] show ?thesis unfolding e by simp
    qed
    have late: "late_reply oob (cstr cmdline) (kernel_facts k) = reply_items (shell_reply oob (cstr cmdline) (kernel_facts k))"
      using False by (simp add: late_reply_def l)
    note R = reply_items.simps(1) [symmetric]
    note branches = answers_help [unfolded R] answers_clear [unfolded R] answers_ls [OF fs, unfolded R] answers_unknown [OF t, unfolded R] cat echo
      answers_reboot [folded reply_items.simps(2)]
    have nil: "answers [] (reply_items (Reply []))" "answers [Panic_With m] (reply_items (Stop m))" for m by (simp_all add: answers_def)
    have "\<not> cstr s = ''meminfo''" "\<not> cstr s = ''ticks''" "\<not> cstr s = ''tasks''" using False by simp_all
    note off = this [THEN if_not_P]
    show ?thesis
      unfolding late
      unfolding shell_calls_def shell_reply_def kernel_facts_def facts.simps l Let_def s_def [symmetric] command_words deref_cstr off
      by (rule answers_if branches nil | assumption)+
  qed
qed

subsection \<open>Single operations\<close>

lemma stat_value_fact: "stat_value x k = stat_fact x (kernel_facts k)"
  by (cases x) (simp_all add: kernel_facts_def pmm_used_bytes_def sched_task_count_def sched_current_id_def)

lemma answers_read:
  "call_plain (Read p x) \<Longrightarrow> answers (dec_calls p (stat_value x k)) (items [number_line (cstr p) (stat_fact x (kernel_facts k))])"
  using answers_dec [of p "stat_value x k"] by (simp add: stat_value_fact)

lemma call_performs:
  assumes "item_of c = Do a" "call_plain c" "con_rep (k_fb k) con" "uart_live dev"
  shows "shell_op c sh = sh" "expand oob c sh k = []" "\<exists>k'. call_out dev c k = Returns k' \<and> krep dev k k' (fold act_step [a] (con, []))"
proof -
  show "shell_op c sh = sh" "expand oob c sh k = []" using assms(1) by (cases c; simp)+
  have R: "\<exists>k'. returns (P k) = Returns k' \<and> krep dev k k' (fold act_step [b] (con, []))" if "performs dev P [b]" for P b
    by (rule returns_performs [OF that assms(3,4)])
  show "\<exists>k'. call_out dev c k = Returns k' \<and> krep dev k k' (fold act_step [a] (con, []))"
  proof (cases c)
    case (Put x)
    then show ?thesis using R [OF performs_put_char [of x]] assms(1,2) by auto
  next
    case (Tx x)
    then show ?thesis using R [OF performs_serial [of dev "[x]"]] assms(1,2) by auto
  qed (use assms(1) R [OF performs_color] R [OF performs_clear] in auto)
qed

lemma terminated_line:
  assumes "shell_inv sh"
  shows "cstr (sh_buf (shell_op Execute sh)) = sh_line sh" "shell_inv (shell_op Execute sh)" "sh_line (shell_op Execute sh) = sh_line sh"
proof -
  have "(sh_buf sh)[unat (sh_idx sh) := NUL] = sh_line sh @ NUL # drop (Suc (unat (sh_idx sh))) (sh_buf sh)"
    using assms by (simp add: sh_line_def inv_defs upd_conv_take_nth_drop)
  moreover have "NUL \<notin> set (sh_line sh)" using assms printable_plain by (auto simp: inv_defs list_all_iff)
  ultimately show "cstr (sh_buf (shell_op Execute sh)) = sh_line sh" by (simp add: cstr_append_NUL)
  show "shell_inv (shell_op Execute sh)" "sh_line (shell_op Execute sh) = sh_line sh" using assms by (simp_all add: inv_defs sh_line_def)
qed

lemma line_plain: "shell_inv sh \<Longrightarrow> CHR 0x09 \<notin> set (sh_line sh)"
  using printable_plain by (auto simp: inv_defs list_all_iff)

text \<open>A character that is not Enter edits the line and is echoed.\<close>

lemma key_calls_edits:
  assumes inv: "shell_inv sh" and c: "c \<noteq> LF" and rep: "krep dev k0 k ct"
  shows "shell_inv (fst (key_calls c sh))" "sh_line (fst (key_calls c sh)) = edit c (sh_line sh)"
    "answers (snd (key_calls c sh)) (items (echo c (sh_line sh)))"
proof -
  have "fst (shell_key dev oob c sh k) = fst (key_calls c sh)" for oob using c by (simp add: shell_key_def key_calls_def Let_def)
  with shell_key_edits [OF assms, of undefined]
  show "shell_inv (fst (key_calls c sh))" "sh_line (fst (key_calls c sh)) = edit c (sh_line sh)" by (metis fst_conv)+
  have len: "0 < sh_idx sh \<longleftrightarrow> sh_line sh \<noteq> []" "sh_idx sh < 127 \<longleftrightarrow> length (sh_line sh) < 127"
    using length_sh_line [OF inv] length_greater_0_conv [of "sh_line sh"] by (simp_all add: word_less_nat_alt)
  show "answers (snd (key_calls c sh)) (items (echo c (sh_line sh)))"
    using c printable_plain [of c] by (auto simp: key_calls_def echo_def answers_def len printable_def)
qed

end
