(* ===== verification/System.thy ===== *)
theory System
  imports Kernel_Main Replies
begin

section \<open>The running kernel\<close>

text \<open>
  Everything that can happen from \<open>sti\<close> on, as one step relation on the state of the whole kernel: the shell looks
  at the keyboard (\<open>shell_look\<close>), does the next of its operations (\<open>n_todo\<close>) or halts, an interrupt line that is not masked raises its
  vector while the interrupt flag is set and the processor takes the gate of that vector in the loaded table, the background
  task loops, an instruction faults.  An interrupt can come between any two operations: in the middle of a command, of a
  line of text, of the prompt.  An interrupt or exception whose gate does not lead to the stub written for it has no defined
  behaviour; the step \<open>stray\<close> makes such a machine \<open>Hangs\<close>.

  The main result is that this system is simulated by the abstract machine of theory \<open>Desk\<close>.
\<close>

subsection \<open>Interrupts on the kernel state\<close>

definition irqs_of :: "kernel \<Rightarrow> irqs" where
  "irqs_of k = \<lparr>q_pit = k_pit k, q_io = k_io k, q_kbd = k_kbd k, q_sched = k_sched k, q_heap = k_heap k, q_cpu = k_cpu k\<rparr>"

definition on_irqs :: "(irqs \<Rightarrow> irqs) \<Rightarrow> kernel \<Rightarrow> kernel" where
  "on_irqs f k = (let q = f (irqs_of k) in
     k\<lparr>k_pit := q_pit q, k_io := q_io q, k_kbd := q_kbd q, k_sched := q_sched q, k_heap := q_heap q, k_cpu := q_cpu q\<rparr>)"

text \<open>The address in the gate of a vector, in the table that is loaded; a gate that is not present has none.\<close>

definition gate_target :: "kernel \<Rightarrow> nat \<Rightarrow> u64 option" where
  "gate_target k v =
     (case k_idt k of
        None \<Rightarrow> None
      | Some t \<Rightarrow> (let g = gate_desc (idt_bytes (idt t)) v in if gt_present g then Some (of_nat (gt_offset g)) else None))"

definition irq_vector :: "kernel \<Rightarrow> nat \<Rightarrow> nat" where
  "irq_vector k n = unat (vector_base (master (k_io k))) + n"

definition accepts :: "kernel \<Rightarrow> nat \<Rightarrow> bool" where
  "accepts k n \<longleftrightarrow> interrupts_enabled (k_cpu k) \<and> n < 8 \<and> \<not> bit (imr (master (k_io k))) n"

subsection \<open>The step relation\<close>

record nova =
  n_shell :: shell
  n_place :: place
  n_todo :: "call list"
  n_count :: int
  n_out :: outcome

record params =
  p_dev :: device
  p_oob :: char
  p_link :: link
  p_ra :: return_addrs
  p_junk :: string

definition stub_of :: "params \<Rightarrow> nat \<Rightarrow> u64" where
  "stub_of p v = handler_of (lk_idt (p_link p)) v"

definition call_event :: "call \<Rightarrow> shell \<Rightarrow> event" where
  "call_event c sh = (if c = Execute then Exec (cstr (sh_buf sh)) else Call)"

inductive nova_step :: "params \<Rightarrow> nova \<Rightarrow> event \<Rightarrow> nova \<Rightarrow> bool" for p where
  look: "n_out n = Returns k \<Longrightarrow> s_current (k_sched k) = 0 \<Longrightarrow> n_place n = Check \<Longrightarrow> n_todo n = [] \<Longrightarrow>
    shell_look (n_shell n) k = (sh, xs, k') \<Longrightarrow>
    nova_step p n Round (n\<lparr>n_shell := sh, n_place := Before_Hlt, n_todo := xs, n_out := Returns k'\<rparr>)"
| call: "n_out n = Returns k \<Longrightarrow> s_current (k_sched k) = 0 \<Longrightarrow> n_todo n = c # xs \<Longrightarrow> sh = shell_op c (n_shell n) \<Longrightarrow>
    nova_step p n (call_event c sh)
      (n\<lparr>n_shell := sh, n_todo := expand (p_oob p) c sh k @ xs, n_out := call_out (p_dev p) c k\<rparr>)"
| hlt: "n_out n = Returns k \<Longrightarrow> s_current (k_sched k) = 0 \<Longrightarrow> n_place n = Before_Hlt \<Longrightarrow> n_todo n = [] \<Longrightarrow>
    nova_step p n Halt (n\<lparr>n_place := Halted\<rparr>)"
| keyboard: "n_out n = Returns k \<Longrightarrow> accepts k 1 \<Longrightarrow> gate_target k (irq_vector k 1) = Some (stub_of p 33) \<Longrightarrow>
    nova_step p n (Key (p_dev p (k_io k) PS2_DATA))
      (n\<lparr>n_place := wake (n_place n), n_out := Returns (on_irqs (keyboard_irq (p_dev p) (stub_of p 33) (p_ra p)) k)\<rparr>)"
| timer: "n_out n = Returns k \<Longrightarrow> accepts k 0 \<Longrightarrow> gate_target k (irq_vector k 0) = Some (stub_of p 32) \<Longrightarrow>
    nova_step p n Tick
      (n\<lparr>n_place := wake (n_place n), n_out := Returns (on_irqs (timer_irq (stub_of p 32) (p_ra p)) k)\<rparr>)"
| spin: "n_out n = Returns k \<Longrightarrow> s_current (k_sched k) \<noteq> 0 \<Longrightarrow>
    nova_step p n Spin (n\<lparr>n_count := background_ticker_task (n_count n)\<rparr>)"
| fault: "n_out n = Returns k \<Longrightarrow> v < 32 \<Longrightarrow> gate_target k v = Some (stub_of p v) \<Longrightarrow>
    exception (p_dev p) (k_panic k) (p_junk p) (stub_of p v) v err ((k_cpu k, hmem (k_heap k)), k_io k, fb_pix (k_fb k)) = Some (c, w, px) \<Longrightarrow>
    nova_step p n (Fault v) (n\<lparr>n_out := Panicked (k\<lparr>k_cpu := c, k_io := w, k_fb := (k_fb k)\<lparr>fb_pix := px\<rparr>\<rparr>)\<rparr>)"
| stray: "n_out n = Returns k \<Longrightarrow> accepts k i \<Longrightarrow> i \<notin> {0, 1} \<or> gate_target k (irq_vector k i) \<noteq> Some (stub_of p (32 + i)) \<Longrightarrow>
    nova_step p n e (n\<lparr>n_out := Hangs\<rparr>)"
| wild: "n_out n = Returns k \<Longrightarrow> v < 32 \<Longrightarrow> gate_target k v \<noteq> Some (stub_of p v) \<Longrightarrow> nova_step p n (Fault v) (n\<lparr>n_out := Hangs\<rparr>)"

subsection \<open>Dispatch through the loaded table\<close>

lemma gate_target_init:
  assumes "k_idt k = Some (idt_init (lk_idt (p_link p)))" "v < 34"
  shows "gate_target k v = Some (stub_of p v)"
proof -
  let ?t = "idt_init (lk_idt (p_link p))"
  have "gate_desc (idt_bytes (idt ?t)) v = int_gate (stub_of p v)"
    using assms(2) idt_init_gates [where a = "lk_idt (p_link p)"] gate_desc_table [of v "idt ?t"]
    by (simp add: gate_decodes stub_of_def)
  then show ?thesis using assms(1) by (simp add: gate_target_def int_gate_def Let_def)
qed

lemma programmed_irqs:
  assumes "irqs_programmed (k_io k)"
  shows "irq_vector k n = 32 + n" "accepts k n \<Longrightarrow> n \<in> {0, 1}"
proof -
  show "irq_vector k n = 32 + n" using assms by (simp add: irq_vector_def irqs_programmed_def)
  assume "accepts k n"
  then have "n < 8" "\<not> bit (0xFC :: u8) n" using assms by (simp_all add: accepts_def irqs_programmed_def)
  moreover have "\<forall>n \<in> {2..<8}. bit (0xFC :: u8) n" by code_simp
  ultimately show "n \<in> {0, 1}" by (cases "n < 2") auto
qed

lemma irqs_programmed_eoi: "irqs_programmed w \<Longrightarrow> i < 8 \<Longrightarrow> irqs_programmed (pic_send_eoi i w)"
  by (auto simp: irqs_programmed_def pics_ready_def pic_send_eoi_def chip_cmd_def const_defs)

lemma irqs_programmed_in [simp]: "irqs_programmed (w @ [In q v]) = irqs_programmed w"
  by (simp add: irqs_programmed_def pics_ready_def)


subsection \<open>The relation between the kernel and its desk\<close>

definition serial_out :: "io \<Rightarrow> string \<Rightarrow> bool" where
  "serial_out w t \<longleftrightarrow> outs 0x3F8 w = 0x03 # map of_char (crlf t)"

text \<open>What the desk shows of the kernel.\<close>

definition shows_desk :: "kernel \<Rightarrow> shell \<Rightarrow> desk \<Rightarrow> bool" where
  "shows_desk k sh d \<longleftrightarrow> con_rep (k_fb k) (d_con d) \<and> serial_out (k_io k) (d_sent d) \<and> sh_line sh = d_line d \<and>
     kb_items (k_kbd k) = d_keys d \<and> shift_held (k_kbd k) = d_shift d \<and> caps_locked (k_kbd k) = d_caps d \<and>
     kernel_facts k = d_facts d \<and> s_ticks (k_sched k) = d_phase d"

text \<open>
  What it relies on: the invariants of the components, the tables and controllers as the boot has set them up, and a second task
  either absent or new, with room on the stack \<open>B\<close> of the boot context for an interrupt and a switch.
\<close>

definition second_task :: "params \<Rightarrow> u64 set \<Rightarrow> kernel \<Rightarrow> bool" where
  "second_task p B k \<longleftrightarrow> s_count (k_sched k) = 2 \<and> sys_ok B (k_sched k, k_heap k, k_cpu k) \<and> irq_room B (irqs_of k) \<and>
     ctx_rip (frame_ctx (hmem (k_heap k)) (t_rsp (task (k_sched k) 1))) \<noteq> ra_switch (p_ra p)"

definition sound :: "params \<Rightarrow> u64 set \<Rightarrow> kernel \<Rightarrow> shell \<Rightarrow> bool" where
  "sound p B k sh \<longleftrightarrow> shell_inv sh \<and> kbd_inv (k_kbd k) \<and> vfs_inv (k_vfs k) \<and> plain_files (k_vfs k) \<and>
     pmm_inv (k_pmm k) \<and> sched_inv (k_sched k) \<and>
     irqs_programmed (k_io k) \<and> k_idt k = Some (idt_init (lk_idt (p_link p))) \<and> interrupts_enabled (k_cpu k) \<and>
     s_current (k_sched k) = 0 \<and> (1 < s_count (k_sched k) \<longrightarrow> second_task p B k)"

definition machine_ok :: "params \<Rightarrow> bool" where
  "machine_ok p \<longleftrightarrow> uart_live (p_dev p) \<and> length (p_junk p) = 20"

definition frozen_rel :: "params \<Rightarrow> kernel \<Rightarrow> desk \<Rightarrow> bool" where
  "frozen_rel p k d \<longleftrightarrow> con_rep (k_fb k) (d_con d) \<and> serial_out (k_io k) (d_sent d) \<and> s_current (k_sched k) \<noteq> 0 \<and>
     \<not> interrupts_enabled (k_cpu k) \<and> k_idt k = Some (idt_init (lk_idt (p_link p)))"

definition at_rel :: "params \<Rightarrow> u64 set \<Rightarrow> nova \<Rightarrow> kernel \<Rightarrow> desk \<Rightarrow> bool" where
  "at_rel p B n k d \<longleftrightarrow> n_place n = d_place d \<and> answers (n_todo n) (d_todo d) \<and> sound p B k (n_shell n) \<and> shows_desk k (n_shell n) d"

fun view_rel :: "params \<Rightarrow> u64 set \<Rightarrow> nova \<Rightarrow> outcome \<Rightarrow> session \<Rightarrow> bool" where
  "view_rel p B n (Returns k) (At d) \<longleftrightarrow> at_rel p B n k d"
| "view_rel p B n (Returns k) (Frozen d) \<longleftrightarrow> frozen_rel p k d"
| "view_rel p B n (Panicked k) (Off t) \<longleftrightarrow> serial_out (k_io k) t"
| "view_rel p B n (Rebooting k) (Off t) \<longleftrightarrow> serial_out (k_io k) t"
| "view_rel p B n _ _ \<longleftrightarrow> False"

lemma at_relD: "at_rel p B n k d \<Longrightarrow> sound p B k (n_shell n)" "at_rel p B n k d \<Longrightarrow> shows_desk k (n_shell n) d"
  by (simp_all add: at_rel_def)

definition nova_rel :: "params \<Rightarrow> u64 set \<Rightarrow> nova \<Rightarrow> session \<Rightarrow> bool" where
  "nova_rel p B n s \<longleftrightarrow> machine_ok p \<and> view_rel p B n (n_out n) s"

subsection \<open>Output\<close>

lemma serial_out_sent: "serial_out w t \<Longrightarrow> sent s w w' \<Longrightarrow> serial_out w' (t @ s)"
  using sent_outs [of s w w' "0x3F8"] by (simp add: serial_out_def)

lemma serial_out_other: "outs 0x3F8 w' = outs 0x3F8 w \<Longrightarrow> serial_out w' t = serial_out w t"
  by (simp add: serial_out_def)

lemma eoi_outs: "outs 0x3F8 (pic_send_eoi i w) = outs 0x3F8 w"
  by (simp add: pic_send_eoi_def outb_def const_defs)

lemma krep_more:
  assumes "krep dev k k1 ct"
  shows "k_idt k1 = k_idt k" "sent (snd ct) (k_io k) (k_io k1)" "kernel_facts k1 = kernel_facts k" "irqs_of k1 = (irqs_of k)\<lparr>q_io := k_io k1\<rparr>"
    "irqs_programmed (k_io k1) = irqs_programmed (k_io k)"
  using assms irqs_programmed_sent by (auto simp: krep_def serial_rep_def kernel_facts_def irqs_of_def)

lemma sound_output:
  assumes "krep dev k k1 ct" "sound p B k sh" "shell_inv sh'"
  shows "sound p B k1 sh'"
  using assms(2,3) krep_fields [OF assms(1)] krep_more [OF assms(1)] by (simp add: sound_def second_task_def irq_room_def)

lemma shows_frame:
  "shows_desk k sh (d\<lparr>d_todo := xs\<rparr>) = shows_desk k sh d" "shows_desk k sh (d\<lparr>d_place := pl\<rparr>) = shows_desk k sh d"
  by (simp_all add: shows_desk_def)

lemma shows_output:
  assumes "krep (p_dev p) k k1 (fold act_step as (d_con d, []))" "shows_desk k sh d" "sh_line sh' = l"
  shows "shows_desk k1 sh' (perform as (d\<lparr>d_line := l\<rparr>))"
  using assms(2,3) krep_fields [OF assms(1)] krep_more [OF assms(1)] serial_out_sent [OF _ krep_more(2) [OF assms(1)]]
  by (simp add: shows_desk_def)

subsection \<open>Interrupts\<close>

lemma second_task_irq:
  assumes "second_task p B k" "s_current (k_sched k) = 0"
    and "k_sched k' = (k_sched k)\<lparr>s_ticks := t\<rparr>" "k_heap k' = (k_heap k)\<lparr>hmem := m\<rparr>" "k_cpu k' = k_cpu k"
    and m: "\<forall>x. x \<notin> span (irq_frame_base (k_cpu k) - 8) 168 \<longrightarrow> m x = hmem (k_heap k) x"
  shows "second_task p B k'"
proof -
  let ?s = "k_sched k"
  have ok: "sys_ok B (?s, k_heap k, k_cpu k)" "s_count ?s = 2" and room: "span (irq_frame_base (k_cpu k) - 64) 224 \<subseteq> B"
    using assms(1,2) by (simp_all add: second_task_def irq_room_def irqs_of_def stack_area_def)
  have out: "m x = hmem (k_heap k) x" if "x \<notin> B" for x
    using m that room span_split(2) [of "irq_frame_base (k_cpu k) - 64"] by auto
  have "sys_ok B (?s, (k_heap k)\<lparr>hmem := m\<rparr>, k_cpu k)"
    using out assms(2) by (intro sys_ok_stack_write [OF ok(1)]) (simp add: stack_area_def)
  moreover have "stack_area B (?s\<lparr>s_ticks := t\<rparr>) i = stack_area B ?s i" for i by (simp add: stack_area_def)
  ultimately have ok': "sys_ok B (k_sched k', k_heap k', k_cpu k')"
    unfolding assms(3-5) by (simp add: sys_ok_def stacks_ok_def sched_inv_def)
  have "frame_ctx m (t_rsp (s_tasks ?s ! 1)) = frame_ctx (hmem (k_heap k)) (t_rsp (s_tasks ?s ! 1))"
    using ok assms(2) out by (intro other_frame_kept [of B ?s]) (simp_all add: sys_ok_def stack_area_def)
  then show ?thesis using assms(1-5) ok' by (simp add: second_task_def irq_room_def irqs_of_def stack_area_def)
qed

lemma press_step:
  assumes "sound p B k sh" "shows_desk k sh d"
  shows "sound p B (on_irqs (keyboard_irq (p_dev p) a (p_ra p)) k) sh"
    "shows_desk (on_irqs (keyboard_irq (p_dev p) a (p_ra p)) k) sh (desk_press (p_dev p (k_io k) PS2_DATA) d)"
proof -
  let ?k = "on_irqs (keyboard_irq (p_dev p) a (p_ra p)) k" and ?sc = "p_dev p (k_io k) PS2_DATA"
  obtain m where q: "keyboard_irq (p_dev p) a (p_ra p) (irqs_of k) = (irqs_of k)\<lparr>q_kbd := kbd_scancode ?sc (k_kbd k),
      q_io := pic_send_eoi 1 (k_io k @ [In PS2_DATA ?sc]), q_heap := (k_heap k)\<lparr>hmem := m\<rparr>\<rparr>"
    "\<forall>x. x \<notin> span (irq_frame_base (k_cpu k) - 8) 168 \<longrightarrow> m x = hmem (k_heap k) x"
    using keyboard_irq_spec [of "p_dev p" a "p_ra p" "irqs_of k"] by (auto simp: irqs_of_def)
  have k: "?k = k\<lparr>k_kbd := kbd_scancode ?sc (k_kbd k), k_io := pic_send_eoi 1 (k_io k @ [In PS2_DATA ?sc]),
      k_heap := (k_heap k)\<lparr>hmem := m\<rparr>\<rparr>"
    unfolding on_irqs_def q(1) Let_def by (cases k) (simp add: irqs_of_def)
  have "1 < s_count (k_sched k) \<Longrightarrow> second_task p B ?k"
    using assms(1) q(2) by (intro second_task_irq [of p B k ?k "s_ticks (k_sched k)" m]) (simp_all add: k sound_def)
  then show "sound p B ?k sh"
    using assms(1) scancode_step(3) irqs_programmed_eoi [of _ 1] unfolding k by (simp add: sound_def)
  show "shows_desk ?k sh (desk_press ?sc d)"
    using assms scancode_step unfolding k
    by (simp add: sound_def shows_desk_def desk_press_def kernel_facts_def eoi_outs serial_out_def)
qed

lemma shows_facts: "shows_desk k sh d \<Longrightarrow> d_facts d = kernel_facts k" "shows_desk k sh d \<Longrightarrow> d_phase d = s_ticks (k_sched k)"
  by (simp_all add: shows_desk_def)

lemma slice_ends_iff: "shows_desk k sh d \<Longrightarrow> slice_ends d \<longleftrightarrow> switches (k_sched k)"
  by (simp add: shows_facts slice_ends_def switches_def kernel_facts_def)

lemma tick_step:
  assumes "sound p B k sh" "shows_desk k sh d" "\<not> slice_ends d"
  shows "sound p B (on_irqs (timer_irq a (p_ra p)) k) sh"
    "\<exists>d'. desk_tick d = At d' \<and> d_place d' = wake (d_place d) \<and> shows_desk (on_irqs (timer_irq a (p_ra p)) k) sh d'"
proof -
  let ?k = "on_irqs (timer_irq a (p_ra p)) k" and ?s = "k_sched k"
  have "\<not> switches (q_sched (irqs_of k))" using assms(2,3) slice_ends_iff by (simp add: irqs_of_def)
  then obtain m where q: "timer_irq a (p_ra p) (irqs_of k) = (irqs_of k)\<lparr>q_pit := pit_tick_handler (k_pit k), q_io := pic_send_eoi 0 (k_io k),
      q_sched := ?s\<lparr>s_ticks := s_ticks ?s + 1\<rparr>, q_heap := (k_heap k)\<lparr>hmem := m\<rparr>\<rparr>"
    "\<forall>x. x \<notin> span (irq_frame_base (k_cpu k) - 8) 168 \<longrightarrow> m x = hmem (k_heap k) x"
    using timer_irq_idle [of "irqs_of k" a "p_ra p"] by (auto simp: irqs_of_def)
  have k: "?k = k\<lparr>k_pit := pit_tick_handler (k_pit k), k_io := pic_send_eoi 0 (k_io k), k_sched := ?s\<lparr>s_ticks := s_ticks ?s + 1\<rparr>,
      k_heap := (k_heap k)\<lparr>hmem := m\<rparr>\<rparr>"
    unfolding on_irqs_def q(1) Let_def by (cases k) (simp add: irqs_of_def)
  have "1 < s_count ?s \<Longrightarrow> second_task p B ?k"
    using assms(1) q(2) by (intro second_task_irq [of p B k ?k "s_ticks ?s + 1" m]) (simp_all add: k sound_def)
  then show "sound p B ?k sh"
    using assms(1) irqs_programmed_eoi [of _ 0] unfolding k by (simp add: sound_def sched_inv_def)
  show "\<exists>d'. desk_tick d = At d' \<and> d_place d' = wake (d_place d) \<and> shows_desk ?k sh d'"
    using assms(2,3) shows_facts [OF assms(2)] unfolding k
    by (simp add: shows_desk_def desk_tick_def kernel_facts_def serial_out_def eoi_outs pit_ticks_def pit_tick_handler_def Let_def)
qed

text \<open>The end of a time slice with a second task present: its function is entered with interrupts masked.\<close>

lemma freeze_step:
  assumes "sound p B k sh" "shows_desk k sh d" "slice_ends d"
  shows "\<exists>d'. desk_tick d = Frozen d' \<and> frozen_rel p (on_irqs (timer_irq a (p_ra p)) k) d'"
proof -
  let ?k = "on_irqs (timer_irq a (p_ra p)) k" and ?s = "k_sched k" and ?q = "irqs_of k"
  have q: "q_sched ?q = ?s" "q_heap ?q = k_heap k" "q_cpu ?q = k_cpu k" "q_io ?q = k_io k" by (simp_all add: irqs_of_def)
  have sw: "switches ?s" using assms(2,3) slice_ends_iff by simp
  then have S: "sys_ok B (?s, k_heap k, k_cpu k)" "irq_room B ?q" "s_count ?s = 2" "s_current ?s = 0"
    "ctx_rip (frame_ctx (hmem (k_heap k)) (t_rsp (task ?s 1))) \<noteq> ra_switch (p_ra p)"
    using assms(1) by (auto simp: sound_def second_task_def switches_def)
  have n: "next_task ?s = 1" using S(3,4) by (simp add: next_task_def)
  obtain c3 m3 s' where T: "timer_irq a (p_ra p) ?q = set_machine
      (after_tick (p_ra p) (c3, m3))
      (?q\<lparr>q_pit := pit_tick_handler (q_pit ?q), q_io := pic_send_eoi 0 (q_io ?q), q_sched := s'\<rparr>)"
    "running_ctx c3 = frame_ctx m3 (t_rsp (task ?s 1))" "\<not> interrupts_enabled c3" "s_current s' = 1"
    "\<And>x. x \<notin> stack_area B ?s (unat (s_current ?s)) \<Longrightarrow> m3 x = hmem (k_heap k) x"
    using timer_irq_switch [of B ?q a "p_ra p"] S(1,2) sw unfolding q n by metis
  have "frame_ctx m3 (t_rsp (task ?s 1)) = frame_ctx (hmem (k_heap k)) (t_rsp (task ?s 1))"
    using S(1,3,4) T(5) by (intro other_frame_kept [of B ?s]) (simp_all add: sys_ok_def)
  then have "rip c3 \<noteq> ra_switch (p_ra p)" using T(2) S(5) by (metis ctx.select_convs(2) running_ctx_def)
  then have "k_cpu ?k = c3" "s_current (k_sched ?k) = 1" "k_io ?k = pic_send_eoi 0 (k_io k)" "k_fb ?k = k_fb k" "k_idt ?k = k_idt k"
    using T(1,4) q(4) by (simp_all add: on_irqs_def Let_def after_tick_def)
  then have "frozen_rel p ?k d" using assms(1,2) T(3)
    by (simp add: frozen_rel_def sound_def shows_desk_def serial_out_other [OF eoi_outs])
  then show ?thesis using assms(3) by (simp add: desk_tick_def frozen_rel_def)
qed

subsection \<open>A round of the shell\<close>

lemma second_task_kbd [simp]: "second_task p B (k\<lparr>k_kbd := kb\<rparr>) = second_task p B k"
  by (simp add: second_task_def irq_room_def irqs_of_def)

lemma sound_kbd: "sound p B k sh \<Longrightarrow> kbd_inv kb \<Longrightarrow> sound p B (k\<lparr>k_kbd := kb\<rparr>) sh"
  by (simp add: sound_def)

lemma kb_take_modifiers: "shift_held (snd (kb_take kb)) = shift_held kb" "caps_locked (snd (kb_take kb)) = caps_locked kb"
  by (simp_all add: kb_take_def)

lemma shows_take:
  assumes "shows_desk k sh d" "kbd_inv (k_kbd k)" "d_keys d = c # ks"
  shows "\<exists>kb. shell_look sh k = (fst (key_calls c sh), snd (key_calls c sh), k\<lparr>k_kbd := kb\<rparr>) \<and> kbd_inv kb \<and>
    shows_desk (k\<lparr>k_kbd := kb\<rparr>) sh (d\<lparr>d_keys := ks\<rparr>)"
proof -
  let ?kb = "snd (kb_take (k_kbd k))"
  have i: "kb_items (k_kbd k) = c # ks" using assms(1,3) by (simp add: shows_desk_def)
  then have kb: "kbd_inv ?kb" "kb_items ?kb = ks" "fst (kb_take (k_kbd k)) = c" using kb_take_items [OF assms(2)] by auto
  then have "shell_look sh k = (fst (key_calls c sh), snd (key_calls c sh), k\<lparr>k_kbd := ?kb\<rparr>)"
    using i has_char_iff [OF assms(2)] by (simp add: shell_look_def split_beta)
  then show ?thesis
    using assms(1) kb kb_take_modifiers [of "k_kbd k"] by (intro exI [of _ ?kb]) (simp add: shows_desk_def kernel_facts_def)
qed

lemma at_krep: "machine_ok p \<Longrightarrow> shows_desk k sh d \<Longrightarrow> krep (p_dev p) k k (d_con d, [])"
  by (intro krep_refl) (simp_all add: machine_ok_def shows_desk_def)

lemma look_step:
  assumes "machine_ok p" "sound p B k sh" "shows_desk k sh d" "d_todo d = []" "shell_look sh k = (sh', xs, k')"
  shows "answers xs (d_todo (desk_round d)) \<and> sound p B k' sh' \<and> shows_desk k' sh' (desk_round d)"
proof -
  let ?d = "d\<lparr>d_place := Before_Hlt\<rparr>"
  have d: "shows_desk k sh ?d" "kbd_inv (k_kbd k)" "shell_inv sh" using assms(2,3) by (simp_all add: shows_desk_def sound_def)
  show ?thesis
  proof (cases "d_keys d")
    case Nil
    then have "\<not> keyboard_has_char (k_kbd k)" using has_char_iff [OF d(2)] assms(3) by (simp add: shows_desk_def)
    then have "sh' = sh" "xs = []" "k' = k" using assms(5) by (simp_all add: shell_look_def)
    then show ?thesis using Nil assms(2,4) d(1) by (simp add: desk_round_def answers_Nil)
  next
    case (Cons c ks)
    obtain kb where kb: "sh' = fst (key_calls c sh)" "xs = snd (key_calls c sh)" "k' = k\<lparr>k_kbd := kb\<rparr>" "kbd_inv kb"
      "shows_desk k' sh (?d\<lparr>d_keys := ks\<rparr>)" using shows_take [OF d(1,2), of c ks] Cons assms(5) by auto
    have r: "desk_round d = desk_char c (?d\<lparr>d_keys := ks\<rparr>)" using Cons by (simp add: desk_round_def)
    show ?thesis
    proof (cases "c = LF")
      case True
      have "answers (Put LF # Execute # Rewind # prompt_calls) (Do (Screen [LF]) # Exec_Line # New_Line # prompt)"
        using answers_prompt by (simp add: answers_def)
      then show ?thesis using True kb sound_kbd [OF assms(2) kb(4)] by (simp add: r desk_char_def key_calls_def shows_frame)
    next
      case False
      have l: "sh_line sh = d_line d" using assms(3) by (simp add: shows_desk_def)
      note E = key_calls_edits [OF d(3) False at_krep [OF assms(1,3)], unfolded l]
      have "sound p B k' sh'" using sound_kbd [OF assms(2) kb(4)] E(1) kb(1,3) by (simp add: sound_def)
      moreover have "shows_desk k' sh' (desk_round d)" using kb(1,5) E(2) False unfolding r by (simp add: desk_char_def shows_desk_def)
      ultimately show ?thesis using E(3) False kb(2) unfolding r by (simp add: desk_char_def)
    qed
  qed
qed

subsection \<open>An operation of the shell\<close>

text \<open>
  An interrupt in the middle of a screen operation has the same result as one before or after it: the operations on
  the screen neither read nor write what an interrupt handler works on.
\<close>

lemma screen_ops_commute:
  "set_color fg bg (on_irqs f k) = map_option (on_irqs f) (set_color fg bg k)"
  "clear_screen (on_irqs f k) = map_option (on_irqs f) (clear_screen k)"
  "put_char c (on_irqs f k) = map_option (on_irqs f) (put_char c k)"
proof -
  have e: "(on_irqs f k)\<lparr>k_fb := g\<rparr> = on_irqs f (k\<lparr>k_fb := g\<rparr>)" "k_fb (on_irqs f k) = k_fb k" for g
    by (cases k, simp add: on_irqs_def irqs_of_def Let_def)+
  show "set_color fg bg (on_irqs f k) = map_option (on_irqs f) (set_color fg bg k)"
    "clear_screen (on_irqs f k) = map_option (on_irqs f) (clear_screen k)"
    by (simp_all add: set_color_def clear_screen_def e)
  show "put_char c (on_irqs f k) = map_option (on_irqs f) (put_char c k)"
    by (cases "fb_putchar c (k_fb k)") (simp_all add: put_char_def e)
qed

lemma out_step:
  assumes "machine_ok p" "sound p B k sh" "shows_desk k sh d" "item_of c = Do a" "call_plain c"
  shows "shell_op c sh = sh" "expand oob c sh k = []"
    "\<exists>k'. call_out (p_dev p) c k = Returns k' \<and> sound p B k' sh \<and> shows_desk k' sh (perform [a] d)"
proof -
  have "con_rep (k_fb k) (d_con d)" "uart_live (p_dev p)" using assms(1,3) by (simp_all add: machine_ok_def shows_desk_def)
  note P = call_performs [OF assms(4,5) this]
  show "shell_op c sh = sh" "expand oob c sh k = []" by (rule P)+
  obtain k' where k': "call_out (p_dev p) c k = Returns k'" "krep (p_dev p) k k' (fold act_step [a] (d_con d, []))" using P(3) by blast
  have "sh_line sh = d_line d" "shell_inv sh" using assms(2,3) by (simp_all add: shows_desk_def sound_def)
  then show "\<exists>k'. call_out (p_dev p) c k = Returns k' \<and> sound p B k' sh \<and> shows_desk k' sh (perform [a] d)"
    using k'(1) sound_output [OF k'(2) assms(2)] shows_output [OF k'(2) assms(3), of sh "d_line d"] by simp
qed

lemma enter_step:
  assumes "sound p B k sh" "shows_desk k sh d"
  shows "cstr (sh_buf (shell_op Execute sh)) = d_line d" "sound p B k (shell_op Execute sh)" "shows_desk k (shell_op Execute sh) d"
    "answers (expand oob Execute (shell_op Execute sh) k) (late_reply oob (d_line d) (d_facts d))"
proof -
  have inv: "shell_inv sh" "sh_line sh = d_line d" "vfs_inv (k_vfs k)" "plain_files (k_vfs k)" "kernel_facts k = d_facts d"
    using assms by (simp_all add: sound_def shows_desk_def)
  note T = terminated_line [OF inv(1), unfolded inv(2)]
  show "cstr (sh_buf (shell_op Execute sh)) = d_line d" by (rule T)
  show "sound p B k (shell_op Execute sh)" "shows_desk k (shell_op Execute sh) d" using assms T(2,3) by (simp_all add: sound_def shows_desk_def)
  show "answers (expand oob Execute (shell_op Execute sh) k) (late_reply oob (d_line d) (d_facts d))"
    using answers_calls [OF inv(3,4), of "sh_buf (shell_op Execute sh)" oob, unfolded T(1) inv(5)] line_plain [OF inv(1)] inv(2)
    by (simp del: shell_op.simps)
qed

lemma control_step:
  assumes "machine_ok p" "n_place n = d_place d" "sound p B k (n_shell n)" "shows_desk k (n_shell n) d" "answers xs (d_todo d)" "call_plain c"
    and "\<nexists>a. item_of c = Do a" "sh = shell_op c (n_shell n)"
  shows "nova_rel p B (n\<lparr>n_shell := sh, n_todo := expand (p_oob p) c sh k @ xs, n_out := call_out (p_dev p) c k\<rparr>)
    (desk_item (p_oob p) (item_of c) d)"
proof (cases c)
  case (Read l x)
  have "d_facts d = kernel_facts k" using assms(4) by (simp add: shows_desk_def)
  then have "answers (dec_calls l (stat_value x k) @ xs) (items [number_line (cstr l) (stat_fact x (d_facts d))] @ d_todo d)"
    using answers_append [OF answers_read assms(5)] assms(6) Read by simp
  then show ?thesis using assms(2-4) assms(1,8) Read by (simp add: nova_rel_def at_rel_def shows_frame del: items_simps)
next
  case Execute
  then show ?thesis
    using enter_step(2,3) [OF assms(3,4)] answers_append [OF enter_step(4) [OF assms(3,4)] assms(5)] assms(2) assms(1,8)
    by (simp add: nova_rel_def at_rel_def shows_frame del: shell_op.simps expand.simps)
next
  case Rewind
  have "shell_inv ((n_shell n)\<lparr>sh_idx := 0\<rparr>)" "sh_line ((n_shell n)\<lparr>sh_idx := 0\<rparr>) = []" using assms(3) by (simp_all add: sound_def inv_defs sh_line_def)
  then have "sound p B k ((n_shell n)\<lparr>sh_idx := 0\<rparr>)" "shows_desk k ((n_shell n)\<lparr>sh_idx := 0\<rparr>) (d\<lparr>d_line := []\<rparr>)"
    using assms(3,4) by (simp_all add: sound_def shows_desk_def)
  then show ?thesis using assms(2,5) assms(1,8) Rewind by (simp add: nova_rel_def at_rel_def)
next
  case Pulse
  then show ?thesis using assms(4) assms(1) by (simp add: nova_rel_def shows_desk_def serial_out_def outb_def)
next
  case (Panic_With m)
  obtain w c px where 2: "panics (p_dev p) m k = Panicked (k\<lparr>k_cpu := c, k_io := w, k_fb := px\<rparr>)" "sent (panic_report m) (k_io k) w"
    using meets_panics [of "p_dev p" k "d_con d" m] assms(1) by (auto simp: meets_def machine_ok_def)
  have "serial_out w (d_sent d @ panic_report m)" by (rule serial_out_sent [OF _ 2(2)]) (use assms(4) in \<open>simp add: shows_desk_def\<close>)
  then show ?thesis using assms(1) Panic_With by (simp add: nova_rel_def 2(1))
qed (use assms(7) in simp_all)

lemma call_step:
  assumes "machine_ok p" "at_rel p B n k d" "n_todo n = c # xs" "sh = shell_op c (n_shell n)"
  shows "\<exists>s. desk_step (p_oob p) (At d) (call_event c sh) s \<and>
    nova_rel p B (n\<lparr>n_shell := sh, n_todo := expand (p_oob p) c sh k @ xs, n_out := call_out (p_dev p) c k\<rparr>) s"
proof -
  define ys where "ys = map item_of xs"
  define d1 where "d1 = d\<lparr>d_todo := ys\<rparr>"
  let ?sh = "n_shell n"
  have A: "n_place n = d_place d1" "sound p B k ?sh" "shows_desk k ?sh d1" "answers xs (d_todo d1)" "call_plain c" "d_todo d = item_of c # ys"
    using assms(2,3) by (auto simp: at_rel_def answers_def d1_def ys_def shows_frame)
  have E: "cstr (sh_buf sh) = d_line d" if "c = Execute" using enter_step(1) [OF A(2,3)] assms(4) that by (simp add: d1_def)
  have "item_of c = Exec_Line \<longleftrightarrow> c = Execute" by (cases c) simp_all
  then have "item_event (item_of c) d = call_event c sh" using E by (simp add: item_event_def call_event_def)
  then have "desk_step (p_oob p) (At d) (call_event c sh) (desk_item (p_oob p) (item_of c) d1)"
    using desk_step.item [OF A(6), of "p_oob p"] by (simp add: d1_def)
  moreover have "nova_rel p B (n\<lparr>n_shell := sh, n_todo := expand (p_oob p) c sh k @ xs, n_out := call_out (p_dev p) c k\<rparr>)
      (desk_item (p_oob p) (item_of c) d1)"
  proof (cases "\<exists>a. item_of c = Do a")
    case True
    then obtain a where a: "item_of c = Do a" by blast
    show ?thesis using out_step [OF assms(1) A(2,3) a A(5)] A(1,4) a assms(1,4) by (auto simp: nova_rel_def at_rel_def)
  next
    case False
    then show ?thesis using control_step [OF assms(1) A(1-5)] assms(4) by blast
  qed
  ultimately show ?thesis by blast
qed

subsection \<open>The simulation\<close>

lemma exception_sent:
  assumes "machine_ok p" "exception (p_dev p) pn (p_junk p) a v err (ms, w, px) = Some (c, w', px')"
  shows "\<exists>f. fr_interrupt_number f = of_nat v \<and> sent (isr_report (p_junk p ! 16) (p_junk p ! 17) f) w w'"
proof -
  obtain c0 m0 where ms: "ms = (c0, m0)" by fastforce
  obtain fr c1 m1 where s: "isr_common_stub (isr_stub v (exception_entry v err a ms)) = (fr, c1, m1)" by (metis prod_cases3)
  have "exception (p_dev p) pn (p_junk p) a v err (ms, w, px) =
      isr_handler (p_dev p) pn (p_junk p) (interrupt_frame m1 fr) (c1, w, px)" by (simp add: exception_def s)
  then show ?thesis
    using isr_handler_spec [of "p_dev p" "p_junk p" pn "interrupt_frame m1 fr" c1 w px] exception_vector [OF s [unfolded ms]] assms
    by (intro exI [of _ "interrupt_frame m1 fr"]) (auto simp: machine_ok_def)
qed

text \<open>An exception is reported from any state in which code runs.\<close>

lemma fault_step:
  assumes "machine_ok p" "serial_out (k_io k) t"
    and "exception (p_dev p) pn (p_junk p) a v err (ms, k_io k, px) = Some (c, w, px')"
  shows "\<exists>j1 j2 f. fr_interrupt_number f = of_nat v \<and> serial_out w (t @ isr_report j1 j2 f)"
  using exception_sent [OF assms(1,3)] serial_out_sent [OF assms(2)] by blast

lemma sound_accepts:
  assumes "sound p B k sh" "accepts k i"
  shows "i \<in> {0, 1} \<and> gate_target k (irq_vector k i) = Some (stub_of p (32 + i))"
proof -
  have i: "irqs_programmed (k_io k)" "k_idt k = Some (idt_init (lk_idt (p_link p)))" using assms(1) by (simp_all add: sound_def)
  have "i \<in> {0, 1}" by (rule programmed_irqs(2) [OF i(1) assms(2)])
  then show ?thesis using gate_target_init [OF i(2), of "32 + i"] programmed_irqs(1) [OF i(1), of i] by auto
qed

lemma look_rel:
  assumes "machine_ok p" "at_rel p B n k d" "n_place n = Check" "n_todo n = []" "shell_look (n_shell n) k = (sh, xs, k')"
  shows "\<exists>s'. desk_step (p_oob p) (At d) Round s' \<and>
    nova_rel p B (n\<lparr>n_shell := sh, n_place := Before_Hlt, n_todo := xs, n_out := Returns k'\<rparr>) s'"
proof -
  have d: "d_todo d = []" "d_place d = Check" using assms(2-4) by (simp_all add: at_rel_def answers_def)
  have "d_place (desk_round d) = Before_Hlt" by (simp add: desk_round_def desk_char_def Let_def split: list.split)
  moreover note look_step [OF assms(1) at_relD [OF assms(2)] d(1) assms(5)]
  ultimately show ?thesis
    using desk_step.round [OF d(2,1), of "p_oob p"] assms(1) by (intro exI [of _ "At (desk_round d)"]) (simp add: nova_rel_def at_rel_def)
qed

lemma timer_rel:
  assumes "machine_ok p" "at_rel p B n k d"
  shows "\<exists>s'. desk_step (p_oob p) (At d) Tick s' \<and>
    nova_rel p B (n\<lparr>n_place := wake (n_place n), n_out := Returns (on_irqs (timer_irq a (p_ra p)) k)\<rparr>) s'"
proof (cases "slice_ends d")
  case True
  obtain d' where "desk_tick d = Frozen d'" "frozen_rel p (on_irqs (timer_irq a (p_ra p)) k) d'"
    using freeze_step [OF at_relD [OF assms(2)] True] by blast
  then show ?thesis
    using desk_step.tick [of "p_oob p" d] assms(1) by (intro exI [of _ "Frozen d'"]) (simp add: nova_rel_def)
next
  case False
  obtain d' where d': "desk_tick d = At d'" "d_place d' = wake (d_place d)" "shows_desk (on_irqs (timer_irq a (p_ra p)) k) (n_shell n) d'"
    using tick_step(2) [OF at_relD [OF assms(2)] False] by blast
  then have "d_todo d' = d_todo d" using False by (auto simp: desk_tick_def Let_def)
  then show ?thesis
    using tick_step(1) [OF at_relD [OF assms(2)] False, of a] d' desk_step.tick [of "p_oob p" d] assms
    by (intro exI [of _ "At d'"]) (simp add: nova_rel_def at_rel_def)
qed

lemma At_step:
  assumes "machine_ok p" "n_out n = Returns k" "at_rel p B n k d" "nova_step p n e n'"
  shows "\<exists>s'. desk_step (p_oob p) (At d) e s' \<and> nova_rel p B n' s'"
  using assms(4)
proof cases
  case (look k1 sh xs k')
  then show ?thesis using look_rel [OF assms(1,3)] assms(2) by simp
next
  case (call k1 c xs sh)
  then show ?thesis using call_step [OF assms(1,3)] assms(2) by simp
next
  case (hlt k1)
  have d: "d_todo d = []" "d_place d = Before_Hlt" using assms(3) hlt by (simp_all add: at_rel_def answers_def)
  then show ?thesis using hlt desk_step.halt [OF d(2,1), of "p_oob p"] assms by (auto simp: nova_rel_def at_rel_def shows_frame)
next
  case (keyboard k1)
  have "d_place (desk_press sc d) = wake (d_place d)" "d_todo (desk_press sc d) = d_todo d" for sc by (simp_all add: desk_press_def)
  with keyboard show ?thesis
    using press_step [OF at_relD [OF assms(3)], of "stub_of p 33"] desk_step.key [of "p_oob p" d] assms(1-3) by (force simp: nova_rel_def at_rel_def)
next
  case (timer k1)
  then show ?thesis using timer_rel [OF assms(1,3), of "stub_of p 32"] assms(2) by simp
next
  case (fault k1 v err c w px)
  have "serial_out (k_io k) (d_sent d)" using at_relD(2) [OF assms(3)] by (simp add: shows_desk_def)
  moreover have "k1 = k" using fault(3) assms(2) by simp
  ultimately obtain j1 j2 f where "fr_interrupt_number f = of_nat v" "serial_out w (d_sent d @ isr_report j1 j2 f)"
    using fault_step [OF assms(1)] fault(6) by blast
  then show ?thesis
    unfolding fault(1,2) using desk_step.fault [of f v "p_oob p" d j1 j2] assms(1)
    by (intro exI [of _ "Off (d_sent d @ isr_report j1 j2 f)"]) (simp add: nova_rel_def)
next
  case (stray k1 i)
  then show ?thesis using sound_accepts [OF at_relD(1) [OF assms(3)], of i] assms(2) by auto
next
  case (wild k1 v)
  then show ?thesis using gate_target_init [of k p v] assms(2) at_relD(1) [OF assms(3)] by (auto simp: sound_def)
qed (use assms(2) at_relD(1) [OF assms(3)] in \<open>auto simp: sound_def\<close>)

lemma Frozen_step:
  assumes "machine_ok p" "n_out n = Returns k" "frozen_rel p k d" "nova_step p n e n'"
  shows "\<exists>s'. desk_step (p_oob p) (Frozen d) e s' \<and> nova_rel p B n' s'"
  using assms(4)
proof cases
  case (spin k1)
  then show ?thesis using assms desk_step.spin [of "p_oob p" d] by (auto simp: nova_rel_def)
next
  case (fault k1 v err c w px)
  have "serial_out (k_io k) (d_sent d)" using assms(3) by (simp add: frozen_rel_def)
  moreover have "k1 = k" using fault(3) assms(2) by simp
  ultimately obtain j1 j2 f where "fr_interrupt_number f = of_nat v" "serial_out w (d_sent d @ isr_report j1 j2 f)"
    using fault_step [OF assms(1)] fault(6) by blast
  then show ?thesis
    unfolding fault(1,2) using desk_step.fault_frozen [of f v "p_oob p" d j1 j2] assms(1)
    by (intro exI [of _ "Off (d_sent d @ isr_report j1 j2 f)"]) (simp add: nova_rel_def)
next
  case (wild k1 v)
  then show ?thesis using gate_target_init [of k p v] assms(2,3) by (auto simp: frozen_rel_def)
qed (use assms(2,3) in \<open>auto simp: frozen_rel_def accepts_def\<close>)

interpretation nova: forward_simulation "nova_step p" "desk_step (p_oob p)" "nova_rel p B"
proof
  fix n s e n'
  assume R: "nova_rel p B n s" and step: "nova_step p n e n'"
  obtain k where k: "n_out n = Returns k" using step by cases auto
  show "\<exists>s'. desk_step (p_oob p) s e s' \<and> nova_rel p B n' s'"
  proof (cases s)
    case (At d)
    then have "machine_ok p" "at_rel p B n k d" using R k by (simp_all add: nova_rel_def)
    then show ?thesis unfolding At by (intro At_step [OF _ k _ step])
  next
    case (Frozen d)
    then have "machine_ok p" "frozen_rel p k d" using R k by (simp_all add: nova_rel_def)
    then show ?thesis unfolding Frozen by (intro Frozen_step [OF _ k _ step])
  qed (use R k in \<open>simp add: nova_rel_def\<close>)
qed

subsection \<open>From the boot\<close>

text \<open>
  The state after \<open>sti\<close>, with the last boot message and the prompt still to come, and the desk that it shows.  The boot
  stack \<open>B\<close> has room for an interrupt frame and a switch frame and does not meet the heap; the ticker does not start at the return
  address inside \<open>sched_tick\<close>.
\<close>

definition nova_boot :: "params \<Rightarrow> boot_info \<Rightarrow> memory \<Rightarrow> cpu \<Rightarrow> nova" where
  "nova_boot p bi mem c =
     \<lparr>n_shell = shell_boot, n_place = Check, n_todo = map Tx (cstr finish_message) @ prompt_calls, n_count = 0,
      n_out = start_to_sti (p_dev p) (p_link p) bi (kernel_boot mem c)\<rparr>"

definition boot_desk :: "boot_info \<Rightarrow> string \<Rightarrow> facts \<Rightarrow> desk" where
  "boot_desk bi mlog i =
     \<lparr>d_con = fst (fold act_step greeting (boot_console (boot_fb bi), [])), d_sent = banner_log @ early_log mlog,
      d_line = [], d_keys = [], d_shift = False, d_caps = False, d_place = Check, d_todo = items [Line finish_message] @ prompt,
      d_phase = 0, d_facts = i\<rparr>"

definition machine_boots :: "params \<Rightarrow> boot_info \<Rightarrow> bool" where
  "machine_boots p bi \<longleftrightarrow> uart_live (p_dev p) \<and> pic_readback (p_dev p) \<and> length (p_junk p) = 20 \<and> loader_ok bi"

definition boot_stack :: "params \<Rightarrow> boot_info \<Rightarrow> nat \<Rightarrow> cpu \<Rightarrow> u64 set \<Rightarrow> bool" where
  "boot_stack p bi P c B \<longleftrightarrow> memory_ok bi P \<and> B \<inter> span (boot_offset bi + of_nat P * 4096) 262144 = {} \<and>
     span (irq_frame_base c - 64) 224 \<subseteq> B \<and> lk_ticker (p_link p) \<noteq> ra_switch (p_ra p)"

lemma sched_create_task_ticks: "sched_create_task e nm (s, h) = Some (r, s', h') \<Longrightarrow> s_ticks s' = s_ticks s"
  by (auto simp: sched_create_task_def Let_def upd_task_def Option.bind_eq_Some_conv split: if_splits)

lemma sti_simps: "interrupts_enabled (sti c)" "irq_frame_base (sti c) = irq_frame_base c"
  by (simp_all add: sti_def interrupts_enabled_def irq_frame_base_def bit_simps)

lemma boot_related:
  assumes boots: "machine_boots p bi" and mem: "memory_phase (p_dev p) bi mem pm h mlog"
    and task: "sched_create_task (lk_ticker (p_link p)) ''ticker'' (sched_init sched_boot, h) = Some (r, s, h')" "s_current s = 0"
    and two: "1 < s_count s \<Longrightarrow> s_count s = 2 \<and> sys_ok B (s, h', sti c) \<and> span (irq_frame_base c - 64) 224 \<subseteq> B \<and>
      ctx_rip (frame_ctx (hmem h') (t_rsp (task s 1))) \<noteq> ra_switch (p_ra p)"
    and inv: "pmm_inv pm" "sched_inv s"
  shows "nova_rel p B (nova_boot p bi mem c) (At (boot_desk bi mlog \<lparr>f_files = init_files, f_free = s_free_pages pm,
    f_total = s_total_pages pm, f_ticks = 0, f_count = s_count s, f_current = 0\<rparr>))"
proof -
  let ?i = "\<lparr>f_files = init_files, f_free = s_free_pages pm, f_total = s_total_pages pm, f_ticks = 0, f_count = s_count s, f_current = 0\<rparr>"
  have M: "machine_ok p" and dev: "uart_live (p_dev p)" "pic_readback (p_dev p)" "loader_ok bi"
    using boots by (simp_all add: machine_boots_def machine_ok_def)
  obtain k where k: "start_to_sti (p_dev p) (p_link p) bi (kernel_boot mem c) = Returns k" "k_pmm k = pm" "k_heap k = h'" "k_sched k = s"
    "k_cpu k = sti c" "k_kbd k = kbd_boot" "k_vfs k = vfs_init vfs_boot" "k_pit k = \<lparr>pit_s_ticks = 0\<rparr>"
    "k_idt k = Some (idt_init (lk_idt (p_link p)))"
    "con_rep (k_fb k) (fst (fold act_step greeting (boot_console (boot_fb bi), [])))" "irqs_programmed (k_io k)"
    "outs 0x3F8 (k_io k) = 0x03 # map of_char (crlf (banner_log @ early_log mlog))"
    by (rule start_to_sti_ok [OF dev mem task(1), of c]) blast
  have "s_ticks s = 0" using sched_create_task_ticks [OF task(1)] by (simp add: sched_init_def upd_task_def sched_boot_def)
  then have shows_k: "shows_desk k shell_boot (boot_desk bi mlog ?i)"
    using k kbd_inv_boot(2) shell_boot_ok(2) plain_init(2) task(2)
    by (simp add: shows_desk_def boot_desk_def serial_out_def kernel_facts_def kbd_boot_def pit_ticks_def)
  have sound_k: "sound p B k shell_boot"
    using k kbd_inv_boot(1) shell_boot_ok(1) plain_init(1,3) task(2) two inv sti_simps
    by (simp add: sound_def second_task_def irq_room_def irqs_of_def stack_area_def)
  have "cstr finish_message = finish_message" "NUL \<notin> set finish_message" by (simp_all add: finish_message_def)
  then have "answers (map Tx (cstr finish_message) @ prompt_calls) (items [Line finish_message] @ prompt)"
    by (intro answers_append answers_prompt) (auto simp: answers_def list_all_iff)
  then show ?thesis using M k(1) shows_k sound_k by (simp add: nova_rel_def nova_boot_def at_rel_def) (simp add: boot_desk_def)
qed

lemma booted:
  assumes "machine_boots p bi" "boot_stack p bi P c B"
  obtains i where "f_files i = init_files" "f_free i = of_nat (card ({q. usable_page (boot_map bi) q} - {P..<P + 64}))" "f_ticks i = 0"
    "f_count i = 2" "f_current i = 0" "nova_rel p B (nova_boot p bi mem c) (At (boot_desk bi memory_log i))"
proof -
  have dev: "uart_live (p_dev p)" using assms(1) by (simp add: machine_boots_def)
  have st: "memory_ok bi P" "B \<inter> span (boot_offset bi + of_nat P * 4096) 262144 = {}" "span (irq_frame_base c - 64) 224 \<subseteq> B"
    "lk_ticker (p_link p) \<noteq> ra_switch (p_ra p)" using assms(2) by (simp_all add: boot_stack_def)
  obtain pm h where m: "memory_phase (p_dev p) bi mem pm h memory_log" "pmm_inv pm"
    "free_set pm = {q. usable_page (boot_map bi) q} - {P..<P + 64}" "heap_rep h fresh_pool"
    "unat (s_head h) = unat (boot_offset bi) + P * 4096" by (rule start_memory_ok [OF dev st(1)])
  have "of_nat (unat (s_head h)) = boot_offset bi + of_nat P * 4096" unfolding m(5) by simp
  then have "B \<inter> pool_span h = {}" using st(2) by (simp add: pool_span_def)
  then obtain s h' where t: "sched_create_task (lk_ticker (p_link p)) ''ticker'' (sched_init sched_boot, h) = Some (1, s, h')"
    "sys_ok B (s, h', sti c)" "s_count s = 2" "s_current s = 0"
    "task_ctx (s, h', sti c) 1 = \<lparr>ctx_regs = replicate 6 0, ctx_rip = lk_ticker (p_link p), ctx_rsp = t_stack_base (task s 1) + 16384\<rparr>"
    by (rule start_task [OF m(4)])
  have "ctx_rip (frame_ctx (hmem h') (t_rsp (task s 1))) \<noteq> ra_switch (p_ra p)" using t(4,5) st(4) by (simp add: task_ctx_def)
  then have "nova_rel p B (nova_boot p bi mem c) (At (boot_desk bi memory_log \<lparr>f_files = init_files, f_free = s_free_pages pm,
      f_total = s_total_pages pm, f_ticks = 0, f_count = s_count s, f_current = 0\<rparr>))"
    using t(2,3) st(3) m(2) by (intro boot_related [OF assms(1) m(1) t(1,4)]) (auto simp: sys_ok_def)
  then show ?thesis by (rule that [rotated -1]) (use m(2,3) t(3) in \<open>simp_all add: pmm_inv_def\<close>)
qed

lemma pmm_inv_boot: "pmm_inv pmm_boot"
  by (simp add: pmm_inv_def free_set_def page_free_def pmm_boot_def)

lemma booted_alone:
  assumes "machine_boots p bi" "memmap_response bi = None \<or> hhdm_response bi = None"
  obtains i where "f_count i = 1" "nova_rel p B (nova_boot p bi mem c) (At (boot_desk bi warning_log i))"
proof -
  let ?h = "\<lparr>hmem = mem, s_head = 0\<rparr> :: heap"
  have dev: "uart_live (p_dev p)" using assms(1) by (simp add: machine_boots_def)
  obtain s where s: "sched_create_task (lk_ticker (p_link p)) ''ticker'' (sched_init sched_boot, ?h) = Some (0xFFFFFFFF, s, ?h)"
    "s_count s = 1" "s_current s = 0" "sched_inv s" using start_task_null [of "lk_ticker (p_link p)" mem] by blast
  show ?thesis
    by (rule that [OF _ boot_related [OF assms(1) start_memory_missing [OF dev assms(2)] s(1,3)]]) (simp_all add: s(2,4) pmm_inv_boot)
qed

lemma booted_any:
  assumes "machine_boots p bi" "boot_stack p bi P c B \<or> memmap_response bi = None \<or> hhdm_response bi = None"
  obtains mlog i where "nova_rel p B (nova_boot p bi mem c) (At (boot_desk bi mlog i))"
  using booted [OF assms(1), of P c B mem] booted_alone [OF assms(1), of B mem c] assms(2) by metis

text \<open>What a related state is good for.\<close>

lemma rel_sound:
  assumes "nova_rel p B n s" "n_out n = Returns k" "s_current (k_sched k) = 0"
  obtains d where "s = At d" "sound p B k (n_shell n)" "shows_desk k (n_shell n) d"
  using assms by (cases s) (auto simp: nova_rel_def at_rel_def frozen_rel_def)

lemma rel_current:
  assumes "nova_rel p B n (At d)"
  obtains k where "n_out n = Returns k" "s_current (k_sched k) = 0"
  using assms by (cases "n_out n") (auto simp: nova_rel_def at_rel_def sound_def)

text \<open>Both interrupts can be taken, and the shell goes on from where it is.\<close>

definition awaited :: "params \<Rightarrow> nova \<Rightarrow> kernel \<Rightarrow> event set" where
  "awaited p n k = {Key (p_dev p (k_io k) PS2_DATA), Tick} \<union>
     (case n_todo n of
        c # xs \<Rightarrow> {call_event c (shell_op c (n_shell n))}
      | [] \<Rightarrow> (case n_place n of Check \<Rightarrow> {Round} | Before_Hlt \<Rightarrow> {Halt} | Halted \<Rightarrow> {}))"

lemma sound_enabled:
  assumes "n_out n = Returns k" "sound p B k (n_shell n)" "e \<in> awaited p n k"
  shows "\<exists>n'. nova_step p n e n'"
proof -
  have i: "irqs_programmed (k_io k)" "k_idt k = Some (idt_init (lk_idt (p_link p)))" "interrupts_enabled (k_cpu k)" "s_current (k_sched k) = 0"
    using assms(2) by (simp_all add: sound_def)
  have "\<not> bit (0xFC :: u8) 0" "\<not> bit (0xFC :: u8) 1" by code_simp+
  then have "accepts k 0" "accepts k 1" using i(1,3) by (simp_all add: accepts_def irqs_programmed_def)
  moreover have "gate_target k (irq_vector k 0) = Some (stub_of p 32)" "gate_target k (irq_vector k 1) = Some (stub_of p 33)"
    using gate_target_init [OF i(2)] programmed_irqs(1) [OF i(1)] by simp_all
  ultimately have irq: "\<exists>n'. nova_step p n (Key (p_dev p (k_io k) PS2_DATA)) n'" "\<exists>n'. nova_step p n Tick n'"
    using keyboard [OF assms(1)] timer [OF assms(1)] by blast+
  have "\<exists>n'. nova_step p n Round n'" if "n_place n = Check" "n_todo n = []"
    using look [OF assms(1) i(4) that] by (metis prod_cases3)
  moreover have "\<exists>n'. nova_step p n Halt n'" if "n_place n = Before_Hlt" "n_todo n = []" using hlt [OF assms(1) i(4) that] by blast
  moreover have "\<exists>n'. nova_step p n (call_event c (shell_op c (n_shell n))) n'" if "n_todo n = c # xs" for c xs
    using call [OF assms(1) i(4) that refl] by blast
  ultimately show ?thesis using assms(3) irq by (cases "n_todo n"; cases "n_place n") (auto simp: awaited_def)
qed

lemma At_can:
  assumes "nova_rel p B n (At d)" "e \<in> {Key (p_dev p w PS2_DATA), Tick}" "\<And>v. p_dev p v PS2_DATA = p_dev p w PS2_DATA"
  obtains n' s where "nova_step p n e n'" "desk_step (p_oob p) (At d) e s" "nova_rel p B n' s"
proof -
  obtain k where k: "n_out n = Returns k" using assms(1) by (cases "n_out n") (auto simp: nova_rel_def)
  then have "sound p B k (n_shell n)" using assms(1) by (simp add: nova_rel_def at_rel_def)
  moreover have "e \<in> awaited p n k" using assms(2) assms(3) [of "k_io k"] by (auto simp: awaited_def)
  ultimately obtain n' where "nova_step p n e n'" using sound_enabled [OF k] by blast
  then show ?thesis using nova.sim [OF assms(1)] that by blast
qed

text \<open>Without interrupts the operations run to their end.\<close>

definition shell_event :: "event \<Rightarrow> bool" where
  "shell_event e \<longleftrightarrow> (case e of Call \<Rightarrow> True | Exec _ \<Rightarrow> True | _ \<Rightarrow> False)"

lemma call_event_simps: "shell_event (call_event c sh)" "call_event c sh \<noteq> Tick"
  by (simp_all add: call_event_def shell_event_def)

lemma finish_run:
  "n_todo n = xs \<Longrightarrow> n_shell n = sh \<Longrightarrow> n_out n = Returns k \<Longrightarrow> nova_rel p B n (At d) \<Longrightarrow>
   \<exists>ms n' s. run (nova_step p) n ms n' \<and> nova_rel p B n' s \<and> list_all shell_event ms \<and>
     (n_shell n', n_out n') = run_calls (p_dev p) (p_oob p) xs sh k \<and> (\<forall>k'. n_out n' = Returns k' \<longrightarrow> n_todo n' = [])"
proof (induction "p_dev p" "p_oob p" xs sh k arbitrary: n d rule: run_calls.induct)
  case (1 sh k)
  then show ?case by (intro exI [of _ "[]"] exI [of _ n] exI [of _ "At d"]) simp
next
  case (2 c xs sh k)
  let ?sh = "shell_op c sh" and ?out = "call_out (p_dev p) c k"
  let ?n = "n\<lparr>n_shell := ?sh, n_todo := expand (p_oob p) c ?sh k @ xs, n_out := ?out\<rparr>"
  have at: "machine_ok p" "at_rel p B n k d" using "2.prems" by (simp_all add: nova_rel_def)
  then have "s_current (k_sched k) = 0" by (simp add: at_rel_def sound_def)
  then have step: "nova_step p n (call_event c ?sh) ?n" using call [of n k c xs ?sh p] "2.prems" by simp
  obtain s where s: "desk_step (p_oob p) (At d) (call_event c ?sh) s" "nova_rel p B ?n s" using call_step [OF at "2.prems"(1)] "2.prems"(2) by blast
  show ?case
  proof (cases "\<exists>k1. ?out = Returns k1")
    case True
    then obtain k1 where k1: "?out = Returns k1" by blast
    have "s \<noteq> Frozen d'" for d' using s(1) frozen_by_tick call_event_simps(2) by blast
    then obtain d1 where d1: "s = At d1" using s(2) k1 by (cases s) (auto simp: nova_rel_def)
    obtain ms n' s' where "run (nova_step p) ?n ms n'" "nova_rel p B n' s'" "list_all shell_event ms"
      "(n_shell n', n_out n') = run_calls (p_dev p) (p_oob p) (expand (p_oob p) c ?sh k @ xs) ?sh k1" "\<forall>k'. n_out n' = Returns k' \<longrightarrow> n_todo n' = []"
      using "2.hyps" [OF refl k1, of ?n d1] s(2) d1 k1 by auto
    then show ?thesis
      using step k1 call_event_simps(1) [of c ?sh] by (intro exI [of _ "call_event c ?sh # ms"] exI [of _ n'] exI [of _ s']) (auto simp: Let_def intro: run_Cons)
  next
    case False
    then have "run_calls (p_dev p) (p_oob p) (c # xs) sh k = (?sh, ?out)" by (simp add: Let_def split: outcome.splits)
    then show ?thesis
      using step s(2) False call_event_simps(1) [of c ?sh]
      by (intro exI [of _ "[call_event c ?sh]"] exI [of _ ?n] exI [of _ s]) (simp add: run_Cons_iff)
  qed
qed

subsection \<open>A machine that runs\<close>

text \<open>A key \<open>a\<close> is always ready at the keyboard's data port.\<close>

definition key_dev :: device where
  "key_dev w q = (if q = PS2_DATA then 0x1E else pic_dev w q)"

lemma key_dev_ok: "pic_readback key_dev" "uart_live key_dev"
  unfolding pic_readback_def uart_live_def
  by (simp add: key_dev_def pic_dev_def const_defs, intro allI exI [of _ 0]) (simp add: key_dev_def pic_dev_def const_defs)

definition demo_params :: params where
  "demo_params = \<lparr>p_dev = key_dev, p_oob = NUL, p_link = demo_link, p_ra = demo_ra\<lparr>ra_switch := 0xFFFFFFFF80003000\<rparr>, p_junk = replicate 20 NUL\<rparr>"

definition demo_stack_cpu :: cpu where
  "demo_stack_cpu = cpu_zero\<lparr>rsp := 0xFFFF800000208000\<rparr>"

lemma demo_boots: "machine_boots demo_params demo_boot" "machine_boots demo_params demo_blind"
  "boot_stack demo_params demo_boot 256 demo_stack_cpu (span 0xFFFF800000200000 65536)"
proof -
  show "machine_boots demo_params demo_boot" "machine_boots demo_params demo_blind"
    using demo_boot_ok(1,4) key_dev_ok by (simp_all add: machine_boots_def demo_params_def)
  have "span 0xFFFF800000200000 65536 \<inter> span (boot_offset demo_boot + of_nat 256 * 4096) 262144 = {}"
    unfolding demo_boot_ok(3) by (subst Int_commute, rule span_disjoint_le) simp_all
  moreover have "irq_frame_base demo_stack_cpu - 64 = 0xFFFF800000200000 + of_nat 32544"
    by (simp add: irq_frame_base_def demo_stack_cpu_def)
  then have "span (irq_frame_base demo_stack_cpu - 64) 224 \<subseteq> span 0xFFFF800000200000 65536"
    using span_offset [of 32544 224 65536 "0xFFFF800000200000"] by simp
  ultimately show "boot_stack demo_params demo_boot 256 demo_stack_cpu (span 0xFFFF800000200000 65536)"
    using demo_boot_ok(2) by (simp add: boot_stack_def demo_params_def demo_link_def)
qed

lemma demo_ticks:
  obtains n where "run (nova_step demo_params) (nova_boot demo_params demo_boot (\<lambda>_. 0) demo_stack_cpu) [Tick, Tick] n"
proof -
  let ?n = "nova_boot demo_params demo_boot (\<lambda>_. 0) demo_stack_cpu" and ?B = "span 0xFFFF800000200000 65536"
  obtain i where R: "nova_rel demo_params ?B ?n (At (boot_desk demo_boot memory_log i))" by (rule booted [OF demo_boots(1,3)])
  have v: "p_dev demo_params w PS2_DATA = 0x1E" for w by (simp add: demo_params_def key_dev_def)
  obtain n1 s1 where 1: "nova_step demo_params ?n Tick n1" "desk_step (p_oob demo_params) (At (boot_desk demo_boot memory_log i)) Tick s1"
    "nova_rel demo_params ?B n1 s1" by (rule At_can [OF R, of Tick "[]"]) (simp_all add: v)
  have "d_phase (boot_desk demo_boot memory_log i) = 0" by (simp add: boot_desk_def)
  then have "\<not> slice_ends (boot_desk demo_boot memory_log i)" by (simp add: slice_ends_def const_defs)
  with 1(2) obtain d1 where d1: "s1 = At d1" by cases (auto simp: desk_tick_def item_event_def Let_def split: if_splits)
  obtain n2 where "nova_step demo_params n1 Tick n2" by (rule At_can [OF 1(3) [unfolded d1], of Tick "[]"]) (simp_all add: v)
  with 1(1) show ?thesis using that by (simp add: run_Cons_iff) blast
qed

text \<open>The prompt comes, and then a key.\<close>

lemma demo_idle:
  obtains ls n d where "run (nova_step demo_params) (nova_boot demo_params demo_boot (\<lambda>_. 0) demo_stack_cpu) ls n" "list_all shell_event ls"
    "nova_rel demo_params (span 0xFFFF800000200000 65536) n (At d)" "n_todo n = []"
proof -
  let ?n = "nova_boot demo_params demo_boot (\<lambda>_. 0) demo_stack_cpu" and ?B = "span 0xFFFF800000200000 65536" and ?dev = "p_dev demo_params"
  obtain i where R: "nova_rel demo_params ?B ?n (At (boot_desk demo_boot memory_log i))" by (rule booted [OF demo_boots(1,3)])
  obtain k where k: "n_out ?n = Returns k" "s_current (k_sched k) = 0" by (rule rel_current [OF R])
  obtain ls n s where F: "run (nova_step demo_params) ?n ls n" "nova_rel demo_params ?B n s" "list_all shell_event ls"
    "(n_shell n, n_out n) = run_calls ?dev (p_oob demo_params) (n_todo ?n) (n_shell ?n) k" "\<forall>k'. n_out n = Returns k' \<longrightarrow> n_todo n = []"
    using finish_run [OF refl refl k(1) R] by blast
  have con: "con_rep (k_fb k) (d_con (boot_desk demo_boot memory_log i))" and dev: "uart_live ?dev"
    using R k(1) by (simp_all add: nova_rel_def at_rel_def shows_desk_def machine_ok_def)
  obtain w where w: "serial ?dev finish_message k = Some (k\<lparr>k_io := w\<rparr>)" by (rule serial_ok [OF dev])
  have "con_rep (k_fb (k\<lparr>k_io := w\<rparr>)) (d_con (boot_desk demo_boot memory_log i))" using con by simp
  then obtain k2 ct where k2: "shell_prompt ?dev (k\<lparr>k_io := w\<rparr>) = Some k2" "krep ?dev (k\<lparr>k_io := w\<rparr>) k2 ct"
    using performs_start [OF performs_prompt _ dev] by blast
  have "k_sched k2 = k_sched k" using krep_fields(6) [OF k2(2)] by simp
  have "run_calls ?dev (p_oob demo_params) (n_todo ?n) (n_shell ?n) k = (n_shell ?n, Returns k2)"
    using plays_serial [of ?dev "p_oob demo_params" k finish_message] w k2(1) run_calls_prompt
    by (simp add: plays_def nova_boot_def returns_def)
  then have out: "n_out n = Returns k2" using F(4) by simp
  then obtain d where "s = At d" using rel_sound [OF F(2) out] \<open>k_sched k2 = k_sched k\<close> k(2) by metis
  then show ?thesis using F out by (intro that [of ls n d]) auto
qed

lemma keys_of_append: "keys_of (ls @ ms) = keys_of ls @ keys_of ms"
  by (induction ls) (auto split: event.splits)

lemma demo_typed:
  obtains ls n d where "run (nova_step demo_params) (nova_boot demo_params demo_boot (\<lambda>_. 0) demo_stack_cpu) ls n" "keys_of ls = [0x1E]"
    "nova_rel demo_params (span 0xFFFF800000200000 65536) n (At d)" "n_todo n = []"
proof -
  let ?n = "nova_boot demo_params demo_boot (\<lambda>_. 0) demo_stack_cpu" and ?B = "span 0xFFFF800000200000 65536"
  obtain ls n1 d1 where 1: "run (nova_step demo_params) ?n ls n1" "list_all shell_event ls" "nova_rel demo_params ?B n1 (At d1)" "n_todo n1 = []"
    by (rule demo_idle)
  have v: "p_dev demo_params w PS2_DATA = 0x1E" for w by (simp add: demo_params_def key_dev_def)
  obtain n s where n: "nova_step demo_params n1 (Key 0x1E) n" "desk_step (p_oob demo_params) (At d1) (Key 0x1E) s" "nova_rel demo_params ?B n s"
    by (rule At_can [OF 1(3), of "Key 0x1E" "[]"]) (simp_all add: v)
  obtain k1 where "n_out n1 = Returns k1" by (rule rel_current [OF 1(3)])
  then have t1: "d_todo d1 = []" using 1(3,4) by (simp add: nova_rel_def at_rel_def answers_def)
  obtain d where d: "s = At d" "d_todo d = []" using n(2) t1 by cases (auto simp: item_event_def desk_press_def split: if_splits)
  obtain k where "n_out n = Returns k" using rel_current n(3) d(1) by metis
  then have "n_todo n = []" using n(3) d by (simp add: nova_rel_def at_rel_def answers_def)
  moreover have "run (nova_step demo_params) ?n (ls @ [Key 0x1E]) n" using 1(1) n(1) by (auto simp: run_append run_Cons_iff)
  moreover have "keys_of ls = []" using 1(2) by (induction ls) (auto simp: shell_event_def split: event.splits)
  then have "keys_of (ls @ [Key 0x1E]) = [0x1E]" by (simp add: keys_of_append)
  ultimately show ?thesis using that n(3) d(1) by blast
qed

subsection \<open>Properties\<close>

text \<open>
  Claim C1. The running kernel refines its desk.  After a boot with memory
  (a serial line that accepts characters, interrupt controllers that read
  back their masks, a loader with Limine's guarantees that finds 64 usable pages in a row for the heap, and a boot stack apart from
  them: \<open>machine_boots\<close>, \<open>boot_stack\<close>),
  whatever interrupts, shell operations, background
  steps and exceptions happen and in whatever order, in the middle of a command, of a line of output or of the boot message
  included, the abstract machine can make the same events, and at each point it shows
  what the kernel has: the characters on the screen, the text sent on the serial line, the edited line, the waiting keys,
  the numbers the commands report, what the shell has still to do, and whether the kernel runs, is frozen in the background task, or is off.
\<close>

theorem nova_refines_desk:
  assumes "machine_boots p bi" "boot_stack p bi P c B"
  shows "\<exists>i. f_files i = init_files \<and> f_free i = of_nat (card ({q. usable_page (boot_map bi) q} - {P..<P + 64})) \<and>
    f_ticks i = 0 \<and> f_count i = 2 \<and> f_current i = 0 \<and>
    (\<forall>ls n. run (nova_step p) (nova_boot p bi mem c) ls n \<longrightarrow>
       (\<exists>s. run (desk_step (p_oob p)) (At (boot_desk bi memory_log i)) ls s \<and> nova_rel p B n s))"
  by (rule booted [OF assms, of mem]) (blast dest: nova.runs)

lemma nova_refines_desk_witness:
  "\<exists>i. f_count i = 2 \<and> (\<forall>ls n. run (nova_step demo_params) (nova_boot demo_params demo_boot (\<lambda>_. 0) demo_stack_cpu) ls n \<longrightarrow>
     (\<exists>s. run (desk_step (p_oob demo_params)) (At (boot_desk demo_boot memory_log i)) ls s \<and>
        nova_rel demo_params (span 0xFFFF800000200000 65536) n s))"
  using nova_refines_desk [OF demo_boots(1,3), of "\<lambda>_. 0"] by blast

text \<open>
  Claim C2. Every state the kernel can get into after the boot, with or without memory, is well formed.  No operation hangs and no interrupt
  or exception goes astray.  While the boot context runs, the invariants of the line buffer, the keyboard ring, the file table, the
  page allocator, the task table and, where there is a second task, of heap and stacks hold, the screen shows some
  console, the interrupt table and the controllers are as programmed, a key press and a timer tick can be taken, and
  the shell can go on; in the background task interrupts are off.
\<close>

theorem nova_stays_sound:
  assumes "machine_boots p bi" "boot_stack p bi P c B \<or> memmap_response bi = None \<or> hhdm_response bi = None"
    and "run (nova_step p) (nova_boot p bi mem c) ls n"
  shows "case n_out n of
      Hangs \<Rightarrow> False
    | Returns k \<Rightarrow> if s_current (k_sched k) = 0
        then sound p B k (n_shell n) \<and> (\<exists>d. con_rep (k_fb k) d) \<and> (\<forall>e \<in> awaited p n k. \<exists>n'. nova_step p n e n')
        else \<not> interrupts_enabled (k_cpu k)
    | _ \<Rightarrow> True"
proof -
  obtain mlog i where "nova_rel p B (nova_boot p bi mem c) (At (boot_desk bi mlog i))" by (rule booted_any [OF assms(1,2)])
  then obtain s where R: "nova_rel p B n s" using nova.runs [OF assms(3)] by blast
  show ?thesis
  proof (cases "n_out n")
    case (Returns k)
    show ?thesis
    proof (cases "s_current (k_sched k) = 0")
      case True
      then obtain d where "sound p B k (n_shell n)" "shows_desk k (n_shell n) d" by (rule rel_sound [OF R Returns])
      then show ?thesis using Returns True sound_enabled [OF Returns] by (auto simp: shows_desk_def)
    next
      case False
      then show ?thesis using R Returns by (cases s) (auto simp: nova_rel_def at_rel_def frozen_rel_def sound_def)
    qed
  qed (use R in \<open>cases s; simp add: nova_rel_def\<close>)+
qed

lemma nova_stays_sound_witness:
  "\<exists>k. n_out (nova_boot demo_params demo_boot (\<lambda>_. 0) demo_stack_cpu) = Returns k \<and>
     sound demo_params (span 0xFFFF800000200000 65536) k shell_boot"
proof -
  let ?n = "nova_boot demo_params demo_boot (\<lambda>_. 0) demo_stack_cpu"
  obtain i where R: "nova_rel demo_params (span 0xFFFF800000200000 65536) ?n (At (boot_desk demo_boot memory_log i))"
    by (rule booted [OF demo_boots(1,3)])
  then obtain k where k: "n_out ?n = Returns k" by (cases "n_out ?n") (auto simp: nova_rel_def)
  moreover have "s_current (k_sched k) = 0" using R k by (simp add: nova_rel_def at_rel_def sound_def)
  moreover have "n_shell ?n = shell_boot" by (simp add: nova_boot_def)
  ultimately show ?thesis
    using nova_stays_sound [OF demo_boots(1) disjI1 [OF demo_boots(3)], of "\<lambda>_. 0" "[]" ?n] by simp
qed

text \<open>
  Claim C3. What is executed does not depend on the schedule.  Take any run of the kernel after the boot, with shell operations, halts,
  timer ticks and key presses interleaved in any way, during which at most 255 characters are typed.  The command lines that the shell has
  started are, in this order, the first of those that the translated scan codes spell, line by line, with every key edited in.  When the shell
  has nothing under way, the lines still to come are exactly those that the waiting keys and the edited line spell, and so is the line that will
  be left: no key is lost, doubled or reordered, even those pressed while a command runs.
\<close>

theorem commands_any_schedule:
  assumes "machine_boots p bi" "boot_stack p bi P c B \<or> memmap_response bi = None \<or> hhdm_response bi = None"
    and "run (nova_step p) (nova_boot p bi mem c) ls n" "length (typed False False (keys_of ls)) \<le> 255"
  shows "prefix (exec_lines ls) (fst (script (typed False False (keys_of ls)) [])) \<and>
    (\<forall>k. n_out n = Returns k \<longrightarrow> s_current (k_sched k) = 0 \<longrightarrow> n_todo n = [] \<longrightarrow>
      (let rest = script (kb_items (k_kbd k)) (sh_line (n_shell n)) in
       script (typed False False (keys_of ls)) [] = (exec_lines ls @ fst rest, snd rest)))"
proof -
  obtain mlog i where "nova_rel p B (nova_boot p bi mem c) (At (boot_desk bi mlog i))" by (rule booted_any [OF assms(1,2)])
  then obtain s where R: "run (desk_step (p_oob p)) (At (boot_desk bi mlog i)) ls s" "nova_rel p B n s" using nova.runs [OF assms(3)] by blast
  let ?d = "boot_desk bi mlog i"
  have b: "coming ?d ls = typed False False (keys_of ls)" "under_way ?d" "\<And>xs. outlook ?d xs = script xs []"
    by (simp_all add: boot_desk_def coming_def under_way_def outlook_def del: items_simps)
  note len = assms(4) [folded b(1)]
  show ?thesis
  proof (intro conjI allI impI)
    show "prefix (exec_lines ls) (fst (script (typed False False (keys_of ls)) []))"
      using commands_prefix [OF R(1) b(2) len] unfolding b .
    fix k assume k: "n_out n = Returns k" "s_current (k_sched k) = 0" and idle: "n_todo n = []"
    obtain d where d: "s = At d" "shows_desk k (n_shell n) d" by (rule rel_sound [OF R(2) k])
    then have t: "d_todo d = []" using R(2) k(1) idle by (simp add: nova_rel_def at_rel_def answers_def)
    have "outlook d xs = script xs (d_line d)" for xs by (simp add: outlook_def t)
    then show "let rest = script (kb_items (k_kbd k)) (sh_line (n_shell n)) in
       script (typed False False (keys_of ls)) [] = (exec_lines ls @ fst rest, snd rest)"
      using commands_run [OF R(1) [unfolded d(1)] b(2) len] d(2) unfolding b by (simp add: shows_desk_def)
  qed
qed

lemma commands_any_schedule_witness:
  "\<exists>ls n k. run (nova_step demo_params) (nova_boot demo_params demo_boot (\<lambda>_. 0) demo_stack_cpu) ls n \<and> keys_of ls = [0x1E] \<and>
     n_out n = Returns k \<and> exec_lines ls = [] \<and> script (kb_items (k_kbd k)) (sh_line (n_shell n)) = ([], ''a'')"
proof -
  obtain ls n d where n: "run (nova_step demo_params) (nova_boot demo_params demo_boot (\<lambda>_. 0) demo_stack_cpu) ls n" "keys_of ls = [0x1E]"
    "nova_rel demo_params (span 0xFFFF800000200000 65536) n (At d)" "n_todo n = []" by (rule demo_typed)
  obtain k where k: "n_out n = Returns k" "s_current (k_sched k) = 0" by (rule rel_current [OF n(3)])
  have t: "typed False False [0x1E] = ''a''" "length ''a'' \<le> 255" "script ''a'' [] = ([], ''a'')" by code_simp+
  have "([], ''a'') = (exec_lines ls @ fst (script (kb_items (k_kbd k)) (sh_line (n_shell n))), snd (script (kb_items (k_kbd k)) (sh_line (n_shell n))))"
    using commands_any_schedule [OF demo_boots(1) disjI1 [OF demo_boots(3)] n(1), unfolded n(2) t(1,3), OF t(2)] k n(4) by (simp only: Let_def simp_thms)
  then show ?thesis using n(1,2) k(1) by (intro exI [of _ ls] exI [of _ n] exI [of _ k]) (simp add: prod_eq_iff)
qed

text \<open>
  Claim C11. Whatever the shell is in the middle of comes to its end.  From every state reached after the boot in which the
  boot context is current there is a run of operations of the shell alone after which nothing is left to do, or the machine
  has panicked or been reset as the command asked.  It never hangs, and it ends with the buffer, the index and the kernel that the uninterrupted run of
  the remaining operations gives.
\<close>

theorem commands_finish:
  assumes "machine_boots p bi" "boot_stack p bi P c B \<or> memmap_response bi = None \<or> hhdm_response bi = None"
    and "run (nova_step p) (nova_boot p bi mem c) ls n" "n_out n = Returns k" "s_current (k_sched k) = 0"
  shows "\<exists>ms n'. run (nova_step p) n ms n' \<and> list_all shell_event ms \<and> n_out n' \<noteq> Hangs \<and>
    (n_shell n', n_out n') = run_calls (p_dev p) (p_oob p) (n_todo n) (n_shell n) k \<and> (\<forall>k'. n_out n' = Returns k' \<longrightarrow> n_todo n' = [])"
proof -
  obtain mlog i where "nova_rel p B (nova_boot p bi mem c) (At (boot_desk bi mlog i))" by (rule booted_any [OF assms(1,2)])
  then obtain s where R: "nova_rel p B n s" using nova.runs [OF assms(3)] by blast
  then obtain d where "s = At d" by (rule rel_sound [OF _ assms(4,5)])
  with R finish_run [OF refl refl assms(4)] obtain ms n' s' where F: "run (nova_step p) n ms n'" "nova_rel p B n' s'" "list_all shell_event ms"
    "(n_shell n', n_out n') = run_calls (p_dev p) (p_oob p) (n_todo n) (n_shell n) k" "\<forall>k'. n_out n' = Returns k' \<longrightarrow> n_todo n' = []" by blast
  moreover have "n_out n' \<noteq> Hangs" using F(2) by (cases s') (auto simp: nova_rel_def)
  ultimately show ?thesis by blast
qed

lemma commands_finish_witness:
  "\<exists>ms n'. run (nova_step demo_params) (nova_boot demo_params demo_boot (\<lambda>_. 0) demo_stack_cpu) ms n' \<and> list_all shell_event ms \<and>
     (\<forall>k'. n_out n' = Returns k' \<longrightarrow> n_todo n' = [])"
proof -
  let ?n = "nova_boot demo_params demo_boot (\<lambda>_. 0) demo_stack_cpu"
  obtain i where R: "nova_rel demo_params (span 0xFFFF800000200000 65536) ?n (At (boot_desk demo_boot memory_log i))"
    by (rule booted [OF demo_boots(1,3)])
  then obtain k where k: "n_out ?n = Returns k" by (cases "n_out ?n") (auto simp: nova_rel_def)
  moreover have "s_current (k_sched k) = 0" using R k by (simp add: nova_rel_def at_rel_def sound_def)
  ultimately show ?thesis using commands_finish [OF demo_boots(1) disjI1 [OF demo_boots(3)] run.run_Nil] by blast
qed

text \<open>
  Claim C12. After a boot with memory (\<open>machine_boots\<close>, \<open>boot_stack\<close>: devices that answer, Limine's guarantees, 64 usable pages in a row
  and a boot stack apart from them) the shell lives for two timer ticks.  The second tick ends the first time slice and
  enters the background task with interrupts masked: no run takes a third tick, and after the second nothing can happen any
  more but steps of the background loop and exceptions, so no key is ever read again.
\<close>

theorem shell_lives_two_ticks:
  assumes "machine_boots p bi" "boot_stack p bi P c B" "run (nova_step p) (nova_boot p bi mem c) ls n"
  shows "count_list ls Tick \<le> 2 \<and>
    (count_list ls Tick = 2 \<longrightarrow> (\<forall>e n'. nova_step p n e n' \<longrightarrow> e = Spin \<or> (\<exists>v. e = Fault v)))"
proof -
  obtain i where i: "f_count i = 2" "nova_rel p B (nova_boot p bi mem c) (At (boot_desk bi memory_log i))" by (rule booted [OF assms(1,2)])
  then obtain s where R: "run (desk_step (p_oob p)) (At (boot_desk bi memory_log i)) ls s" "nova_rel p B n s"
    using nova.runs [OF assms(3)] by blast
  have "1 < f_count (d_facts (boot_desk bi memory_log i))" using i(1) by (simp add: boot_desk_def)
  note T = session_ticks [OF R(1) this]
  have "e = Spin \<or> (\<exists>v. e = Fault v)" if two: "count_list ls Tick = 2" and step: "nova_step p n e n'" for e n'
  proof -
    obtain s' where "desk_step (p_oob p) s e s'" using nova.sim [OF R(2) step] by blast
    then show ?thesis using T(2) [OF two] by (cases s) (auto elim: desk_step_FrozenE desk_step_OffE)
  qed
  with T(1) show ?thesis by blast
qed

lemma shell_lives_two_ticks_witness:
  "\<exists>n. run (nova_step demo_params) (nova_boot demo_params demo_boot (\<lambda>_. 0) demo_stack_cpu) [Tick, Tick] n \<and>
     (\<forall>e n'. nova_step demo_params n e n' \<longrightarrow> e = Spin \<or> (\<exists>v. e = Fault v))"
proof -
  obtain n where n: "run (nova_step demo_params) (nova_boot demo_params demo_boot (\<lambda>_. 0) demo_stack_cpu) [Tick, Tick] n" by (rule demo_ticks)
  moreover have "count_list [Tick, Tick] Tick = 2" by simp
  ultimately show ?thesis using shell_lives_two_ticks [OF demo_boots(1,3) n] by blast
qed

text \<open>
  Claim C33. Without a memory map or without the direct-map offset there is no background task, and the shell is served
  for as long as it runs: in every state reached after the boot that has not ended in a panic or a reset, the boot
  context is current, interrupts are enabled, and key presses and ticks can still be taken.
\<close>

theorem shell_survives_alone:
  assumes "machine_boots p bi" "memmap_response bi = None \<or> hhdm_response bi = None"
    and "run (nova_step p) (nova_boot p bi mem c) ls n" "n_out n = Returns k"
  shows "s_current (k_sched k) = 0 \<and> interrupts_enabled (k_cpu k) \<and> (\<forall>e \<in> awaited p n k. \<exists>n'. nova_step p n e n')"
proof -
  obtain i where i: "f_count i = 1" "nova_rel p {} (nova_boot p bi mem c) (At (boot_desk bi warning_log i))"
    by (rule booted_alone [OF assms(1,2)])
  then obtain s where R: "run (desk_step (p_oob p)) (At (boot_desk bi warning_log i)) ls s" "nova_rel p {} n s"
    using nova.runs [OF assms(3)] by blast
  have "case s of At d \<Rightarrow> f_count (d_facts d) \<le> 1 | Frozen d \<Rightarrow> False | Off t \<Rightarrow> True"
    using single_task_run [OF R(1)] i(1) by (simp add: boot_desk_def)
  then obtain d where "s = At d" using R(2) assms(4) by (cases s) (auto simp: nova_rel_def)
  then have S: "sound p {} k (n_shell n)" using R(2) assms(4) by (simp add: nova_rel_def at_rel_def)
  then show ?thesis using sound_enabled [OF assms(4) S] by (simp add: sound_def)
qed

lemma shell_survives_alone_witness:
  "\<exists>k. n_out (nova_boot demo_params demo_blind (\<lambda>_. 0) demo_stack_cpu) = Returns k \<and> interrupts_enabled (k_cpu k)"
proof -
  let ?n = "nova_boot demo_params demo_blind (\<lambda>_. 0) demo_stack_cpu"
  have none: "memmap_response demo_blind = None \<or> hhdm_response demo_blind = None" by (simp add: demo_blind_def answered_def)
  obtain i where "nova_rel demo_params {} ?n (At (boot_desk demo_blind warning_log i))" by (rule booted_alone [OF demo_boots(2) none])
  then obtain k where "n_out ?n = Returns k" by (cases "n_out ?n") (auto simp: nova_rel_def)
  then show ?thesis using shell_survives_alone [OF demo_boots(2) none run.run_Nil] by blast
qed

end
