(* ===== verification/Dialog.thy ===== *)
theory Dialog
  imports System
begin

section \<open>A session at the keyboard\<close>

text \<open>
  What a user gets who types while nothing else happens: the reference \<open>dialog\<close> gives the whole session, screen and serial
  line, for a list of scan codes, and the running kernel of theory \<open>System\<close> has a run that leads there.  In this run every \<open>hlt\<close>
  of the shell is ended by a keyboard interrupt, each time with the next scan code, and no timer tick comes.
\<close>

subsection \<open>The reference\<close>

definition answer :: "char \<Rightarrow> desk \<Rightarrow> session" where
  "answer oob d =
     (case shell_reply oob (d_line d) (d_facts d) of
        Reply as \<Rightarrow> At (perform (as @ colored COLOR_CYAN [Both ''NovaOS> '']) (d\<lparr>d_line := []\<rparr>))
      | Reset as \<Rightarrow> Off (d_sent (perform as d))
      | Stop msg \<Rightarrow> Off (d_sent d @ panic_report msg))"

definition type_char :: "char \<Rightarrow> char \<Rightarrow> desk \<Rightarrow> session" where
  "type_char oob c d =
     (if c = LF then answer oob (perform [Screen [LF]] d)
      else At (perform (echo c (d_line d)) (d\<lparr>d_line := edit c (d_line d)\<rparr>)))"

definition press_key :: "char \<Rightarrow> u8 \<Rightarrow> desk \<Rightarrow> session" where
  "press_key oob sc d =
     (let d' = d\<lparr>d_shift := shift_next sc (d_shift d), d_caps := caps_next sc (d_caps d)\<rparr> in
      case key_out (d_shift d) (d_caps d) sc of [] \<Rightarrow> At d' | c # _ \<Rightarrow> type_char oob c d')"

fun dialog :: "char \<Rightarrow> u8 list \<Rightarrow> desk \<Rightarrow> session" where
  "dialog oob [] d = At d"
| "dialog oob (sc # scs) d = (case press_key oob sc d of At d' \<Rightarrow> dialog oob scs d' | s \<Rightarrow> s)"

text \<open>The desk when the shell waits in \<open>hlt\<close> for the first key.\<close>

definition first_desk :: "boot_info \<Rightarrow> string \<Rightarrow> facts \<Rightarrow> desk" where
  "first_desk bi mlog i =
     (perform ([Line finish_message] @ colored COLOR_CYAN [Both ''NovaOS> '']) (boot_desk bi mlog i))\<lparr>d_todo := [], d_place := Halted\<rparr>"

subsection \<open>Runs of the desk\<close>

definition undisturbed :: "event \<Rightarrow> bool" where
  "undisturbed e \<longleftrightarrow> (case e of Round \<Rightarrow> True | Call \<Rightarrow> True | Exec _ \<Rightarrow> True | Halt \<Rightarrow> True | _ \<Rightarrow> False)"

lemma perform_append: "perform (as @ bs) d = perform bs (perform as d)"
  by (simp add: perform_def split_beta)

lemma perform_update:
  "perform as (d\<lparr>d_line := l\<rparr>) = (perform as d)\<lparr>d_line := l\<rparr>" "perform as (d\<lparr>d_todo := t\<rparr>) = (perform as d)\<lparr>d_todo := t\<rparr>"
  "perform as (d\<lparr>d_place := pl\<rparr>) = (perform as d)\<lparr>d_place := pl\<rparr>"
  by (simp_all add: perform_def split_beta)

lemma perform_Nil [simp]: "perform [] d = d"
  by (simp add: perform_def)

lemma perform_items:
  "\<forall>a \<in> set as. NUL \<notin> set (act_text a) \<Longrightarrow> perform (item_acts (items as)) d = perform as d"
  using items_effect [of as "(d_con d, d_sent d)"] by (simp add: perform_def)

lemma item_runs:
  assumes "d_todo d = x # xs"
  shows "\<exists>e. undisturbed e \<and> desk_step oob (At d) e (desk_item oob x (d\<lparr>d_todo := xs\<rparr>))"
  using desk_step.item [OF assms, of oob] by (auto simp: item_event_def undisturbed_def intro!: exI [of _ "item_event x d"])

definition reaches :: "char \<Rightarrow> desk \<Rightarrow> session \<Rightarrow> bool" where
  "reaches oob d s \<longleftrightarrow> (\<exists>ms. run (desk_step oob) (At d) ms s \<and> list_all undisturbed ms)"

lemma reaches_refl: "reaches oob d (At d)"
  unfolding reaches_def by (intro exI [of _ "[]"]) simp

lemma reaches_trans: "reaches oob d (At d') \<Longrightarrow> reaches oob d' s \<Longrightarrow> reaches oob d s"
  unfolding reaches_def by (metis list_all_append run_append)

lemma reaches_step: "undisturbed e \<Longrightarrow> desk_step oob (At d) e s \<Longrightarrow> reaches oob d s"
  unfolding reaches_def by (intro exI [of _ "[e]"]) (simp add: run_Cons_iff)

lemma reaches_item: "d_todo d = x # xs \<Longrightarrow> reaches oob d (desk_item oob x (d\<lparr>d_todo := xs\<rparr>))"
  using item_runs reaches_step by blast

lemma reaches_round: "d_place d = Check \<Longrightarrow> d_todo d = [] \<Longrightarrow> reaches oob d (At (desk_round d))"
  by (rule reaches_step [OF _ desk_step.round]) (simp_all add: undisturbed_def)

lemma reaches_halt: "d_place d = Before_Hlt \<Longrightarrow> d_todo d = [] \<Longrightarrow> reaches oob d (At (d\<lparr>d_place := Halted\<rparr>))"
  by (rule reaches_step [OF _ desk_step.halt]) (simp_all add: undisturbed_def)

text \<open>Output items are done one after the other.\<close>

lemma reaches_Do:
  "list_all (\<lambda>x. \<exists>a. x = Do a) xs \<Longrightarrow> d_todo d = xs @ rest \<Longrightarrow> reaches oob d (At (perform (item_acts xs) (d\<lparr>d_todo := rest\<rparr>)))"
proof (induction xs arbitrary: d)
  case Nil
  then have "d\<lparr>d_todo := rest\<rparr> = d" by simp
  then show ?case using reaches_refl by simp
next
  case (Cons x xs)
  obtain a where a: "x = Do a" using Cons.prems(1) by auto
  let ?d = "perform [a] (d\<lparr>d_todo := xs @ rest\<rparr>)"
  have "reaches oob d (At ?d)" using reaches_item [of d x "xs @ rest" oob] Cons.prems(2) a by simp
  moreover have "reaches oob ?d (At (perform (item_acts xs) (?d\<lparr>d_todo := rest\<rparr>)))"
    using Cons.IH [of ?d] Cons.prems(1) by simp
  moreover have "perform (item_acts xs) (?d\<lparr>d_todo := rest\<rparr>) = perform (item_acts (x # xs)) (d\<lparr>d_todo := rest\<rparr>)"
    using perform_append [of "[a]" "item_acts xs"] by (simp add: a perform_update)
  ultimately show ?case using reaches_trans by metis
qed

lemma items_Do: "list_all (\<lambda>x. \<exists>a. x = Do a) (items as)"
proof -
  have "list_all (\<lambda>x. \<exists>a. x = Do a) (act_items a)" for a by (cases a) (auto simp: list_all_iff)
  then show ?thesis by (induction as) simp_all
qed

lemma reaches_items:
  assumes "d_todo d = items as @ rest" "\<forall>a \<in> set as. NUL \<notin> set (act_text a)"
  shows "reaches oob d (At (perform as (d\<lparr>d_todo := rest\<rparr>)))"
  using reaches_Do [OF items_Do assms(1)] perform_items [OF assms(2)] by metis


subsection \<open>The answer to a command\<close>

text \<open>No text that is printed holds a null character.\<close>

definition plain_desk :: "desk \<Rightarrow> bool" where
  "plain_desk d \<longleftrightarrow> NUL \<notin> set (d_line d) \<and> (\<forall>(n, _) \<in> set (f_files (d_facts d)). NUL \<notin> set n)"

definition plain_acts :: "act list \<Rightarrow> bool" where
  "plain_acts as \<longleftrightarrow> (\<forall>a \<in> set as. NUL \<notin> set (act_text a))"

lemma plain_simps [simp]:
  "plain_acts []" "plain_acts (a # as) \<longleftrightarrow> NUL \<notin> set (act_text a) \<and> plain_acts as"
  "plain_acts (as @ bs) \<longleftrightarrow> plain_acts as \<and> plain_acts bs" "plain_acts (colored fg as) \<longleftrightarrow> plain_acts as"
  by (auto simp: plain_acts_def colored_def act_text_def)

lemma text_simps [simp]:
  "act_text (Both s) = s" "act_text (Screen s) = s" "act_text (Line s) = s" "act_text Blank = []" "act_text (Color fg bg) = []"
  "NUL \<notin> set (act_text (number_line l v)) \<longleftrightarrow> NUL \<notin> set l"
proof -
  have "NUL \<notin> set (dec_string v)" using dec_string_spec(1) [of v] isdigit_plain by (auto simp: list_all_iff)
  then show "NUL \<notin> set (act_text (number_line l v)) \<longleftrightarrow> NUL \<notin> set l" by (simp add: act_text_def number_line_def)
qed (simp_all add: act_text_def)

lemma plain_entries:
  "\<forall>(n, _) \<in> set fs. NUL \<notin> set n \<Longrightarrow> plain_acts (concat (map list_entry fs))"
  by (induction fs) (auto simp: list_entry_def)

lemma plain_help: "plain_acts (map (\<lambda>l. Both (l @ [LF])) help_text)"
  by (simp add: help_text_def)

fun reply_acts :: "reply \<Rightarrow> act list" where
  "reply_acts (Reply as) = as"
| "reply_acts (Reset as) = as"
| "reply_acts (Stop msg) = []"

lemma plain_reply:
  assumes "NUL \<notin> set l" "\<forall>(n, _) \<in> set (f_files i). NUL \<notin> set n"
  shows "plain_acts (reply_acts (shell_reply oob l i))"
proof -
  have s: "NUL \<notin> set (dropWhile (\<lambda>c. c = CHR '' '') l)" using assms(1) set_dropWhileD by metis
  then have t: "NUL \<notin> set (drop n (dropWhile (\<lambda>c. c = CHR '' '') l))" for n by (meson in_set_dropD)
  then have f: "NUL \<notin> set (dropWhile (\<lambda>c. c = CHR '' '') (drop n (dropWhile (\<lambda>c. c = CHR '' '') l)))" for n
    using set_dropWhileD by metis
  show ?thesis
    unfolding shell_reply_def Let_def using s t f plain_entries [OF assms(2)] plain_help by (simp split: option.splits prod.splits)
qed

text \<open>A number is printed as it is when its turn comes.\<close>

lemma reaches_number:
  assumes "d_todo d = Number l x # rest" "NUL \<notin> set l"
  shows "reaches oob d (At (perform [number_line l (stat_fact x (d_facts d))] (d\<lparr>d_todo := rest\<rparr>)))"
proof -
  let ?a = "number_line l (stat_fact x (d_facts d))" and ?d = "d\<lparr>d_todo := items [number_line l (stat_fact x (d_facts d))] @ rest\<rparr>"
  have 1: "reaches oob d (At ?d)" using reaches_item [OF assms(1), of oob] by (simp del: items_simps)
  have "reaches oob ?d (At (perform [?a] (?d\<lparr>d_todo := rest\<rparr>)))"
    by (rule reaches_items) (use assms(2) in \<open>simp_all del: items_simps\<close>)
  from reaches_trans [OF 1 this] show ?thesis by simp
qed

lemma reaches_numbers:
  "d_todo d = map (\<lambda>(l, x). Number l x) ns @ rest \<Longrightarrow> \<forall>(l, x) \<in> set ns. NUL \<notin> set l \<Longrightarrow>
   reaches oob d (At (perform (map (\<lambda>(l, x). number_line l (stat_fact x (d_facts d))) ns) (d\<lparr>d_todo := rest\<rparr>)))"
proof (induction ns arbitrary: d)
  case Nil
  then have "d\<lparr>d_todo := rest\<rparr> = d" by simp
  then show ?case using reaches_refl by simp
next
  case (Cons n ns)
  obtain l x where n: "n = (l, x)" by fastforce
  let ?a = "number_line l (stat_fact x (d_facts d))" and ?t = "map (\<lambda>(l, x). Number l x) ns @ rest"
  let ?d = "perform [number_line l (stat_fact x (d_facts d))] (d\<lparr>d_todo := map (\<lambda>(l, x). Number l x) ns @ rest\<rparr>)"
  have 1: "reaches oob d (At ?d)" by (rule reaches_number) (use Cons.prems n in simp_all)
  have 2: "reaches oob ?d (At (perform (map (\<lambda>(l, x). number_line l (stat_fact x (d_facts ?d))) ns) (?d\<lparr>d_todo := rest\<rparr>)))"
    by (rule Cons.IH) (use Cons.prems(2) in simp_all)
  have 3: "perform (map (\<lambda>(l, x). number_line l (stat_fact x (d_facts ?d))) ns) (?d\<lparr>d_todo := rest\<rparr>) =
      perform (map (\<lambda>(l, x). number_line l (stat_fact x (d_facts d))) (n # ns)) (d\<lparr>d_todo := rest\<rparr>)"
    using perform_append [of "[?a]" "map (\<lambda>(l, x). number_line l (stat_fact x (d_facts d))) ns" "d\<lparr>d_todo := rest\<rparr>"]
    by (simp add: n perform_update)
  show ?case using reaches_trans [OF 1 2] unfolding 3 .
qed

lemma reaches_yellow:
  assumes "d_todo d = in_yellow (map (\<lambda>(l, x). Number l x) ns) @ rest" "\<forall>(l, x) \<in> set ns. NUL \<notin> set l"
  shows "reaches oob d (At (perform (colored COLOR_YELLOW (map (\<lambda>(l, x). number_line l (stat_fact x (d_facts d))) ns)) (d\<lparr>d_todo := rest\<rparr>)))"
proof -
  let ?w = "Do (Color COLOR_WHITE COLOR_DARK) # rest" and ?N = "map (\<lambda>(l, x). Number l x) ns" and ?n = "map (\<lambda>(l, x). number_line l (stat_fact x (d_facts d))) ns"
  let ?d1 = "perform [Color COLOR_YELLOW COLOR_DARK] (d\<lparr>d_todo := ?N @ ?w\<rparr>)"
  let ?d2 = "perform ?n (?d1\<lparr>d_todo := ?w\<rparr>)"
  have 1: "reaches oob d (At ?d1)" using reaches_item [of d "Do (Color COLOR_YELLOW COLOR_DARK)" "?N @ ?w" oob] assms(1) by (simp add: in_yellow_def)
  have 2: "reaches oob ?d1 (At ?d2)" using reaches_numbers [of ?d1 ns ?w oob] assms(2) by simp
  have 3: "reaches oob ?d2 (At (perform [Color COLOR_WHITE COLOR_DARK] (?d2\<lparr>d_todo := rest\<rparr>)))"
    using reaches_item [of ?d2 "Do (Color COLOR_WHITE COLOR_DARK)" rest oob] by simp
  have "perform [Color COLOR_WHITE COLOR_DARK] (?d2\<lparr>d_todo := rest\<rparr>) = perform (colored COLOR_YELLOW ?n) (d\<lparr>d_todo := rest\<rparr>)"
    using perform_append [of "[Color COLOR_YELLOW COLOR_DARK]" "?n @ [Color COLOR_WHITE COLOR_DARK]"] perform_append [of ?n "[Color COLOR_WHITE COLOR_DARK]"]
    by (simp add: colored_def perform_update)
  then show ?thesis using reaches_trans [OF 1 reaches_trans [OF 2 3]] by simp
qed


definition replies :: "char \<Rightarrow> desk \<Rightarrow> item list \<Rightarrow> reply \<Rightarrow> bool" where
  "replies oob d rest r \<longleftrightarrow> (case r of
     Reply as \<Rightarrow> reaches oob d (At (perform as (d\<lparr>d_todo := rest\<rparr>)))
   | Reset as \<Rightarrow> reaches oob d (Off (d_sent (perform as d)))
   | Stop msg \<Rightarrow> reaches oob d (Off (d_sent d @ panic_report msg)))"

lemma replies_items:
  assumes "d_todo d = reply_items r @ rest" "plain_acts (reply_acts r)"
  shows "replies oob d rest r"
proof (cases r)
  case (Reply as)
  then show ?thesis using reaches_items [of d as rest oob] assms by (simp add: replies_def plain_acts_def)
next
  case (Reset as)
  let ?d = "perform as (d\<lparr>d_todo := Pulse_Reset # rest\<rparr>)"
  have "reaches oob d (At ?d)" using reaches_items [of d as "Pulse_Reset # rest" oob] assms Reset by (simp add: plain_acts_def)
  moreover have "reaches oob ?d (Off (d_sent (perform as d)))" using reaches_item [of ?d Pulse_Reset rest oob] by simp
  ultimately show ?thesis using reaches_trans Reset by (simp add: replies_def)
next
  case (Stop msg)
  then show ?thesis using reaches_item [of d "Stop_With msg" rest oob] assms(1) by (simp add: replies_def)
qed

lemma replies_late:
  assumes "d_todo d = late_reply oob (d_line d) (d_facts d) @ rest" "plain_desk d"
  shows "replies oob d rest (shell_reply oob (d_line d) (d_facts d))"
proof -
  define w where "w = dropWhile (\<lambda>c. c = CHR '' '') (d_line d)"
  note Y = reaches_yellow [of d _ rest oob]
  consider "w = ''meminfo''" | "w = ''ticks''" | "w = ''tasks''" | "w \<notin> {''meminfo'', ''ticks'', ''tasks''}" by auto
  then show ?thesis
  proof cases
    case 1
    then show ?thesis
      using Y [of "[(''PMM Free Pages : '', Free_Pages), (''PMM Total Pages: '', Total_Pages), (''PMM Used (KB)  : '', Used_KB)]"] assms(1)
      by (simp add: replies_def shell_reply_def late_reply_def Let_def w_def [symmetric])
  next
    case 2
    then show ?thesis
      using Y [of "[(''Timer Ticks: '', Timer_Ticks)]"] assms(1)
      by (simp add: replies_def shell_reply_def late_reply_def Let_def w_def [symmetric])
  next
    case 3
    then show ?thesis
      using Y [of "[(''Active Tasks: '', Task_Count), (''Current Task ID: '', Current_Id)]"] assms(1)
      by (simp add: replies_def shell_reply_def late_reply_def Let_def w_def [symmetric])
  next
    case 4
    then have "late_reply oob (d_line d) (d_facts d) = reply_items (shell_reply oob (d_line d) (d_facts d))"
      by (simp add: late_reply_def Let_def w_def [symmetric])
    then show ?thesis using assms plain_reply [of "d_line d" "d_facts d" oob] by (intro replies_items) (simp_all add: plain_desk_def)
  qed
qed

lemma reaches_prompt:
  assumes "d_todo d = prompt"
  shows "reaches oob d (At (perform (colored COLOR_CYAN [Both ''NovaOS> '']) (d\<lparr>d_todo := []\<rparr>)))"
  by (rule reaches_items) (use assms in \<open>simp_all add: prompt_def colored_def\<close>)

text \<open>Enter, from the line break to the next prompt.\<close>

lemma reaches_answer:
  assumes "d_todo d = Exec_Line # New_Line # prompt" "d_place d = Before_Hlt" "plain_desk d"
  shows "reaches oob d (answer oob (d\<lparr>d_todo := [], d_place := Halted\<rparr>))"
proof -
  let ?r = "shell_reply oob (d_line d) (d_facts d)" and ?N = "New_Line # prompt"
  let ?d = "d\<lparr>d_todo := late_reply oob (d_line d) (d_facts d) @ ?N\<rparr>"
  have 1: "reaches oob d (At ?d)" using reaches_item [OF assms(1), of oob] by simp
  have R: "replies oob ?d ?N ?r" using replies_late [of ?d oob ?N] assms(3) by (simp add: plain_desk_def)
  show ?thesis
  proof (cases ?r)
    case (Reply as)
    let ?e = "perform as (d\<lparr>d_todo := ?N\<rparr>)" and ?f = "(perform as (d\<lparr>d_todo := prompt\<rparr>))\<lparr>d_line := []\<rparr>"
      and ?p = "colored COLOR_CYAN [Both ''NovaOS> '']"
    have 2: "reaches oob ?d (At ?e)" using R Reply by (simp add: replies_def)
    have 3: "reaches oob ?e (At ?f)" using reaches_item [of ?e New_Line prompt oob] by (simp add: perform_update)
    have 4: "reaches oob ?f (At (perform ?p (?f\<lparr>d_todo := []\<rparr>)))" by (rule reaches_prompt) simp
    let ?g = "perform ?p (?f\<lparr>d_todo := []\<rparr>)"
    have 5: "reaches oob ?g (At (?g\<lparr>d_place := Halted\<rparr>))" by (rule reaches_halt) (use assms(2) in simp_all)
    have "At (?g\<lparr>d_place := Halted\<rparr>) = answer oob (d\<lparr>d_todo := [], d_place := Halted\<rparr>)"
      using Reply by (simp add: answer_def perform_append perform_update)
    then show ?thesis using reaches_trans [OF 1 reaches_trans [OF 2 reaches_trans [OF 3 reaches_trans [OF 4 5]]]] by simp
  next
    case (Reset as)
    then show ?thesis using R reaches_trans [OF 1] by (simp add: replies_def answer_def perform_update)
  next
    case (Stop msg)
    then show ?thesis using R reaches_trans [OF 1] by (simp add: replies_def answer_def)
  qed
qed


subsection \<open>A key\<close>

definition idle :: "desk \<Rightarrow> bool" where
  "idle d \<longleftrightarrow> d_place d = Halted \<and> d_todo d = [] \<and> d_keys d = []"

lemma key_out_cases: obtains "key_out sh ca sc = []" | c where "key_out sh ca sc = [c]"
proof (cases "key_out sh ca sc = []")
  case False
  then have "key_out sh ca sc = [key_char sh ca sc]" by (auto simp: key_out_def)
  then show thesis by (rule that(2))
qed (rule that(1))

lemma reaches_char:
  assumes "idle d" "plain_desk d"
  shows "reaches oob (desk_char c (d\<lparr>d_place := Before_Hlt\<rparr>)) (type_char oob c d)"
proof (cases "c = LF")
  case True
  let ?d = "d\<lparr>d_place := Before_Hlt, d_todo := Do (Screen [LF]) # Exec_Line # New_Line # prompt\<rparr>"
  let ?e = "perform [Screen [LF]] (?d\<lparr>d_todo := Exec_Line # New_Line # prompt\<rparr>)"
  have "reaches oob ?d (At ?e)" using reaches_item [of ?d "Do (Screen [LF])" "Exec_Line # New_Line # prompt" oob] by simp
  moreover have "reaches oob ?e (answer oob (?e\<lparr>d_todo := [], d_place := Halted\<rparr>))"
    by (rule reaches_answer) (use assms(2) in \<open>simp_all add: plain_desk_def\<close>)
  moreover have "?e\<lparr>d_todo := [], d_place := Halted\<rparr> = perform [Screen [LF]] d"
    using assms(1) by (cases d) (simp add: idle_def perform_def split_beta)
  ultimately show ?thesis using True reaches_trans by (simp add: desk_char_def type_char_def)
next
  case False
  let ?x = "echo c (d_line d)"
  let ?d = "d\<lparr>d_place := Before_Hlt, d_line := edit c (d_line d), d_todo := items ?x\<rparr>"
  let ?e = "perform ?x (?d\<lparr>d_todo := []\<rparr>)"
  have "\<forall>a \<in> set ?x. NUL \<notin> set (act_text a)" using printable_plain [of c] by (auto simp: echo_def)
  then have 1: "reaches oob ?d (At ?e)" using reaches_items [of ?d ?x "[]" oob] by simp
  have 2: "reaches oob ?e (At (?e\<lparr>d_place := Halted\<rparr>))" by (rule reaches_halt) simp_all
  have "?e\<lparr>d_place := Halted\<rparr> = perform ?x (d\<lparr>d_line := edit c (d_line d)\<rparr>)"
    using assms(1) by (cases d) (simp add: idle_def perform_def split_beta)
  then show ?thesis using False reaches_trans [OF 1 2] by (simp add: desk_char_def type_char_def)
qed

lemma reaches_press:
  assumes "idle d" "plain_desk d"
  shows "reaches oob (desk_press sc d) (press_key oob sc d)"
proof -
  let ?m = "d\<lparr>d_shift := shift_next sc (d_shift d), d_caps := caps_next sc (d_caps d)\<rparr>"
  have p: "d_place (desk_press sc d) = Check" "d_todo (desk_press sc d) = []" using assms(1) by (simp_all add: desk_press_def idle_def wake_def)
  note 1 = reaches_round [OF p, of oob]
  show ?thesis
  proof (rule key_out_cases [of "d_shift d" "d_caps d" sc])
    assume o: "key_out (d_shift d) (d_caps d) sc = []"
    let ?e = "desk_round (desk_press sc d)"
    have "reaches oob ?e (At (?e\<lparr>d_place := Halted\<rparr>))"
      by (rule reaches_halt) (use o assms(1) in \<open>simp_all add: desk_round_def desk_press_def idle_def\<close>)
    moreover have "?e\<lparr>d_place := Halted\<rparr> = ?m" using o assms(1) by (cases d) (simp add: desk_round_def desk_press_def idle_def)
    ultimately show ?thesis using o reaches_trans [OF 1] by (simp add: press_key_def)
  next
    fix c assume o: "key_out (d_shift d) (d_caps d) sc = [c]"
    have "desk_round (desk_press sc d) = desk_char c (?m\<lparr>d_place := Before_Hlt\<rparr>)"
      using o assms(1) by (cases d) (simp add: desk_round_def desk_press_def idle_def)
    moreover have "reaches oob (desk_char c (?m\<lparr>d_place := Before_Hlt\<rparr>)) (type_char oob c ?m)"
      by (rule reaches_char) (use assms in \<open>simp_all add: idle_def plain_desk_def\<close>)
    ultimately show ?thesis using o reaches_trans [OF 1] by (simp add: press_key_def)
  qed
qed

lemma press_idle: "idle d \<Longrightarrow> press_key oob sc d = At d' \<Longrightarrow> idle d'"
  by (auto simp: press_key_def type_char_def answer_def idle_def Let_def split: list.splits if_splits reply.splits)

subsection \<open>The kernel follows\<close>

lemma desk_det: "desk_step oob (At d) e s \<Longrightarrow> desk_step oob (At d) e s' \<Longrightarrow> undisturbed e \<Longrightarrow> s = s'"
proof -
  assume s: "desk_step oob (At d) e s" and s': "desk_step oob (At d) e s'" and e: "undisturbed e"
  from s e consider "e = Round" "s = At (desk_round d)" | "e = Halt" "s = At (d\<lparr>d_place := Halted\<rparr>)"
    | x xs where "e \<in> {Call, Exec (d_line d)}" "d_todo d = x # xs" "s = desk_item oob x (d\<lparr>d_todo := xs\<rparr>)"
    by cases (auto simp: undisturbed_def item_event_def)
  then show "s = s'" using s' by cases (auto elim!: desk_step.cases simp: item_event_def split: if_splits)
qed

lemma rel_plain:
  assumes "nova_rel p B n (At d)"
  shows "plain_desk d"
proof -
  obtain k where k: "n_out n = Returns k" by (rule rel_current [OF assms])
  then have "shell_inv (n_shell n)" "sh_line (n_shell n) = d_line d" "kernel_facts k = d_facts d"
    using assms by (simp_all add: nova_rel_def at_rel_def sound_def shows_desk_def)
  moreover from this have "f_files (d_facts d) = files (k_vfs k)" by (metis facts.select_convs(1) kernel_facts_def)
  moreover have "\<forall>(m, _) \<in> set (files fs). NUL \<notin> set m" for fs by (auto simp: files_def file_of_def)
  ultimately show ?thesis using printable_plain by (auto simp: plain_desk_def inv_defs list_all_iff)
qed

lemma follows:
  assumes "nova_rel p B n (At d)" "undisturbed e" "desk_step (p_oob p) (At d) e s"
  shows "\<exists>n'. nova_step p n e n' \<and> nova_rel p B n' s"
proof -
  obtain k where k: "n_out n = Returns k" by (rule rel_current [OF assms(1)])
  have R: "n_place n = d_place d" "answers (n_todo n) (d_todo d)" "sound p B k (n_shell n)" "shows_desk k (n_shell n) d"
    using assms(1) k by (simp_all add: nova_rel_def at_rel_def)
  from assms(3) have "e \<in> awaited p n k"
  proof cases
    case (item x xs)
    then obtain c cs where c: "n_todo n = c # cs" "item_of c = x" using R(2) by (auto simp: answers_def)
    have "x = Exec_Line \<longleftrightarrow> c = Execute" using c(2) by (cases c) auto
    then have "call_event c (shell_op c (n_shell n)) = item_event x d"
      using enter_step(1) [OF R(3,4)] by (simp add: call_event_def item_event_def del: shell_op.simps)
    then show ?thesis using item c(1) by (simp add: awaited_def)
  qed (use assms(2) R(1,2) in \<open>simp_all add: undisturbed_def awaited_def answers_def\<close>)
  then obtain n' where n': "nova_step p n e n'" using sound_enabled [OF k R(3)] by blast
  then obtain s' where "desk_step (p_oob p) (At d) e s'" "nova_rel p B n' s'" using nova.sim [OF assms(1)] by blast
  with n' show ?thesis using desk_det [OF assms(3) _ assms(2)] by blast
qed

lemma follows_run:
  "run (desk_step (p_oob p)) (At d) ms s \<Longrightarrow> nova_rel p B n (At d) \<Longrightarrow> list_all undisturbed ms \<Longrightarrow>
   \<exists>n'. run (nova_step p) n ms n' \<and> nova_rel p B n' s"
proof (induction ms arbitrary: d n)
  case (Cons e ms)
  obtain s1 where s1: "desk_step (p_oob p) (At d) e s1" "run (desk_step (p_oob p)) s1 ms s" using Cons.prems(1) by (auto simp: run_Cons_iff)
  obtain n1 where n1: "nova_step p n e n1" "nova_rel p B n1 s1" using follows [OF Cons.prems(2) _ s1(1)] Cons.prems(3) by auto
  show ?case
  proof (cases s1)
    case (At d1)
    then show ?thesis using Cons.IH [of d1 n1] s1(2) n1 Cons.prems(3) by (auto intro: run_Cons)
  next
    case (Frozen d1)
    then have "e = Tick" using frozen_by_tick s1(1) by blast
    then show ?thesis using Cons.prems(3) by (simp add: undisturbed_def)
  next
    case (Off t)
    then have "ms = []" "s = s1" using Off_run s1(2) by blast+
    then show ?thesis using n1 by (intro exI [of _ n1]) (simp add: run_Cons_iff)
  qed
qed auto


lemma keys_undisturbed: "list_all undisturbed ms \<Longrightarrow> keys_of ms = []"
  by (induction ms) (auto simp: undisturbed_def split: event.splits)

definition typing :: "event \<Rightarrow> bool" where
  "typing e \<longleftrightarrow> (case e of Tick \<Rightarrow> False | Spin \<Rightarrow> False | Fault _ \<Rightarrow> False | _ \<Rightarrow> True)"

lemma undisturbed_typing: "list_all undisturbed ms \<Longrightarrow> list_all typing ms"
  by (auto simp: list_all_iff undisturbed_def typing_def split: event.splits)

lemma key_follows:
  assumes "nova_rel p B n (At d)" "idle d"
  obtains sc ms n' where "run (nova_step p) n (Key sc # ms) n'" "list_all undisturbed ms" "nova_rel p B n' (press_key (p_oob p) sc d)"
proof -
  obtain k where k: "n_out n = Returns k" by (rule rel_current [OF assms(1)])
  let ?sc = "p_dev p (k_io k) PS2_DATA"
  have "sound p B k (n_shell n)" using assms(1) k by (simp add: nova_rel_def at_rel_def)
  then obtain n1 where n1: "nova_step p n (Key ?sc) n1" using sound_enabled [OF k, of p B "Key ?sc"] by (auto simp: awaited_def)
  then obtain s1 where s1: "desk_step (p_oob p) (At d) (Key ?sc) s1" "nova_rel p B n1 s1" using nova.sim [OF assms(1)] by blast
  then have "nova_rel p B n1 (At (desk_press ?sc d))" by cases (auto simp: item_event_def split: if_splits)
  moreover obtain ms where ms: "run (desk_step (p_oob p)) (At (desk_press ?sc d)) ms (press_key (p_oob p) ?sc d)" "list_all undisturbed ms"
    using reaches_press [OF assms(2) rel_plain [OF assms(1)]] unfolding reaches_def by blast
  ultimately obtain n' where "run (nova_step p) n1 ms n'" "nova_rel p B n' (press_key (p_oob p) ?sc d)" using follows_run by blast
  then show thesis using n1 ms(2) by (intro that [of ?sc ms n']) (auto simp: run_Cons_iff)
qed

lemma typing_follows:
  "nova_rel p B n (At d) \<Longrightarrow> idle d \<Longrightarrow> \<exists>ls n'. run (nova_step p) n ls n' \<and> list_all typing ls \<and>
     nova_rel p B n' (dialog (p_oob p) (keys_of ls) d) \<and>
     (case dialog (p_oob p) (keys_of ls) d of At d' \<Rightarrow> length (keys_of ls) = m | _ \<Rightarrow> length (keys_of ls) \<le> m)"
proof (induction m arbitrary: n d)
  case 0
  then show ?case by (intro exI [of _ "[]"] exI [of _ n]) simp
next
  case (Suc m)
  obtain sc ms n1 where 1: "run (nova_step p) n (Key sc # ms) n1" "list_all undisturbed ms" "nova_rel p B n1 (press_key (p_oob p) sc d)"
    by (rule key_follows [OF Suc.prems])
  note k = keys_undisturbed [OF 1(2)] and t = undisturbed_typing [OF 1(2)]
  show ?case
  proof (cases "press_key (p_oob p) sc d")
    case (At d1)
    then obtain ls n2 where 2: "run (nova_step p) n1 ls n2" "list_all typing ls" "nova_rel p B n2 (dialog (p_oob p) (keys_of ls) d1)"
      "case dialog (p_oob p) (keys_of ls) d1 of At d' \<Rightarrow> length (keys_of ls) = m | _ \<Rightarrow> length (keys_of ls) \<le> m"
      using Suc.IH [of n1 d1] 1(3) press_idle [OF Suc.prems(2) At] by auto
    have "run (nova_step p) n ((Key sc # ms) @ ls) n2" using 1(1) 2(1) run_append by metis
    moreover have "keys_of ((Key sc # ms) @ ls) = sc # keys_of ls" by (simp add: keys_of_append k)
    moreover have "list_all typing ((Key sc # ms) @ ls)" using t 2(2) by (simp add: typing_def)
    ultimately show ?thesis using 2(3,4) At by (intro exI [of _ "(Key sc # ms) @ ls"] exI [of _ n2]) (simp split: session.splits)
  next
    case (Off t')
    moreover have "typing (Key sc)" by (simp add: typing_def)
    ultimately show ?thesis using 1(1,3) k t by (intro exI [of _ "Key sc # ms"] exI [of _ n1]) simp
  next
    case (Frozen d')
    moreover have "typing (Key sc)" by (simp add: typing_def)
    ultimately show ?thesis using 1(1,3) k t by (intro exI [of _ "Key sc # ms"] exI [of _ n1]) simp
  qed
qed

lemma dialog_idle: "idle d \<Longrightarrow> (case dialog oob scs d of At d' \<Rightarrow> idle d' | Frozen _ \<Rightarrow> False | Off _ \<Rightarrow> True)"
proof (induction scs arbitrary: d)
  case (Cons sc scs)
  have "press_key oob sc d \<noteq> Frozen d'" for d'
    by (auto simp: press_key_def type_char_def answer_def Let_def split: list.split reply.split)
  then show ?case using Cons.IH press_idle [OF Cons.prems] by (cases "press_key oob sc d") auto
qed simp

lemma dialog_end:
  assumes "nova_rel p B n (dialog oob scs d)" "idle d"
  shows "case dialog oob scs d of
      At d' \<Rightarrow> n_place n = Halted \<and> n_todo n = [] \<and> (\<exists>k. n_out n = Returns k \<and> \<not> keyboard_has_char (k_kbd k))
    | Frozen _ \<Rightarrow> False | Off _ \<Rightarrow> True"
proof (cases "dialog oob scs d")
  case (At d')
  then have i: "idle d'" using dialog_idle [OF assms(2), of oob scs] by simp
  obtain k where k: "n_out n = Returns k" using rel_current assms(1) unfolding At by blast
  then have "n_place n = d_place d'" "answers (n_todo n) (d_todo d')" "kbd_inv (k_kbd k)" "kb_items (k_kbd k) = d_keys d'"
    using assms(1) unfolding At by (simp_all add: nova_rel_def at_rel_def sound_def shows_desk_def)
  then show ?thesis using At i k has_char_iff by (auto simp: idle_def answers_def)
qed (use dialog_idle [OF assms(2), of oob scs] in simp_all)

lemma boot_reaches: "reaches oob (boot_desk bi mlog i) (At (first_desk bi mlog i))"
proof -
  let ?d = "boot_desk bi mlog i" and ?a = "[Line finish_message] @ colored COLOR_CYAN [Both ''NovaOS> '']"
  let ?e = "perform ?a (?d\<lparr>d_todo := []\<rparr>)"
  have t: "d_todo ?d = items ?a @ []" by (simp add: boot_desk_def prompt_def)
  have 1: "reaches oob ?d (At ?e)" by (rule reaches_items [OF t]) (simp add: colored_def finish_message_def)
  have 2: "reaches oob ?e (At (?e\<lparr>d_place := Before_Hlt\<rparr>))"
    using reaches_round [of ?e oob] by (simp add: desk_round_def boot_desk_def)
  have 3: "reaches oob (?e\<lparr>d_place := Before_Hlt\<rparr>) (At (?e\<lparr>d_place := Halted\<rparr>))" using reaches_halt [of "?e\<lparr>d_place := Before_Hlt\<rparr>" oob] by simp
  have "?e\<lparr>d_place := Halted\<rparr> = first_desk bi mlog i" by (simp add: first_desk_def perform_update)
  then show ?thesis using reaches_trans [OF 1 reaches_trans [OF 2 3]] by simp
qed

lemma first_idle: "idle (first_desk bi mlog i)"
  by (simp add: idle_def first_desk_def boot_desk_def)

subsection \<open>Properties\<close>

text \<open>
  Claim C13. Typing works, as long as no timer tick comes (by \<open>shell_lives_two_ticks\<close> the second tick after a boot with memory
  ends all service).  After a boot with memory
  (a serial line that accepts characters, interrupt controllers that read
  back their masks, a loader with Limine's guarantees that finds 64 usable pages in a row for the heap, and a boot stack apart from
  them: \<open>machine_boots\<close>, \<open>boot_stack\<close>),
  for every number \<open>m\<close> there is a run of the kernel without ticks and exceptions in
  which \<open>m\<close> scan codes come in, as the keyboard delivers them, each one ending the \<open>hlt\<close> in which the shell waits; or fewer, when one
  of the lines resets or stops the machine.  At its end the kernel shows what the reference \<open>dialog\<close> says for these scan codes: after the
  boot message and the prompt every character is echoed and edited into the line, every Enter is answered as \<open>shell_reply\<close> says for the line typed so far and
  followed by a new prompt, on the screen and on the serial line, \<open>reboot\<close> and \<open>panic\<close> end the session, and unless
  they have, the shell waits in \<open>hlt\<close> again with nothing left to do and no key unread.
\<close>

theorem typed_lines_answered:
  assumes "machine_boots p bi" "boot_stack p bi P c B"
  shows "\<exists>i. f_files i = init_files \<and> f_free i = of_nat (card ({q. usable_page (boot_map bi) q} - {P..<P + 64})) \<and>
    f_ticks i = 0 \<and> f_count i = 2 \<and> f_current i = 0 \<and>
    (\<exists>ls n s. run (nova_step p) (nova_boot p bi mem c) ls n \<and>
       list_all (\<lambda>e. case e of Tick \<Rightarrow> False | Spin \<Rightarrow> False | Fault _ \<Rightarrow> False | _ \<Rightarrow> True) ls \<and>
       s = dialog (p_oob p) (keys_of ls) (first_desk bi memory_log i) \<and> nova_rel p B n s \<and>
       (case s of
          At d \<Rightarrow> length (keys_of ls) = m \<and> n_place n = Halted \<and> n_todo n = [] \<and>
            (\<exists>k. n_out n = Returns k \<and> \<not> keyboard_has_char (k_kbd k))
        | Frozen _ \<Rightarrow> False
        | Off _ \<Rightarrow> length (keys_of ls) \<le> m))"
proof -
  let ?n = "nova_boot p bi mem c"
  obtain i where i: "f_files i = init_files" "f_free i = of_nat (card ({q. usable_page (boot_map bi) q} - {P..<P + 64}))" "f_ticks i = 0"
    "f_count i = 2" "f_current i = 0" "nova_rel p B ?n (At (boot_desk bi memory_log i))" by (rule booted [OF assms])
  obtain ms where ms: "run (desk_step (p_oob p)) (At (boot_desk bi memory_log i)) ms (At (first_desk bi memory_log i))" "list_all undisturbed ms"
    using boot_reaches unfolding reaches_def by blast
  obtain n1 where n1: "run (nova_step p) ?n ms n1" "nova_rel p B n1 (At (first_desk bi memory_log i))"
    using follows_run [OF ms(1) i(6) ms(2)] by blast
  obtain ls n2 where n2: "run (nova_step p) n1 ls n2" "list_all typing ls" "nova_rel p B n2 (dialog (p_oob p) (keys_of ls) (first_desk bi memory_log i))"
    "case dialog (p_oob p) (keys_of ls) (first_desk bi memory_log i) of At d' \<Rightarrow> length (keys_of ls) = m | _ \<Rightarrow> length (keys_of ls) \<le> m"
    using typing_follows [OF n1(2) first_idle] by blast
  let ?ls = "ms @ ls" and ?s = "dialog (p_oob p) (keys_of ls) (first_desk bi memory_log i)"
  have k: "keys_of ?ls = keys_of ls" by (simp add: keys_of_append keys_undisturbed [OF ms(2)])
  have "run (nova_step p) ?n ?ls n2" using n1(1) n2(1) run_append by metis
  moreover have "list_all typing ?ls" using n2(2) undisturbed_typing [OF ms(2)] by simp
  moreover have "case ?s of At d \<Rightarrow> length (keys_of ls) = m \<and> n_place n2 = Halted \<and> n_todo n2 = [] \<and>
      (\<exists>k. n_out n2 = Returns k \<and> \<not> keyboard_has_char (k_kbd k)) | Frozen _ \<Rightarrow> False | Off _ \<Rightarrow> length (keys_of ls) \<le> m"
    using dialog_end [OF n2(3) first_idle] n2(4) by (simp split: session.splits)
  ultimately show ?thesis
    using i n2(3) unfolding typing_def by (intro exI [of _ i] conjI exI [of _ ?ls] exI [of _ n2] exI [of _ ?s]) (simp_all only: k)
qed

theorem typed_lines_answered_witness:
  "\<exists>i ls n. f_count i = 2 \<and> run (nova_step demo_params) (nova_boot demo_params demo_boot (\<lambda>_. 0) demo_stack_cpu) ls n \<and> Tick \<notin> set ls \<and>
     nova_rel demo_params (span 0xFFFF800000200000 65536) n (dialog NUL (keys_of ls) (first_desk demo_boot memory_log i)) \<and> length (keys_of ls) \<le> 3"
proof -
  have o: "p_oob demo_params = NUL" by (simp add: demo_params_def)
  obtain i ls n where "f_count i = 2" and n: "run (nova_step demo_params) (nova_boot demo_params demo_boot (\<lambda>_. 0) demo_stack_cpu) ls n"
    "list_all (\<lambda>e. case e of Tick \<Rightarrow> False | Spin \<Rightarrow> False | Fault _ \<Rightarrow> False | _ \<Rightarrow> True) ls"
    "nova_rel demo_params (span 0xFFFF800000200000 65536) n (dialog NUL (keys_of ls) (first_desk demo_boot memory_log i))"
    "case dialog NUL (keys_of ls) (first_desk demo_boot memory_log i) of
       At d \<Rightarrow> length (keys_of ls) = 3 \<and> n_place n = Halted \<and> n_todo n = [] \<and> (\<exists>k. n_out n = Returns k \<and> \<not> keyboard_has_char (k_kbd k))
     | Frozen _ \<Rightarrow> False | Off _ \<Rightarrow> length (keys_of ls) \<le> 3"
    using typed_lines_answered [OF demo_boots(1,3), of "\<lambda>_. 0" 3] unfolding o by blast
  moreover have "Tick \<notin> set ls" using n(2) by (auto simp: list_all_iff)
  moreover have "length (keys_of ls) \<le> 3" using n(4) by (simp split: session.splits)
  ultimately show ?thesis by blast
qed

end
