(* ===== verification/Spec2Isabelle.thy ===== *)
theory Spec2Isabelle
  imports Dialog
begin

text \<open>
  \<^bold>\<open>NovaOS\<close>, a small 64-bit kernel in C++ and assembly (\<^verbatim>\<open>src/kernel\<close>), modelled and verified.

  \<^bold>\<open>The program.\<close>  Limine loads the kernel and calls \<open>_start\<close> (\<^verbatim>\<open>kernel_main.cpp\<close>), which sets up the serial line,
  the segment table, the framebuffer console, the physical page allocator and the heap, the interrupt
  controller with timer and keyboard, the interrupt table, the file table and the scheduler, and then runs the
  shell.  Afterwards three things happen: the shell takes characters from the keyboard ring buffer and runs
  commands, the keyboard interrupt fills the buffer, and the timer interrupt counts ticks and every second tick
  switches between the boot context and the background task.  A processor exception or a failed check ends in
  \<open>kernel_panic\<close>.

  \<^bold>\<open>How it is modelled.\<close>  The static variables of a source file are a record, an operation is a function on it that
  returns the new state, machine integers are words of their width, and every early return and failure is a
  branch.  Loops that end are structural recursion or recursion with a measure; loops that may not end
  (\<open>kmalloc\<close> on a list in memory, the polling of the serial line, the tab loop, the marking of
  a memory region) are \<open>partial_function (option)\<close>, where \<open>None\<close> means that the call does not return; the theorems
  then say when they do return.  \<open>keyboard_getchar\<close> is given the scan codes that arrive before each test and each halt, and
  has a value of its own (\<open>Inl\<close>) for being asleep for ever.  There is no other fuel.  Memory is a function from addresses to bytes, and the
  heap headers, stacks and saved contexts live in it as the code lays them out.  Ports are a log of accesses, and
  a device is a function from the log to the next value read, so that device behaviour is a hypothesis
  (\<open>uart_live\<close>: the transmitter becomes ready after finitely many polls; \<open>pic_readback\<close>: the mask registers read
  back).  Strings are lists of characters that end at the first NUL (\<open>cstr\<close>).

  \<^bold>\<open>The theories.\<close>

  \<^item> \<open>Prelude\<close>, \<open>CString\<close>, \<open>Memory\<close>: word lemmas and the collections \<open>const_defs\<close> and \<open>inv_defs\<close>; C strings; byte-addressed memory
    with little-endian access and address ranges (\<open>span\<close>).
  \<^item> \<open>Pmm\<close> (\<^verbatim>\<open>mm/pmm.cpp\<close>): the bitmap allocator.  The bitmap means a set of page numbers (\<open>free_set\<close>); initialisation
    computes it from the memory map, allocation takes the least page, pages handed out are distinct, nothing outside
    the bitmap is written.  Interface \<open>page_allocator\<close>.
  \<^item> \<open>Heap\<close>, \<open>Heap_Refine\<close>, \<open>Heap_Correct\<close> (\<^verbatim>\<open>mm/heap.cpp\<close>): the code on headers in memory; the block list it implements
    and the simulation; first fit, coalescing, the invariant over all runs, exclusive ownership of payloads, round
    trip, zeroing, the pool built by \<open>heap_init\<close>.  Interface \<open>block_allocator\<close>.
  \<^item> \<open>Cpu\<close> (\<^verbatim>\<open>sched/context_switch.asm\<close> and the register saving of \<^verbatim>\<open>isr_stubs.asm\<close>): registers, stack, interrupt entry, \<open>iretq\<close>.
  \<^item> \<open>Sched\<close>, \<open>Sched_Correct\<close> (\<^verbatim>\<open>sched/scheduler.cpp\<close>): the task table and the tick; one running task, round robin, preserved
    contexts of all tasks, disjoint stacks, task creation.
  \<^item> \<open>Ports\<close> (serial line of \<^verbatim>\<open>kernel_main.cpp\<close>), \<open>Pic\<close> (\<^verbatim>\<open>drivers/pic.cpp\<close>, \<^verbatim>\<open>drivers/pit.cpp\<close>): port output, read through a
    model of the 8259; programmed vectors, masks, end of interrupt, timer divisor.
  \<^item> \<open>Keyboard\<close> (\<^verbatim>\<open>drivers/keyboard.cpp\<close>): scan codes to characters, the ring buffer as a bounded queue (interface
    \<open>bounded_queue\<close>), blocking reads with interrupts before, between and after the test and the halt.
  \<^item> \<open>Font\<close>, \<open>Framebuffer\<close>, \<open>Fb_Draw\<close>, \<open>Fb_Console\<close> (\<^verbatim>\<open>drivers/framebuffer.cpp\<close>): glyphs, drawing and scrolling on the pixel array; the
    pixels show an abstract text console; tabs; decimal and hexadecimal output.
  \<^item> \<open>Vfs\<close> (\<^verbatim>\<open>fs/vfs.cpp\<close>): the file table as an ordered list of files.  Interface \<open>file_store\<close>.
  \<^item> \<open>Gdt\<close>, \<open>Idt\<close> (\<^verbatim>\<open>arch/x86_64/gdt.cpp\<close>, \<^verbatim>\<open>idt.cpp\<close>): the tables, decoded from their bytes as the processor reads them.
  \<^item> \<open>Panic\<close>, \<open>Isr\<close> (\<^verbatim>\<open>lib/panic.cpp\<close>, \<open>isr_handler\<close>, exception stubs): the frame a stub builds, the red screen, the
    report, row by row with its labels and registers, and the halt.
  \<^item> \<open>Irq\<close> (\<open>irq_stub_0\<close>, \<open>irq_stub_1\<close>, \<open>background_ticker_task\<close>): whole interrupts; transparency to the interrupted code,
    preemption, the step relation \<open>machine_step\<close>.  The return addresses that the calls of the stubs push are parameters
    (\<open>return_addrs\<close>).  Interface \<open>returning_handler\<close>.
  \<^item> \<open>Kernel\<close>, \<open>Shell\<close> (\<^verbatim>\<open>shell/shell.cpp\<close>): all states in one record, output to screen and serial line as actions (interfaces
    \<open>text_sink\<close> and \<open>two_sinks\<close>); every command against a reference reply, the line editor, one round of the loop.
  \<^item> \<open>Calls\<close> (\<^verbatim>\<open>shell/shell.cpp\<close> again): the shell cut into the operations between which an interrupt can arrive, one character
    or one read of a counter each; run without interruption they are one round of \<open>Shell\<close> (\<open>shell_round_calls\<close>).  The loop with its
    halt, which only an interrupt ends, is in \<open>System\<close>.
  \<^item> \<open>Kernel_Main\<close> (\<open>_start\<close>): the requests to the loader, the boot sequence with its failures and what it leaves behind.
  \<^item> \<open>Transition\<close>, \<open>Desk\<close>, \<open>Replies\<close>, \<open>System\<close>: the running kernel as a whole.  \<open>Transition\<close> has runs of labelled step relations and the
    interface \<open>forward_simulation\<close>.  \<open>Desk\<close> is the specification: an abstract machine with a text screen, the text sent, the edited
    line, the waiting keys, the numbers the commands report and the answer under way.  \<open>Replies\<close> relates the operations of \<open>Calls\<close> to
    the items of such an answer.  \<open>System\<close> has the step relation \<open>nova_step\<close> on the complete
    kernel state, in which the single operations and halts of the shell, keyboard and timer interrupts taken through the loaded table, the
    background loop and exceptions interleave in any order, from \<open>sti\<close> on.  \<open>Desk\<close> simulates it: every reachable state is well
    formed, nothing hangs, the commands that are executed do not depend on the schedule (\<open>commands_any_schedule\<close>), and what
    the shell is in the middle of comes to its end when interrupts leave it alone (\<open>commands_finish\<close>).
  \<^item> \<open>Dialog\<close>: the dialogue with a user after the boot.  The run of \<open>nova_step\<close> in which the keys of some lines are pressed and
    the shell works in between exists, every wake-up in it is a keyboard interrupt, and at its end the lines have been executed and
    answered (\<open>typed_lines_answered\<close>).

  \<^bold>\<open>Flaws of the code that the theorems state.\<close>  A new task is first entered from the timer interrupt with interrupts
  masked and without \<open>iretq\<close>, so the background task never gives the processor back
  (\<open>first_dispatch_masks_interrupts\<close>) and the shell is dead from the second tick on (\<open>shell_lives_two_ticks\<close>), unless there is no
  memory for that task (\<open>shell_survives_alone\<close>); the hex dump of the exception report loses two digits
  (\<open>u64_to_hex_truncates\<close>); vector 29 builds a shifted frame (\<open>isr_stub_29_shifts_frame\<close>); a tab near the right edge
  does not return (\<open>fb_tab_behaviour\<close>) and glyphs are mirrored (\<open>slash_drawn_mirrored\<close>); \<open>heap_init\<close> does not
  look at failed allocations (\<open>heap_init_ignores_oom\<close>) and sizes near \<open>2\<^sup>6\<^sup>4\<close> wrap (\<open>kmalloc_size_wrap\<close>); a tick without ready tasks
  resumes a dead one (\<open>sched_tick_resumes_dead\<close>); long file names are lost (\<open>vfs_long_name_lost\<close>); a key that arrives between the test and the
  halt of \<open>keyboard_getchar\<close> does not wake it (\<open>keyboard_getchar_returns\<close>), and the Tab key gives a character that its
  documentation rules out (\<open>keyboard_getchar_tab\<close>); \<open>meminfo\<close> reports pages only, not the heap that its help line announces
  (\<open>shell_execute_correct\<close>).

  \<^bold>\<open>Bounds.\<close>  The tables have the sizes of the source (16 tasks, 16 files, 256 key slots, 128 bytes of line, 256 KB of
  heap, 4 GB of pages).  The console theorems ask for a framebuffer of at least one cell whose pixel numbers fit
  in 32 bits, as the code computes them; the memory theorems for a memory map with Limine's guarantees.

  \<^bold>\<open>Not modelled.\<close>  The stack frames of the C functions between an interrupt stub and \<open>context_switch\<close>, which depend on
  the compiler: the stack is the registers, return addresses and frames that the assembly pushes.  Interrupts that
  arrive inside one operation of the shell (while one glyph is drawn, while the screen is scrolled or cleared, while the serial line is
  polled for one character): they come between operations; the operations on the screen and the handlers
  work on different parts of the kernel (\<open>screen_ops_commute\<close>), and that an interrupt leaves the state of the interrupted code alone is shown in \<open>Irq\<close>.  The memory-mapped framebuffer and the kernel's static data as parts of the
  byte-addressed memory.  The requests of
  \<^verbatim>\<open>limine.h\<close> (a third-party header) that the kernel does not make, and the linker script, build files and boot configuration.
\<close>

end
